(* ===== verification/Rust_Std.thy ===== *)
theory Rust_Std
  imports
    Main
    "HOL-Library.Word"
    "HOL-Library.Option_ord"
    "HOL-Library.Product_Lexorder"
begin

text \<open>
  The prelude of the development: what the Rust sources use of the language and of its
  standard library.  Fixed-width integers are words, with the saturating and checked operations
  of \<open>core::num\<close>; \<open>Result\<close> is a sum with the error on the left; \<open>Vec\<close> and slices are lists and
  \<open>usize\<close> indices into them are natural numbers, since an index into memory never reaches the
  width of \<open>usize\<close>.  The binary search is the loop of \<open>core::slice::binary_search_by\<close>, with
  the contract its clients use proved once.
\<close>

type_synonym u8 = "8 word"
type_synonym u16 = "16 word"
type_synonym u32 = "32 word"
type_synonym u64 = "64 word"
type_synonym u128 = "128 word"

section \<open>Machine integers\<close>

named_theorems nat_of_word \<open>rules that carry a statement about words over to natural numbers\<close>

declare word_le_nat_alt [nat_of_word] word_less_nat_alt [nat_of_word] word_unat_eq_iff [nat_of_word]

definition saturating_add :: "'a::len word \<Rightarrow> 'a word \<Rightarrow> 'a word" where
  "saturating_add a b = (if uint a + uint b < 2 ^ LENGTH('a) then a + b else - 1)"

definition saturating_sub :: "'a::len word \<Rightarrow> 'a word \<Rightarrow> 'a word" where
  "saturating_sub a b = (if a < b then 0 else a - b)"

definition checked_add :: "'a::len word \<Rightarrow> 'a word \<Rightarrow> 'a word option" where
  "checked_add a b = (if uint a + uint b < 2 ^ LENGTH('a) then Some (a + b) else None)"

definition checked_mul :: "'a::len word \<Rightarrow> 'a word \<Rightarrow> 'a word option" where
  "checked_mul a b = (if uint a * uint b < 2 ^ LENGTH('a) then Some (a * b) else None)"

text \<open>\<open>checked_shr\<close>: a shift by the whole width or more is \<open>None\<close>, never a masked shift.\<close>

definition checked_shr :: "'a::len word \<Rightarrow> nat \<Rightarrow> 'a word option" where
  "checked_shr a n = (if n < LENGTH('a) then Some (drop_bit n a) else None)"

text \<open>\<open>a..=b\<close> as the list of the values it yields.\<close>

definition range_inclusive :: "'a::len word \<Rightarrow> 'a word \<Rightarrow> 'a word list" where
  "range_inclusive a b = map of_nat [unat a..<Suc (unat b)]"

lemma unat_lt_size: "unat (x :: 'a::len word) < 2 ^ LENGTH('a)"
  by (rule unsigned_less)

lemma unat_bounds:
  "unat (a :: u16) < 65536"
  "unat (b :: u32) < 4294967296"
  "unat (c :: u64) < 18446744073709551616"
  "unat (d :: u128) < 340282366920938463463374607431768211456"
  using unat_lt_size [of a] unat_lt_size [of b] unat_lt_size [of c] unat_lt_size [of d] by simp_all

lemma unat_minus_one_max: "unat (- 1 :: 'a::len word) = 2 ^ LENGTH('a) - 1"
  by (simp add: unsigned_minus_1_eq_mask mask_eq_exp_minus_1)

lemma uint_fits:
  "uint a + uint b < 2 ^ n \<longleftrightarrow> unat a + unat b < 2 ^ n"
  "uint a * uint b < 2 ^ n \<longleftrightarrow> unat a * unat b < 2 ^ n"
  for a b :: "'a::len word"
proof -
  have "uint a + uint b < 2 ^ n \<longleftrightarrow> int (unat a + unat b) < int (2 ^ n)" by simp
  then show "uint a + uint b < 2 ^ n \<longleftrightarrow> unat a + unat b < 2 ^ n" by (simp only: of_nat_less_iff)
  have "uint a * uint b < 2 ^ n \<longleftrightarrow> int (unat a * unat b) < int (2 ^ n)" by simp
  then show "uint a * uint b < 2 ^ n \<longleftrightarrow> unat a * unat b < 2 ^ n" by (simp only: of_nat_less_iff)
qed

lemma unat_saturating_add:
  "unat (saturating_add a b :: 'a::len word) = min (unat a + unat b) (2 ^ LENGTH('a) - 1)"
  by (auto simp: saturating_add_def uint_fits unat_minus_one_max unat_word_ariths min_def)

lemma unat_saturating_sub: "unat (saturating_sub a b) = unat a - unat b"
  by (auto simp: saturating_sub_def nat_of_word unat_sub)

lemma checked_add_Some:
  "checked_add a b = Some c \<longleftrightarrow> unat a + unat b < 2 ^ LENGTH('a) \<and> c = a + b"
  for a b c :: "'a::len word"
  by (auto simp: checked_add_def uint_fits)

lemma unat_add_lt:
  "unat a + unat b < 2 ^ LENGTH('a) \<Longrightarrow> unat (a + b) = unat a + unat b" for a b :: "'a::len word"
  by (simp add: unat_word_ariths)

lemma unat_mult_lt:
  "unat a * unat b < 2 ^ LENGTH('a) \<Longrightarrow> unat (a * b) = unat a * unat b" for a b :: "'a::len word"
  by (simp add: unat_word_ariths)

lemma unat_of_nat_lt: "n < 2 ^ LENGTH('a) \<Longrightarrow> unat (of_nat n :: 'a::len word) = n"
  by (simp add: unat_of_nat)

lemma unat_ucast_up:
  "LENGTH('a) \<le> LENGTH('b) \<Longrightarrow> unat (ucast (x :: 'a::len word) :: 'b::len word) = unat x"
  by (simp add: unsigned_ucast_eq take_bit_nat_eq_self_iff
      order_less_le_trans [OF unat_lt_size] power_increasing_iff)

lemma unat_ucast_widen [simp]:
  "unat (ucast (a :: u8) :: u16) = unat a"
  "unat (ucast (b :: u16) :: u32) = unat b"
  "unat (ucast (c :: u32) :: u64) = unat c"
  "unat (ucast (c :: u32) :: u128) = unat c"
  "unat (ucast (d :: u64) :: u128) = unat d"
  by (rule unat_ucast_up; simp)+

lemma unat_ucast_narrow:
  "unat x < 2 ^ LENGTH('b) \<Longrightarrow> unat (ucast (x :: 'a::len word) :: 'b::len word) = unat x"
  by (simp add: unsigned_ucast_eq take_bit_nat_eq_self)

lemma le_saturating_succ:
  "(x :: 'a::len word) \<le> saturating_add y 1 \<longleftrightarrow> unat x \<le> Suc (unat y)"
proof -
  have "unat x \<le> 2 ^ LENGTH('a) - 1"
    using unat_lt_size [of x] by linarith
  moreover have "unat (1 :: 'a word) = 1" by simp
  ultimately show ?thesis by (simp add: word_le_nat_alt unat_saturating_add)
qed

lemma unat_succ:
  assumes "(x :: 'a::len word) < y"
  shows "unat (x + 1) = Suc (unat x)"
proof -
  have "unat x + unat (1 :: 'a word) < 2 ^ LENGTH('a)"
    using assms unat_lt_size [of y] unfolding word_less_nat_alt unat_1 by linarith
  then show ?thesis by (simp add: unat_add_lt)
qed

lemma unat_pred: "(x :: 'a::len word) < y \<Longrightarrow> unat (y - 1) = unat y - 1"
  by (rule unat_minus_one) auto

lemma set_range_inclusive: "set (range_inclusive a b) = {a..b}" for a b :: "'a::len word"
proof -
  have "x \<in> of_nat ` {unat a..<Suc (unat b)} \<longleftrightarrow> a \<le> x \<and> x \<le> b" for x :: "'a word"
  proof
    assume "x \<in> of_nat ` {unat a..<Suc (unat b)}"
    then obtain n where n: "x = of_nat n" "unat a \<le> n" "n \<le> unat b" by auto
    then have "n < 2 ^ LENGTH('a)" using unat_lt_size [of b] by linarith
    with n show "a \<le> x \<and> x \<le> b" by (simp add: word_le_nat_alt unat_of_nat)
  next
    assume "a \<le> x \<and> x \<le> b"
    then have "unat x \<in> {unat a..<Suc (unat b)}" by (simp add: word_le_nat_alt)
    then show "x \<in> of_nat ` {unat a..<Suc (unat b)}" by (rule rev_image_eqI) simp
  qed
  then show ?thesis by (simp add: range_inclusive_def set_eq_iff del: upt_Suc)
qed

lemma map_unat_range_inclusive: "map unat (range_inclusive a b) = [unat a..<Suc (unat b)]"
proof -
  have "unat (of_nat n :: 'a word) = n" if "n \<in> set [unat a..<Suc (unat b)]" for n
  proof -
    have "n \<le> unat b" using that unfolding set_upt by simp
    then have "n < 2 ^ LENGTH('a)" using unat_lt_size [of b] by (rule le_less_trans)
    then show ?thesis by (simp add: unat_of_nat)
  qed
  then show ?thesis unfolding range_inclusive_def map_map comp_def by (intro map_idI) blast
qed

lemma range_inclusive_sorted: "sorted_wrt (<) (range_inclusive a b)"
proof -
  have "sorted_wrt (<) (map unat (range_inclusive a b))" by (simp add: map_unat_range_inclusive del: upt_Suc)
  then show ?thesis unfolding sorted_wrt_map by (simp flip: word_less_nat_alt)
qed

section \<open>Orderings and binary search\<close>

datatype ordering = Less | Equal | Greater

text \<open>\<open>Ord::cmp\<close> on a linear order.\<close>

definition cmp :: "'a::linorder \<Rightarrow> 'a \<Rightarrow> ordering" where
  "cmp a b = (if a < b then Less else if a = b then Equal else Greater)"

text \<open>\<open>Ordering::then_with\<close>: the second ordering decides where the first is equal.\<close>

fun then_with :: "ordering \<Rightarrow> ordering \<Rightarrow> ordering" where
  "then_with Equal o2 = o2"
| "then_with o1 o2 = o1"

function search_loop :: "('a \<Rightarrow> ordering) \<Rightarrow> 'a list \<Rightarrow> nat \<Rightarrow> nat \<Rightarrow> nat" where
  "search_loop f xs base n =
     (if 1 < n
      then let half = n div 2; mid = base + half
           in search_loop f xs (if f (xs ! mid) = Greater then base else mid) (n - half)
      else base)"
  by pat_completeness auto
termination
  by (relation "measure (\<lambda>(f, xs, base, n). n)") auto

declare search_loop.simps [simp del]

text \<open>\<open>slice::binary_search_by\<close>: \<open>Inr i\<close> is \<open>Ok(i)\<close> and \<open>Inl i\<close> is \<open>Err(i)\<close>.\<close>

definition binary_search_by :: "('a \<Rightarrow> ordering) \<Rightarrow> 'a list \<Rightarrow> nat + nat" where
  "binary_search_by f xs =
     (if xs = [] then Inl 0
      else let base = search_loop f xs 0 (length xs)
           in case f (xs ! base) of
                Equal \<Rightarrow> Inr base | Less \<Rightarrow> Inl (Suc base) | Greater \<Rightarrow> Inl base)"

definition partition_point :: "('a \<Rightarrow> bool) \<Rightarrow> 'a list \<Rightarrow> nat" where
  "partition_point p xs =
     (case binary_search_by (\<lambda>x. if p x then Less else Greater) xs of Inr i \<Rightarrow> i | Inl i \<Rightarrow> i)"

text \<open>
  The contract of the search: its comparator answers \<open>Less\<close> on a prefix, \<open>Greater\<close> on a suffix
  and \<open>Equal\<close> in between.
\<close>

definition cmp_sorted :: "('a \<Rightarrow> ordering) \<Rightarrow> 'a list \<Rightarrow> bool" where
  "cmp_sorted f xs \<longleftrightarrow>
     sorted_wrt (\<lambda>x y. (f y = Less \<longrightarrow> f x = Less) \<and> (f x = Greater \<longrightarrow> f y = Greater)) xs"

lemma search_loop_step:
  assumes "1 < n"
  shows "search_loop f xs base n =
    search_loop f xs (if f (xs ! (base + n div 2)) = Greater then base else base + n div 2) (n - n div 2)"
  using assms by (simp add: search_loop.simps [of f xs base n] Let_def)

lemma search_loop_stop: "\<not> 1 < n \<Longrightarrow> search_loop f xs base n = base"
  by (simp add: search_loop.simps [of f xs base n])

lemma search_loop_bound: "0 < n \<Longrightarrow> search_loop f xs base n < base + n"
proof (induction n arbitrary: base rule: less_induct)
  case (less n)
  show ?case
  proof (cases "1 < n")
    case True
    define b where "b = (if f (xs ! (base + n div 2)) = Greater then base else base + n div 2)"
    from True have "search_loop f xs b (n - n div 2) < b + (n - n div 2)"
      by (intro less.IH) auto
    moreover have "b + (n - n div 2) \<le> base + n" by (auto simp: b_def)
    ultimately show ?thesis by (simp add: search_loop_step [OF True] flip: b_def)
  next
    case False
    with less.prems show ?thesis by (simp add: search_loop_stop)
  qed
qed

lemma cmp_sorted_nth:
  assumes "cmp_sorted f xs" and "i \<le> j" and "j < length xs"
  shows "(f (xs ! j) = Less \<longrightarrow> f (xs ! i) = Less) \<and> (f (xs ! i) = Greater \<longrightarrow> f (xs ! j) = Greater)"
  using assms by (cases "i = j") (auto simp: cmp_sorted_def sorted_wrt_iff_nth_less nat_less_le)

text \<open>The loop ends on the last element that does not compare greater, or on the first one.\<close>

lemma search_loop_split:
  assumes sorted: "cmp_sorted f xs" and "0 < n" and "base + n \<le> length xs"
    and "base = 0 \<or> f (xs ! base) \<noteq> Greater"
    and "base + n = length xs \<or> f (xs ! (base + n)) = Greater"
  defines "r \<equiv> search_loop f xs base n"
  shows "(r = 0 \<or> f (xs ! r) \<noteq> Greater) \<and> (Suc r = length xs \<or> f (xs ! Suc r) = Greater)"
  using assms(2-5) unfolding r_def
proof (induction n arbitrary: base rule: less_induct)
  case (less n)
  show ?case
  proof (cases "1 < n")
    case True
    define b where "b = (if f (xs ! (base + n div 2)) = Greater then base else base + n div 2)"
    define m where "m = n - n div 2"
    have "0 < m" "m < n" "n div 2 \<le> m" using True by (auto simp: m_def)
    have "b + m \<le> length xs" using less.prems(2) by (auto simp: b_def m_def)
    moreover have "b = 0 \<or> f (xs ! b) \<noteq> Greater" using less.prems(3) by (auto simp: b_def)
    moreover have "b + m = length xs \<or> f (xs ! (b + m)) = Greater"
    proof (cases "f (xs ! (base + n div 2)) = Greater")
      case greater: True
      then have "base + m = length xs \<or> f (xs ! (base + m)) = Greater"
        using cmp_sorted_nth [OF sorted, of "base + n div 2" "base + m"] less.prems(2)
          \<open>n div 2 \<le> m\<close> \<open>m < n\<close> by auto
      with greater show ?thesis by (simp add: b_def)
    next
      case False
      then have "b + m = base + n" using True by (simp add: b_def m_def)
      with less.prems(4) show ?thesis by simp
    qed
    ultimately show ?thesis
      using less.IH [OF \<open>m < n\<close> \<open>0 < m\<close>] search_loop_step [OF True, of f xs base]
      by (simp flip: b_def m_def)
  next
    case False
    with less.prems(1) have "n = 1" by simp
    with less.prems show ?thesis by (simp add: search_loop_stop)
  qed
qed

lemma binary_search_Ok: "binary_search_by f xs = Inr k \<Longrightarrow> k < length xs \<and> f (xs ! k) = Equal"
  using search_loop_bound [of "length xs" f xs 0]
  by (auto simp: binary_search_by_def Let_def split: if_splits ordering.splits)

lemma binary_search_Err:
  assumes sorted: "cmp_sorted f xs" and err: "binary_search_by f xs = Inl k"
  shows "k \<le> length xs \<and> (\<forall>i < k. f (xs ! i) = Less) \<and> (\<forall>i. k \<le> i \<longrightarrow> i < length xs \<longrightarrow> f (xs ! i) = Greater)"
proof (cases "xs = []")
  case True
  with err show ?thesis by (simp add: binary_search_by_def)
next
  case False
  define r where "r = search_loop f xs 0 (length xs)"
  have bound: "r < length xs"
    using search_loop_bound [of "length xs" f xs 0] False by (simp add: r_def)
  have split: "r = 0 \<or> f (xs ! r) \<noteq> Greater" "Suc r = length xs \<or> f (xs ! Suc r) = Greater"
    using search_loop_split [OF sorted, of "length xs" 0] False by (auto simp: r_def)
  note mono = cmp_sorted_nth [OF sorted]
  show ?thesis
  proof (cases "f (xs ! r)")
    case Less
    with False err have "k = Suc r" by (simp add: binary_search_by_def r_def Let_def)
    moreover have "f (xs ! i) = Less" if "i < Suc r" for i
      using that Less mono [of i r] bound by auto
    moreover have "f (xs ! i) = Greater" if "Suc r \<le> i" "i < length xs" for i
      using that mono [of "Suc r" i] split(2) by auto
    ultimately show ?thesis using bound by auto
  next
    case Equal
    with False err show ?thesis by (simp add: binary_search_by_def r_def Let_def)
  next
    case Greater
    with False err split have "k = 0" "r = 0" by (auto simp: binary_search_by_def r_def Let_def)
    with Greater mono [of 0] show ?thesis by auto
  qed
qed

lemma binary_search_finds:
  assumes "cmp_sorted f xs"
  shows "(\<exists>k. binary_search_by f xs = Inr k) \<longleftrightarrow> (\<exists>x \<in> set xs. f x = Equal)"
proof
  assume "\<exists>k. binary_search_by f xs = Inr k"
  then show "\<exists>x \<in> set xs. f x = Equal"
    using binary_search_Ok [of f xs] nth_mem by blast
next
  assume "\<exists>x \<in> set xs. f x = Equal"
  then obtain i where i: "i < length xs" "f (xs ! i) = Equal" by (auto simp: in_set_conv_nth)
  show "\<exists>k. binary_search_by f xs = Inr k"
  proof (cases "binary_search_by f xs")
    case (Inl k)
    from binary_search_Err [OF assms this] i show ?thesis
      by (cases "i < k") auto
  qed simp
qed

text \<open>On a list that satisfies \<open>p\<close> on a prefix only, the partition point is that prefix's length.\<close>

lemma partition_point_prefix:
  assumes "sorted_wrt (\<lambda>x y. p y \<longrightarrow> p x) xs"
  shows "partition_point p xs \<le> length xs
    \<and> (\<forall>i < partition_point p xs. p (xs ! i))
    \<and> (\<forall>i. partition_point p xs \<le> i \<longrightarrow> i < length xs \<longrightarrow> \<not> p (xs ! i))"
proof -
  let ?f = "\<lambda>x. if p x then Less else Greater"
  have "cmp_sorted ?f xs"
    unfolding cmp_sorted_def by (rule sorted_wrt_mono_rel [OF _ assms]) auto
  moreover have "binary_search_by ?f xs \<noteq> Inr k" for k
    using binary_search_Ok [of ?f xs k] by (auto split: if_splits)
  ultimately show ?thesis
    using binary_search_Err [of ?f xs "partition_point p xs"]
    by (cases "binary_search_by ?f xs") (auto simp: partition_point_def split: if_splits)
qed

lemma partition_point_takeWhile:
  assumes "sorted_wrt (\<lambda>x y. p y \<longrightarrow> p x) xs"
  shows "partition_point p xs = length (takeWhile p xs)"
  using partition_point_prefix [OF assms]
  by (metis (no_types, lifting) le_neq_implies_less length_takeWhile_less_P_nth
      linorder_le_less_linear nth_length_takeWhile length_takeWhile_le nth_mem takeWhile_nth
      set_takeWhileD order.order_iff_strict)

end
