(* ===== verification/Intervals.thy ===== *)
theory Intervals
  imports Rust_Std
begin

text \<open>
  The abstract specification of a set held as ranges: lists of inclusive intervals of natural
  numbers, the canonical form every merged set of the engine is kept in (ascending, disjoint
  and not even adjacent), and the reference subtraction.  The locale \<open>range_lane\<close> is the
  interface a concrete range type offers the merge loop and the binary search; IPv4 ranges,
  zoned IPv6 ranges and port ranges each interpret it.
\<close>

type_synonym ival = "nat \<times> nat"

definition ival_set :: "ival \<Rightarrow> nat set" where
  "ival_set i = {fst i..snd i}"

definition ivals_set :: "ival list \<Rightarrow> nat set" where
  "ivals_set xs = (\<Union>i \<in> set xs. ival_set i)"

definition canonical :: "ival list \<Rightarrow> bool" where
  "canonical xs \<longleftrightarrow>
     (\<forall>i \<in> set xs. fst i \<le> snd i) \<and> sorted_wrt (\<lambda>i j. Suc (snd i) < fst j) xs"

lemma ival_set_iff [simp]: "x \<in> ival_set i \<longleftrightarrow> fst i \<le> x \<and> x \<le> snd i"
  by (simp add: ival_set_def)

lemma ivals_set_iff: "x \<in> ivals_set xs \<longleftrightarrow> (\<exists>i \<in> set xs. fst i \<le> x \<and> x \<le> snd i)"
  by (simp add: ivals_set_def)

lemma ivals_set_simps [simp]:
  "ivals_set [] = {}"
  "ivals_set (i # xs) = ival_set i \<union> ivals_set xs"
  "ivals_set (xs @ ys) = ivals_set xs \<union> ivals_set ys"
  by (auto simp: ivals_set_def)

lemma finite_ivals_set [simp]: "finite (ivals_set xs)"
  by (simp add: ivals_set_def ival_set_def)

lemma canonical_Nil [simp]: "canonical []"
  by (simp add: canonical_def)

lemma canonical_Cons:
  "canonical (i # xs) \<longleftrightarrow> fst i \<le> snd i \<and> (\<forall>j \<in> set xs. Suc (snd i) < fst j) \<and> canonical xs"
  by (auto simp: canonical_def)

lemma canonical_append:
  "canonical (xs @ ys) \<longleftrightarrow>
     canonical xs \<and> canonical ys \<and> (\<forall>i \<in> set xs. \<forall>j \<in> set ys. Suc (snd i) < fst j)"
  by (auto simp: canonical_def sorted_wrt_append)

lemma canonical_above:
  "canonical (i # xs) \<Longrightarrow> x \<in> ivals_set xs \<Longrightarrow> Suc (snd i) < x"
  by (fastforce simp: canonical_Cons ivals_set_iff)

section \<open>The canonical form is unique\<close>

lemma canonical_tail_set:
  assumes "canonical (i # xs)"
  shows "ivals_set xs = ivals_set (i # xs) - ival_set i"
proof -
  have "x \<notin> ival_set i" if "x \<in> ivals_set xs" for x
    using canonical_above [OF assms that] by simp
  then show ?thesis by auto
qed

lemma canonical_least:
  assumes "canonical (i # xs)" and "x \<in> ivals_set (i # xs)"
  shows "fst i \<le> x"
proof (cases "x \<in> ivals_set xs")
  case True
  from canonical_above [OF assms(1) True] assms(1) show ?thesis by (simp add: canonical_Cons)
next
  case False
  with assms(2) show ?thesis by simp
qed

lemma canonical_head_le:
  assumes "canonical (i # xs)" and "canonical (j # ys)"
    and eq: "ivals_set (i # xs) = ivals_set (j # ys)"
  shows "fst i \<le> fst j \<and> snd i \<le> snd j"
proof -
  have le: "fst i \<le> snd i" "fst j \<le> snd j" using assms by (auto simp: canonical_Cons)
  have "fst i \<in> ivals_set (i # xs)" "fst j \<in> ivals_set (j # ys)"
    using le by auto
  with eq have "fst i \<in> ivals_set (j # ys)" "fst j \<in> ivals_set (i # xs)"
    by (simp_all only:)
  then have fst_eq: "fst i = fst j"
    using canonical_least [OF assms(1)] canonical_least [OF assms(2)] by (intro le_antisym)
  have "snd i \<le> snd j"
  proof (rule ccontr)
    assume "\<not> snd i \<le> snd j"
    with fst_eq le have "Suc (snd j) \<in> ival_set i" by auto
    then have "Suc (snd j) \<in> ivals_set (j # ys)" unfolding eq [symmetric] by simp
    then show False using canonical_above [OF assms(2)] by auto
  qed
  with fst_eq show ?thesis by simp
qed

lemma canonical_unique:
  "canonical xs \<Longrightarrow> canonical ys \<Longrightarrow> ivals_set xs = ivals_set ys \<Longrightarrow> xs = ys"
proof (induction xs arbitrary: ys)
  case Nil
  then show ?case by (cases ys) (auto simp: canonical_Cons)
next
  case (Cons i xs)
  from Cons.prems obtain j ys' where ys: "ys = j # ys'"
    by (cases ys) (auto simp: canonical_Cons)
  have "i = j"
    using canonical_head_le [of i xs j ys'] canonical_head_le [of j ys' i xs] Cons.prems ys
    by (auto simp: prod_eq_iff)
  moreover from this Cons.prems ys have "ivals_set xs = ivals_set ys'"
    by (metis canonical_tail_set)
  then have "xs = ys'"
    using Cons.IH Cons.prems ys by (auto simp: canonical_Cons)
  ultimately show ?case using ys by simp
qed

section \<open>Enumeration\<close>

text \<open>The members of a list of intervals in the order the list has them.\<close>

definition enum_ivals :: "ival list \<Rightarrow> nat list" where
  "enum_ivals xs = concat (map (\<lambda>i. [fst i..<Suc (snd i)]) xs)"

lemma enum_ivals_simps [simp]:
  "enum_ivals [] = []"
  "enum_ivals (i # xs) = [fst i..<Suc (snd i)] @ enum_ivals xs"
  "enum_ivals (xs @ ys) = enum_ivals xs @ enum_ivals ys"
  by (simp_all add: enum_ivals_def del: upt_Suc)

lemma set_enum_ivals [simp]: "set (enum_ivals xs) = ivals_set xs"
  by (induction xs) (auto simp del: upt_Suc)

lemma enum_ivals_sorted: "canonical xs \<Longrightarrow> sorted_wrt (<) (enum_ivals xs)"
proof (induction xs)
  case (Cons i xs)
  then have "sorted_wrt (<) (enum_ivals xs)" by (simp add: canonical_Cons)
  moreover have "x < y" if "x \<le> snd i" "y \<in> ivals_set xs" for x y
    using canonical_above [OF Cons.prems that(2)] that(1) by simp
  ultimately show ?case by (simp add: sorted_wrt_append less_Suc_eq_le del: upt_Suc)
qed simp

lemma enum_ivals_distinct: "canonical xs \<Longrightarrow> distinct (enum_ivals xs)"
  using enum_ivals_sorted strict_sorted_iff by blast

lemma length_enum_ivals: "length (enum_ivals xs) = (\<Sum>i\<leftarrow>xs. Suc (snd i) - fst i)"
  by (induction xs) (simp_all del: upt_Suc)

lemma card_canonical:
  assumes "canonical xs"
  shows "card (ivals_set xs) = (\<Sum>i\<leftarrow>xs. Suc (snd i) - fst i)"
  using distinct_card [OF enum_ivals_distinct [OF assms]] by (simp add: length_enum_ivals)

section \<open>Merging: the interface of a range type\<close>

text \<open>
  The loop every merge of the engine runs over its sorted ranges: the current range absorbs
  the next one where the two touch, and is emitted where they do not.
\<close>

fun merge_loop :: "('r \<Rightarrow> 'r \<Rightarrow> bool) \<Rightarrow> ('r \<Rightarrow> 'r \<Rightarrow> 'r) \<Rightarrow> 'r \<Rightarrow> 'r list \<Rightarrow> 'r list" where
  "merge_loop joins grow current [] = [current]"
| "merge_loop joins grow current (following # rest) =
     (if joins current following
      then merge_loop joins grow (grow current following) rest
      else current # merge_loop joins grow following rest)"

text \<open>
  What a range type promises: its bounds on a line of natural numbers, and that its test for
  touching and its growth agree with those bounds, for ranges met in ascending order.
\<close>

locale range_lane =
  fixes ok :: "'r \<Rightarrow> bool"
    and lo :: "'r \<Rightarrow> nat"
    and hi :: "'r \<Rightarrow> nat"
    and joins :: "'r \<Rightarrow> 'r \<Rightarrow> bool"
    and grow :: "'r \<Rightarrow> 'r \<Rightarrow> 'r"
  assumes lo_le_hi: "ok r \<Longrightarrow> lo r \<le> hi r"
    and joins_iff: "ok a \<Longrightarrow> ok b \<Longrightarrow> lo a \<le> lo b \<Longrightarrow> joins a b \<longleftrightarrow> lo b \<le> Suc (hi a)"
    and grow_ok: "ok a \<Longrightarrow> ok b \<Longrightarrow> lo a \<le> lo b \<Longrightarrow> joins a b \<Longrightarrow> ok (grow a b)"
    and grow_lo: "ok a \<Longrightarrow> ok b \<Longrightarrow> lo a \<le> lo b \<Longrightarrow> joins a b \<Longrightarrow> lo (grow a b) = lo a"
    and grow_hi: "ok a \<Longrightarrow> ok b \<Longrightarrow> lo a \<le> lo b \<Longrightarrow> joins a b \<Longrightarrow>
      hi (grow a b) = max (hi a) (hi b)"
begin

abbreviation ival_of :: "'r \<Rightarrow> ival" where
  "ival_of r \<equiv> (lo r, hi r)"

abbreviation points :: "'r list \<Rightarrow> nat set" where
  "points rs \<equiv> ivals_set (map ival_of rs)"

lemma merge_loop_correct:
  "(\<forall>r \<in> set (c # rest). ok r) \<Longrightarrow> sorted (map lo (c # rest)) \<Longrightarrow>
     (\<forall>r \<in> set (merge_loop joins grow c rest). ok r \<and> lo c \<le> lo r)
     \<and> canonical (map ival_of (merge_loop joins grow c rest))
     \<and> points (merge_loop joins grow c rest) = points (c # rest)"
proof (induction rest arbitrary: c)
  case Nil
  then show ?case by (simp add: canonical_Cons lo_le_hi)
next
  case (Cons b rest)
  have ok: "ok c" "ok b" "lo c \<le> lo b" using Cons.prems by auto
  show ?case
  proof (cases "joins c b")
    case True
    let ?g = "grow c b"
    have g: "ok ?g" "lo ?g = lo c" "hi ?g = max (hi c) (hi b)"
      using True ok grow_ok grow_lo grow_hi by auto
    have "ival_set (ival_of ?g) = ival_set (ival_of c) \<union> ival_set (ival_of b)"
      using True ok joins_iff [of c b] lo_le_hi [of b] by (auto simp: g max_def)
    then have pts: "points (?g # rest) = points (c # b # rest)" by (simp add: Un_assoc)
    have "\<forall>r \<in> set (?g # rest). ok r" "sorted (map lo (?g # rest))"
      using Cons.prems g ok by auto
    note IH = Cons.IH [OF this, unfolded pts g(2)]
    have eq: "merge_loop joins grow c (b # rest) = merge_loop joins grow ?g rest" using True by simp
    show ?thesis unfolding eq by (rule IH)
  next
    case False
    have IH: "(\<forall>r \<in> set (merge_loop joins grow b rest). ok r \<and> lo b \<le> lo r)
       \<and> canonical (map ival_of (merge_loop joins grow b rest))
       \<and> points (merge_loop joins grow b rest) = points (b # rest)"
      using Cons.IH [of b] Cons.prems by auto
    have "Suc (hi c) < lo b" using False ok joins_iff [of c b] by auto
    with False IH ok show ?thesis by (auto simp: canonical_Cons lo_le_hi intro: order_trans)
  qed
qed

lemma search_sorted:
  assumes "canonical (map ival_of rs)"
  shows "cmp_sorted (\<lambda>r. if t < lo r then Greater else if hi r < t then Less else Equal) rs"
  using assms unfolding cmp_sorted_def canonical_def sorted_wrt_map
  by (auto elim!: sorted_wrt_mono_rel [rotated])

lemma search_iff:
  assumes "canonical (map ival_of rs)"
  shows "(\<exists>k. binary_search_by (\<lambda>r. if t < lo r then Greater else if hi r < t then Less else Equal) rs
            = Inr k) \<longleftrightarrow> t \<in> points rs"
proof -
  have "(\<exists>r \<in> set rs. (if t < lo r then Greater else if hi r < t then Less else Equal) = Equal)
      \<longleftrightarrow> t \<in> points rs"
    by (force simp: ivals_set_iff not_less split: if_splits)
  then show ?thesis using binary_search_finds [OF search_sorted [OF assms]] by simp
qed

end

section \<open>Subtraction\<close>

text \<open>
  The reference for cutting one interval, from a cursor to its end, by ascending cuts: the gap
  before each cut survives, and so does what lies past the last.
\<close>

fun cut_ival :: "nat \<Rightarrow> nat \<Rightarrow> ival list \<Rightarrow> ival list" where
  "cut_ival cursor stop [] = [(cursor, stop)]"
| "cut_ival cursor stop (c # cuts) =
     (if fst c \<le> stop
      then (if cursor < fst c then [(cursor, fst c - 1)] else [])
        @ (if stop \<le> snd c then [] else cut_ival (Suc (snd c)) stop cuts)
      else [(cursor, stop)])"

lemma cut_ival_correct:
  "cursor \<le> stop \<Longrightarrow> canonical cuts \<Longrightarrow> (\<forall>c \<in> set cuts. cursor \<le> snd c) \<Longrightarrow>
     canonical (cut_ival cursor stop cuts)
     \<and> ivals_set (cut_ival cursor stop cuts) = {cursor..stop} - ivals_set cuts
     \<and> (\<forall>p \<in> set (cut_ival cursor stop cuts). cursor \<le> fst p \<and> fst p \<le> snd p \<and> snd p \<le> stop)"
proof (induction cursor stop cuts rule: cut_ival.induct)
  case (1 cursor stop)
  then show ?case by (auto simp: canonical_Cons)
next
  case (2 cursor stop c cuts)
  have above: "Suc (snd c) < x" if "x \<in> ivals_set cuts" for x
    using canonical_above 2 that by blast
  have c: "fst c \<le> snd c" "cursor \<le> snd c" "canonical cuts" using 2 by (auto simp: canonical_Cons)
  have later: "Suc (snd c) < snd d" if "d \<in> set cuts" for d
    using that 2(3) by (fastforce simp: canonical_Cons canonical_def)
  consider "stop < fst c" | "fst c \<le> stop" "stop \<le> snd c" | "fst c \<le> stop" "snd c < stop"
    by linarith
  then show ?case
  proof cases
    case 1
    have "x \<notin> ivals_set (c # cuts)" if "x \<le> stop" for x
      using that above [of x] c 1 by auto
    then have "{cursor..stop} - ivals_set (c # cuts) = {cursor..stop}" by auto
    then show ?thesis using 1 2(2) by (simp add: canonical_Cons ival_set_def)
  next
    case 2
    have "x \<in> {cursor..stop} - ivals_set (c # cuts) \<longleftrightarrow> x \<in> {cursor..<fst c}" for x
    proof (cases "x \<in> ivals_set cuts")
      case True
      with above [of x] c 2 show ?thesis by simp
    next
      case False
      with c 2 show ?thesis by (simp, linarith)
    qed
    then have set: "{cursor..stop} - ivals_set (c # cuts) = {cursor..<fst c}" by blast
    have eq: "cut_ival cursor stop (c # cuts)
        = (if cursor < fst c then [(cursor, fst c - 1)] else [])" using 2 by simp
    have "ivals_set (if cursor < fst c then [(cursor, fst c - 1)] else []) = {cursor..<fst c}" by auto
    then show ?thesis unfolding set eq using 2 by (simp add: canonical_Cons) linarith
  next
    case 3
    let ?rest = "cut_ival (Suc (snd c)) stop cuts"
    have "canonical ?rest
        \<and> ivals_set ?rest = {Suc (snd c)..stop} - ivals_set cuts
        \<and> (\<forall>p \<in> set ?rest. Suc (snd c) \<le> fst p \<and> fst p \<le> snd p \<and> snd p \<le> stop)"
    proof (rule 2(1))
      show "\<forall>d \<in> set cuts. Suc (snd c) \<le> snd d" using later less_imp_le by blast
    qed (use 3 c in auto)
    then have IH: "canonical ?rest" "ivals_set ?rest = {Suc (snd c)..stop} - ivals_set cuts"
      "\<And>p. p \<in> set ?rest \<Longrightarrow> Suc (snd c) \<le> fst p \<and> fst p \<le> snd p \<and> snd p \<le> stop"
      by auto
    let ?gap = "if cursor < fst c then [(cursor, fst c - 1)] else []"
    have eq: "cut_ival cursor stop (c # cuts) = ?gap @ ?rest" using 3 by simp
    have gap: "ivals_set ?gap = {cursor..<fst c}" by auto
    have "canonical (?gap @ ?rest)"
      using IH(1) IH(3) c by (auto simp: canonical_append canonical_Cons dest!: IH(3))
    moreover have "ivals_set (?gap @ ?rest) = {cursor..stop} - ivals_set (c # cuts)"
    proof (rule set_eqI)
      fix x
      show "x \<in> ivals_set (?gap @ ?rest) \<longleftrightarrow> x \<in> {cursor..stop} - ivals_set (c # cuts)"
      proof (cases "x \<in> ivals_set cuts")
        case True
        with above [of x] c 3 show ?thesis unfolding ivals_set_simps gap IH(2) by simp
      next
        case False
        with c 3 show ?thesis unfolding ivals_set_simps gap IH(2) by (simp, linarith)
      qed
    qed
    moreover have "cursor \<le> fst p \<and> fst p \<le> snd p \<and> snd p \<le> stop"
      if "p \<in> set (?gap @ ?rest)" for p
      using that IH(3) [of p] c 3 by (auto split: if_splits)
    ultimately show ?thesis unfolding eq by blast
  qed
qed

end
