(* ===== verification/Ip_Range.thy ===== *)
theory Ip_Range
  imports Intervals
begin

text \<open>
  Contiguous runs of addresses, as in \<open>src/src/model/ip/range.rs\<close>.  An \<open>Ipv4Addr\<close> is the
  \<open>u32\<close> it converts to and from, an \<open>Ipv6Addr\<close> the \<open>u128\<close>.  A range is two addresses and
  everything between them; an IPv6 range also carries the interface its addresses are valid on.
\<close>

unbundle bit_operations_syntax

type_synonym ipv4_addr = u32
type_synonym ipv6_addr = u128

datatype ip_addr = V4 ipv4_addr | V6 ipv6_addr

text \<open>
  The causes \<open>AddrParse\<close> and \<open>PrefixParse\<close> wrap are opaque values of the standard library, so
  only the constructors are kept.
\<close>

datatype ip_error =
    InvalidRange ip_addr ip_addr
  | InvalidPrefix u8
  | AddrParse
  | InvalidFormat string
  | PrefixParse

section \<open>IPv4 ranges\<close>

record ipv4_range =
  start_addr4 :: ipv4_addr
  end_addr4 :: ipv4_addr

definition ipv4_new :: "ipv4_addr \<Rightarrow> ipv4_addr \<Rightarrow> ip_error + ipv4_range" where
  "ipv4_new start stop =
     (if start \<le> stop then Inr \<lparr>start_addr4 = start, end_addr4 = stop\<rparr>
      else Inl (InvalidRange (V4 start) (V4 stop)))"

definition ipv4_iter :: "ipv4_range \<Rightarrow> ip_addr list" where
  "ipv4_iter r = map V4 (range_inclusive (start_addr4 r) (end_addr4 r))"

definition ipv4_single :: "ipv4_addr \<Rightarrow> ipv4_range" where
  "ipv4_single addr = \<lparr>start_addr4 = addr, end_addr4 = addr\<rparr>"

definition ipv4_extend_end_to :: "ipv4_range \<Rightarrow> ipv4_addr \<Rightarrow> ipv4_range" where
  "ipv4_extend_end_to r stop = (if stop > end_addr4 r then r\<lparr>end_addr4 := stop\<rparr> else r)"

definition ipv4_contains :: "ipv4_range \<Rightarrow> ipv4_addr \<Rightarrow> bool" where
  "ipv4_contains r ip \<longleftrightarrow> start_addr4 r \<le> ip \<and> ip \<le> end_addr4 r"

definition ipv4_len :: "ipv4_range \<Rightarrow> u64" where
  "ipv4_len r = (ucast (end_addr4 r) - ucast (start_addr4 r)) + 1"

section \<open>IPv6 ranges\<close>

record ipv6_range =
  start_addr6 :: ipv6_addr
  end_addr6 :: ipv6_addr
  zone6 :: "u32 option"

definition ipv6_scoped :: "ipv6_addr \<Rightarrow> ipv6_addr \<Rightarrow> u32 option \<Rightarrow> ip_error + ipv6_range" where
  "ipv6_scoped start stop zone =
     (if start \<le> stop
      then Inr \<lparr>start_addr6 = start, end_addr6 = stop,
                zone6 = (case zone of Some index \<Rightarrow> if index \<noteq> 0 then Some index else None
                                    | None \<Rightarrow> None)\<rparr>
      else Inl (InvalidRange (V6 start) (V6 stop)))"

definition ipv6_new :: "ipv6_addr \<Rightarrow> ipv6_addr \<Rightarrow> ip_error + ipv6_range" where
  "ipv6_new start stop = ipv6_scoped start stop None"

definition ipv6_single :: "ipv6_addr \<Rightarrow> ipv6_range" where
  "ipv6_single addr = \<lparr>start_addr6 = addr, end_addr6 = addr, zone6 = None\<rparr>"

definition ipv6_extend_end_to :: "ipv6_range \<Rightarrow> ipv6_addr \<Rightarrow> ipv6_range" where
  "ipv6_extend_end_to r stop = (if stop > end_addr6 r then r\<lparr>end_addr6 := stop\<rparr> else r)"

definition LINK_LOCAL_FIRST :: u128 where
  "LINK_LOCAL_FIRST = push_bit 112 0xfe80"

definition LINK_LOCAL_LAST :: u128 where
  "LINK_LOCAL_LAST = push_bit 112 0xfebf OR (push_bit 112 1 - 1)"

definition covers_link_local :: "ipv6_range \<Rightarrow> bool" where
  "covers_link_local r \<longleftrightarrow> start_addr6 r \<le> LINK_LOCAL_LAST \<and> end_addr6 r \<ge> LINK_LOCAL_FIRST"

definition is_ambiguous :: "ipv6_range \<Rightarrow> bool" where
  "is_ambiguous r \<longleftrightarrow> zone6 r = None \<and> covers_link_local r"

definition is_link_local :: "ipv6_range \<Rightarrow> bool" where
  "is_link_local r \<longleftrightarrow> start_addr6 r \<ge> LINK_LOCAL_FIRST \<and> end_addr6 r \<le> LINK_LOCAL_LAST"

text \<open>\<open>Ipv6Addr::to_ipv4_mapped\<close>: the last 32 bits of an address of \<open>::ffff:0:0/96\<close>.\<close>

definition to_ipv4_mapped :: "ipv6_addr \<Rightarrow> ipv4_addr option" where
  "to_ipv4_mapped a = (if drop_bit 32 a = 0xffff then Some (ucast a) else None)"

definition spelled_ipv4 :: "ipv6_range \<Rightarrow> ipv4_range option" where
  "spelled_ipv4 r =
     (case to_ipv4_mapped (start_addr6 r) of
        None \<Rightarrow> None
      | Some start \<Rightarrow>
          (case to_ipv4_mapped (end_addr6 r) of
             None \<Rightarrow> None
           | Some stop \<Rightarrow> (case ipv4_new start stop of Inr r4 \<Rightarrow> Some r4 | Inl _ \<Rightarrow> None)))"

definition ipv6_iter :: "ipv6_range \<Rightarrow> ip_addr list" where
  "ipv6_iter r = map V6 (range_inclusive (start_addr6 r) (end_addr6 r))"

definition ipv6_contains :: "ipv6_range \<Rightarrow> ipv6_addr \<Rightarrow> bool" where
  "ipv6_contains r ip \<longleftrightarrow> start_addr6 r \<le> ip \<and> ip \<le> end_addr6 r"

definition ipv6_overlaps :: "ipv6_range \<Rightarrow> ipv6_range \<Rightarrow> bool" where
  "ipv6_overlaps r other \<longleftrightarrow> start_addr6 r \<le> end_addr6 other \<and> start_addr6 other \<le> end_addr6 r"

definition ipv6_len :: "ipv6_range \<Rightarrow> u128" where
  "ipv6_len r = saturating_add (end_addr6 r - start_addr6 r) 1"

section \<open>Either family\<close>

datatype ip_range = RangeV4 ipv4_range | RangeV6 ipv6_range

fun range_iter :: "ip_range \<Rightarrow> ip_addr list" where
  "range_iter (RangeV4 r) = ipv4_iter r"
| "range_iter (RangeV6 r) = ipv6_iter r"

fun range_start_addr :: "ip_range \<Rightarrow> ip_addr" where
  "range_start_addr (RangeV4 r) = V4 (start_addr4 r)"
| "range_start_addr (RangeV6 r) = V6 (start_addr6 r)"

fun range_end_addr :: "ip_range \<Rightarrow> ip_addr" where
  "range_end_addr (RangeV4 r) = V4 (end_addr4 r)"
| "range_end_addr (RangeV6 r) = V6 (end_addr6 r)"

fun range_contains :: "ip_range \<Rightarrow> ip_addr \<Rightarrow> bool" where
  "range_contains (RangeV4 r) (V4 ip) = ipv4_contains r ip"
| "range_contains (RangeV6 r) (V6 ip) = ipv6_contains r ip"
| "range_contains _ _ = False"

fun range_len :: "ip_range \<Rightarrow> u128" where
  "range_len (RangeV4 r) = ucast (ipv4_len r)"
| "range_len (RangeV6 r) = ipv6_len r"

text \<open>
  \<open>cidr_range\<close>.  \<open>None\<close> is the \<open>unreachable!\<close> of the source.
\<close>

definition cidr_mask :: "u8 \<Rightarrow> 'a::len word" where
  "cidr_mask prefix =
     NOT (case checked_shr (- 1 :: 'a word) (unat prefix) of Some m \<Rightarrow> m | None \<Rightarrow> 0)"

fun cidr_range :: "ip_addr \<Rightarrow> u8 \<Rightarrow> (ip_error + ip_range) option" where
  "cidr_range (V4 ip) prefix =
     (if prefix > 32 then Some (Inl (InvalidPrefix prefix))
      else let mask = cidr_mask prefix; network = ip AND mask; broadcast = ip OR NOT mask
           in case ipv4_new network broadcast of
                Inr r \<Rightarrow> Some (Inr (RangeV4 r)) | Inl _ \<Rightarrow> None)"
| "cidr_range (V6 ip) prefix =
     (if prefix > 128 then Some (Inl (InvalidPrefix prefix))
      else let mask = cidr_mask prefix; network = ip AND mask; broadcast = ip OR NOT mask
           in case ipv6_new network broadcast of
                Inr r \<Rightarrow> Some (Inr (RangeV6 r)) | Inl _ \<Rightarrow> None)"

section \<open>Well-formed ranges\<close>

text \<open>What \<open>new\<close> and \<open>scoped\<close> guarantee of every range the engine holds.\<close>

definition ok4 :: "ipv4_range \<Rightarrow> bool" where
  "ok4 r \<longleftrightarrow> start_addr4 r \<le> end_addr4 r"

definition ok6 :: "ipv6_range \<Rightarrow> bool" where
  "ok6 r \<longleftrightarrow> start_addr6 r \<le> end_addr6 r \<and> zone6 r \<noteq> Some 0"

fun range_ok :: "ip_range \<Rightarrow> bool" where
  "range_ok (RangeV4 r) = ok4 r"
| "range_ok (RangeV6 r) = ok6 r"

lemma ipv4_new_Inr: "ipv4_new a b = Inr r \<longleftrightarrow> a \<le> b \<and> r = \<lparr>start_addr4 = a, end_addr4 = b\<rparr>"
  by (auto simp: ipv4_new_def)

lemma ipv6_scoped_Inr:
  "ipv6_scoped a b z = Inr r \<longleftrightarrow>
     a \<le> b \<and> r = \<lparr>start_addr6 = a, end_addr6 = b, zone6 = (if z = Some 0 then None else z)\<rparr>"
  by (cases z) (auto simp: ipv6_scoped_def)

lemma new_ok:
  "ipv4_new a b = Inr r4 \<Longrightarrow> ok4 r4"
  "ipv6_scoped a' b' z = Inr r6 \<Longrightarrow> ok6 r6"
  "ok4 (ipv4_single x4)"
  "ok6 (ipv6_single x6)"
  by (auto simp: ipv4_new_Inr ipv6_scoped_Inr ok4_def ok6_def ipv4_single_def ipv6_single_def)

lemma unat_ipv4_len:
  assumes "ok4 r"
  shows "unat (ipv4_len r) = Suc (unat (end_addr4 r)) - unat (start_addr4 r)"
proof -
  have le: "unat (start_addr4 r) \<le> unat (end_addr4 r)" using assms by (simp add: ok4_def word_le_nat_alt)
  have ge: "(ucast (start_addr4 r) :: u64) \<le> ucast (end_addr4 r)"
    using le by (simp add: word_le_nat_alt)
  have diff: "unat (ucast (end_addr4 r) - ucast (start_addr4 r) :: u64)
      = unat (end_addr4 r) - unat (start_addr4 r)"
    using ge by (simp add: unat_sub)
  have "unat (ucast (end_addr4 r) - ucast (start_addr4 r) :: u64) + unat (1 :: u64) < 2 ^ LENGTH(64)"
    using unat_bounds(2) [of "end_addr4 r"] unfolding diff by simp
  from unat_add_lt [OF this] show ?thesis
    unfolding ipv4_len_def diff using le by simp
qed

lemma unat_ipv6_len:
  assumes "ok6 r"
  shows "unat (ipv6_len r) = min (Suc (unat (end_addr6 r)) - unat (start_addr6 r)) (2 ^ 128 - 1)"
proof -
  have "start_addr6 r \<le> end_addr6 r" using assms by (simp add: ok6_def)
  then have "unat (end_addr6 r - start_addr6 r) = unat (end_addr6 r) - unat (start_addr6 r)"
    "unat (start_addr6 r) \<le> unat (end_addr6 r)"
    by (simp_all add: unat_sub word_le_nat_alt)
  then show ?thesis by (simp add: ipv6_len_def unat_saturating_add Suc_diff_le)
qed

section \<open>CIDR blocks\<close>

lemma not_cidr_mask:
  assumes "unat prefix \<le> LENGTH('a)"
  shows "NOT (cidr_mask prefix :: 'a::len word) = mask (LENGTH('a) - unat prefix)"
proof -
  have "drop_bit n (- 1 :: 'a word) = mask (LENGTH('a) - n)" if "n < LENGTH('a)" for n
    using that by (intro bit_word_eqI) (auto simp: bit_simps)
  then show ?thesis using assms by (auto simp: cidr_mask_def checked_shr_def)
qed

lemma unat_drop_bit: "unat (drop_bit k x) = unat x div 2 ^ k"
  by (simp add: unsigned_drop_bit_eq take_bit_nat_eq_self flip: drop_bit_eq_div)

lemma unat_mask_le: "k \<le> LENGTH('a) \<Longrightarrow> unat (mask k :: 'a::len word) = 2 ^ k - 1"
  unfolding mask_eq_exp_minus_1 [symmetric] take_bit_minus_one_eq_mask [of k, symmetric]
  by (simp only: unsigned_take_bit_eq unsigned_minus_1_eq_mask take_bit_of_mask min_def if_True)

lemma unat_network: "unat (ip AND NOT (mask k) :: 'a::len word) = unat ip div 2 ^ k * 2 ^ k"
proof -
  have "ip AND NOT (mask k) = push_bit k (drop_bit k ip)"
    by (intro bit_word_eqI) (auto simp: bit_simps)
  moreover have "unat (push_bit k (drop_bit k ip)) = unat ip div 2 ^ k * 2 ^ k"
  proof -
    have "unat ip div 2 ^ k * 2 ^ k \<le> unat ip" by simp
    then have "unat ip div 2 ^ k * 2 ^ k < 2 ^ LENGTH('a)"
      using unat_lt_size [of ip] by (rule le_less_trans)
    then show ?thesis
      unfolding unsigned_push_bit_eq unat_drop_bit
      by (simp add: take_bit_eq_mod push_bit_eq_mult)
  qed
  ultimately show ?thesis by simp
qed

lemma unat_broadcast:
  assumes "k \<le> LENGTH('a)"
  shows "unat (ip OR mask k :: 'a::len word) = unat ip div 2 ^ k * 2 ^ k + (2 ^ k - 1)"
proof -
  have "ip OR mask k = (ip AND NOT (mask k)) OR mask k"
    by (intro bit_word_eqI) (auto simp: bit_simps)
  also have "\<dots> = (ip AND NOT (mask k)) + mask k"
    by (rule disjunctive_add [symmetric]) (auto simp: bit_simps)
  finally have eq: "ip OR mask k = (ip AND NOT (mask k)) + mask k" .
  note m = unat_mask_le [OF assms]
  have "unat ip div 2 ^ k * 2 ^ k + 2 ^ k \<le> 2 ^ LENGTH('a)"
  proof -
    have "unat ip div 2 ^ k < 2 ^ (LENGTH('a) - k)"
      using assms unat_lt_size [of ip] by (simp add: less_mult_imp_div_less flip: power_add)
    then have "Suc (unat ip div 2 ^ k) * 2 ^ k \<le> 2 ^ (LENGTH('a) - k) * 2 ^ k"
      by (intro mult_right_mono) auto
    then show ?thesis using assms by (simp flip: power_add)
  qed
  moreover have "(2 ^ k :: nat) > 0" by simp
  ultimately have "unat (ip AND NOT (mask k)) + unat (mask k :: 'a word) < 2 ^ LENGTH('a)"
    unfolding unat_network m by linarith
  then show ?thesis unfolding eq by (simp add: unat_add_lt unat_network m)
qed

lemma nat_div_eq_iff:
  assumes "0 < m"
  shows "x div m = q \<longleftrightarrow> q * m \<le> x \<and> x \<le> q * m + (m - 1 :: nat)"
proof
  assume "x div m = q"
  then have "x = q * m + x mod m" by auto
  moreover have "x mod m < m" using assms by simp
  ultimately show "q * m \<le> x \<and> x \<le> q * m + (m - 1)" by linarith
next
  assume "q * m \<le> x \<and> x \<le> q * m + (m - 1)"
  then show "x div m = q" using assms by (auto intro!: div_nat_eqI simp: mult.commute)
qed

text \<open>An address lies in a block exactly when it agrees with it on the prefix.\<close>

lemma in_block_iff:
  assumes "k \<le> LENGTH('a)"
  shows "(ip AND NOT (mask k) \<le> a \<and> a \<le> ip OR mask k) \<longleftrightarrow> drop_bit k a = drop_bit k (ip :: 'a::len word)"
proof -
  have "drop_bit k a = drop_bit k ip \<longleftrightarrow> unat a div 2 ^ k = unat ip div 2 ^ k"
    by (simp only: word_unat_eq_iff unat_drop_bit)
  also have "\<dots> \<longleftrightarrow> unat ip div 2 ^ k * 2 ^ k \<le> unat a \<and> unat a \<le> unat ip div 2 ^ k * 2 ^ k + (2 ^ k - 1)"
    by (rule nat_div_eq_iff) simp
  finally show ?thesis by (simp add: word_le_nat_alt unat_network unat_broadcast [OF assms])
qed

lemma block_len:
  assumes "k \<le> LENGTH('a)"
  shows "Suc (unat (ip OR mask k :: 'a::len word)) - unat (ip AND NOT (mask k)) = 2 ^ k"
  by (simp add: unat_network unat_broadcast [OF assms])

text \<open>The block a prefix names: the width of an address, and agreement on its first bits.\<close>

fun addr_width :: "ip_addr \<Rightarrow> nat" where
  "addr_width (V4 _) = 32"
| "addr_width (V6 _) = 128"

fun same_prefix :: "nat \<Rightarrow> ip_addr \<Rightarrow> ip_addr \<Rightarrow> bool" where
  "same_prefix p (V4 a) (V4 b) \<longleftrightarrow> drop_bit (32 - p) a = drop_bit (32 - p) b"
| "same_prefix p (V6 a) (V6 b) \<longleftrightarrow> drop_bit (128 - p) a = drop_bit (128 - p) b"
| "same_prefix p _ _ \<longleftrightarrow> False"

lemma cidr_range_v4:
  assumes "unat prefix \<le> 32"
  defines "k \<equiv> 32 - unat prefix"
  shows "cidr_range (V4 ip) prefix =
    Some (Inr (RangeV4 \<lparr>start_addr4 = ip AND NOT (mask k), end_addr4 = ip OR mask k\<rparr>))"
    and "ip AND NOT (mask k) \<le> ip OR mask k"
proof -
  have m: "NOT (cidr_mask prefix :: u32) = mask k" using not_cidr_mask [where 'a = 32] assms by simp
  then have m': "(cidr_mask prefix :: u32) = NOT (mask k)" by (metis bit.double_compl)
  show le: "ip AND NOT (mask k) \<le> ip OR mask k"
    using in_block_iff [where 'a = 32, of k ip ip] by (simp add: k_def) (meson order_trans)
  have "\<not> prefix > 32" using assms(1) by (simp add: word_less_nat_alt)
  then show "cidr_range (V4 ip) prefix =
    Some (Inr (RangeV4 \<lparr>start_addr4 = ip AND NOT (mask k), end_addr4 = ip OR mask k\<rparr>))"
    using le by (simp add: Let_def m m' ipv4_new_def)
qed

lemma cidr_range_v6:
  assumes "unat prefix \<le> 128"
  defines "k \<equiv> 128 - unat prefix"
  shows "cidr_range (V6 ip) prefix =
    Some (Inr (RangeV6 \<lparr>start_addr6 = ip AND NOT (mask k), end_addr6 = ip OR mask k, zone6 = None\<rparr>))"
    and "ip AND NOT (mask k) \<le> ip OR mask k"
proof -
  have m: "NOT (cidr_mask prefix :: u128) = mask k" using not_cidr_mask [where 'a = 128] assms by simp
  then have m': "(cidr_mask prefix :: u128) = NOT (mask k)" by (metis bit.double_compl)
  show le: "ip AND NOT (mask k) \<le> ip OR mask k"
    using in_block_iff [where 'a = 128, of k ip ip] by (simp add: k_def) (meson order_trans)
  have "\<not> prefix > 128" using assms(1) by (simp add: word_less_nat_alt)
  then show "cidr_range (V6 ip) prefix =
    Some (Inr (RangeV6 \<lparr>start_addr6 = ip AND NOT (mask k), end_addr6 = ip OR mask k, zone6 = None\<rparr>))"
    using le by (simp add: Let_def m m' ipv6_new_def ipv6_scoped_def)
qed

text \<open>
  A CIDR block never panics; a prefix longer than the family allows is refused by name, and
  any other yields a well-formed range that holds exactly the addresses agreeing with the given
  one on its first \<open>prefix\<close> bits, counted as \<open>2 ^ (width - prefix)\<close> with the whole of IPv6
  saturating at \<open>u128::MAX\<close>.
\<close>

theorem cidr_range_correct:
  "if unat prefix \<le> addr_width ip
   then \<exists>r. cidr_range ip prefix = Some (Inr r) \<and> range_ok r
     \<and> (\<forall>a. range_contains r a = same_prefix (unat prefix) ip a)
     \<and> unat (range_len r) = min (2 ^ (addr_width ip - unat prefix)) (2 ^ 128 - 1)
   else cidr_range ip prefix = Some (Inl (InvalidPrefix prefix))"
proof (cases ip)
  case (V4 v)
  show ?thesis
  proof (cases "unat prefix \<le> 32")
    case True
    let ?k = "32 - unat prefix"
    let ?r = "\<lparr>start_addr4 = v AND NOT (mask ?k), end_addr4 = v OR mask ?k\<rparr>"
    have ok: "ok4 ?r" using cidr_range_v4(2) [OF True] by (simp add: ok4_def)
    have "range_contains (RangeV4 ?r) a = same_prefix (unat prefix) (V4 v) a" for a
      using in_block_iff [where 'a = 32, of ?k v] by (cases a) (simp_all add: ipv4_contains_def eq_commute)
    moreover have "unat (ipv4_len ?r) = 2 ^ ?k"
      unfolding unat_ipv4_len [OF ok] using block_len [where 'a = 32, of ?k v] by simp
    moreover have "(2 :: nat) ^ ?k \<le> 2 ^ 128 - 1"
      using power_increasing [of ?k 32 "2 :: nat"] by simp
    ultimately have "range_ok (RangeV4 ?r)
        \<and> (\<forall>a. range_contains (RangeV4 ?r) a = same_prefix (unat prefix) (V4 v) a)
        \<and> unat (range_len (RangeV4 ?r)) = min (2 ^ ?k) (2 ^ 128 - 1)"
      using ok by (simp only: range_ok.simps range_len.simps unat_ucast_widen min_def if_True simp_thms)
    then show ?thesis unfolding V4 addr_width.simps if_P [OF True] using cidr_range_v4(1) [OF True, of v] by blast
  next
    case False
    then show ?thesis using V4 by (simp add: word_less_nat_alt)
  qed
next
  case (V6 v)
  show ?thesis
  proof (cases "unat prefix \<le> 128")
    case True
    let ?k = "128 - unat prefix"
    let ?r = "\<lparr>start_addr6 = v AND NOT (mask ?k), end_addr6 = v OR mask ?k, zone6 = None\<rparr>"
    have ok: "ok6 ?r" using cidr_range_v6(2) [OF True] by (simp add: ok6_def)
    have "range_contains (RangeV6 ?r) a = same_prefix (unat prefix) (V6 v) a" for a
      using in_block_iff [where 'a = 128, of ?k v] by (cases a) (simp_all add: ipv6_contains_def eq_commute)
    moreover have "unat (ipv6_len ?r) = min (2 ^ ?k) (2 ^ 128 - 1)"
      unfolding unat_ipv6_len [OF ok] using block_len [where 'a = 128, of ?k v] by simp
    ultimately have "range_ok (RangeV6 ?r)
        \<and> (\<forall>a. range_contains (RangeV6 ?r) a = same_prefix (unat prefix) (V6 v) a)
        \<and> unat (range_len (RangeV6 ?r)) = min (2 ^ ?k) (2 ^ 128 - 1)"
      using ok by (simp only: range_ok.simps range_len.simps simp_thms)
    then show ?thesis unfolding V6 addr_width.simps if_P [OF True] using cidr_range_v6(1) [OF True, of v] by blast
  next
    case False
    then show ?thesis using V6 by (simp add: word_less_nat_alt)
  qed
qed

end
