(* ===== verification/Ip_Set.thy ===== *)
theory Ip_Set
  imports Ip_Range
begin

text \<open>
  IP address sets, as in \<open>src/src/model/ip/set.rs\<close>: insertion appends and marks the family
  dirty, \<open>canonicalize\<close> sorts and merges, and every query answers in either state.  A set is
  specified by the addresses it holds, each with the interface it is valid on
  (\<open>scoped_addrs\<close>), and bare (\<open>addrs\<close>).
\<close>

record ip_set =
  v4 :: "ipv4_range list"
  v6 :: "ipv6_range list"
  v4_dirty :: bool
  v6_dirty :: bool

section \<open>Building a set\<close>

definition ip_set_new :: ip_set where
  "ip_set_new = \<lparr>v4 = [], v6 = [], v4_dirty = False, v6_dirty = False\<rparr>"

definition push_v4_range :: "ip_set \<Rightarrow> ipv4_range \<Rightarrow> ip_set" where
  "push_v4_range s r = s\<lparr>v4 := v4 s @ [r], v4_dirty := True\<rparr>"

definition push_v6_range :: "ip_set \<Rightarrow> ipv6_range \<Rightarrow> ip_set" where
  "push_v6_range s r = s\<lparr>v6 := v6 s @ [r], v6_dirty := True\<rparr>"

fun insert_addr :: "ip_set \<Rightarrow> ip_addr \<Rightarrow> ip_set" where
  "insert_addr s (V4 a) = push_v4_range s (ipv4_single a)"
| "insert_addr s (V6 a) = push_v6_range s (ipv6_single a)"

fun insert_range :: "ip_set \<Rightarrow> ip_range \<Rightarrow> ip_set" where
  "insert_range s (RangeV4 r) = push_v4_range s r"
| "insert_range s (RangeV6 r) = push_v6_range s r"

section \<open>Merging\<close>

text \<open>
  Both merges run \<open>merge_loop\<close> over the sorted ranges.  Their first statement indexes the
  vector, and their one caller checks that it is not empty.
\<close>

definition joins4 :: "ipv4_range \<Rightarrow> ipv4_range \<Rightarrow> bool" where
  "joins4 current following \<longleftrightarrow> start_addr4 following \<le> saturating_add (end_addr4 current) 1"

definition grow4 :: "ipv4_range \<Rightarrow> ipv4_range \<Rightarrow> ipv4_range" where
  "grow4 current following = ipv4_extend_end_to current (end_addr4 following)"

definition merge_v4 :: "ip_set \<Rightarrow> ip_set" where
  "merge_v4 s =
     (case sort_key start_addr4 (v4 s) of
        [] \<Rightarrow> s
      | current # rest \<Rightarrow> s\<lparr>v4 := merge_loop joins4 grow4 current rest\<rparr>)"

definition joins6 :: "ipv6_range \<Rightarrow> ipv6_range \<Rightarrow> bool" where
  "joins6 current following \<longleftrightarrow>
     zone6 following = zone6 current \<and> start_addr6 following \<le> saturating_add (end_addr6 current) 1"

definition grow6 :: "ipv6_range \<Rightarrow> ipv6_range \<Rightarrow> ipv6_range" where
  "grow6 current following = ipv6_extend_end_to current (end_addr6 following)"

definition merge_v6 :: "ip_set \<Rightarrow> ip_set" where
  "merge_v6 s =
     (case sort_key (\<lambda>r. (zone6 r, start_addr6 r)) (v6 s) of
        [] \<Rightarrow> s
      | current # rest \<Rightarrow> s\<lparr>v6 := merge_loop joins6 grow6 current rest\<rparr>)"

definition canonicalize_v4 :: "ip_set \<Rightarrow> ip_set" where
  "canonicalize_v4 s =
     (if v4_dirty s then (if v4 s \<noteq> [] then merge_v4 s else s)\<lparr>v4_dirty := False\<rparr> else s)"

definition canonicalize_v6 :: "ip_set \<Rightarrow> ip_set" where
  "canonicalize_v6 s =
     (if v6_dirty s then (if v6 s \<noteq> [] then merge_v6 s else s)\<lparr>v6_dirty := False\<rparr> else s)"

definition canonicalize :: "ip_set \<Rightarrow> ip_set" where
  "canonicalize s = canonicalize_v6 (canonicalize_v4 s)"

section \<open>Set arithmetic\<close>

definition v4_bounds :: "ipv4_range \<Rightarrow> u128 \<times> u128" where
  "v4_bounds r = (ucast (start_addr4 r), ucast (end_addr4 r))"

definition v6_bounds :: "ipv6_range \<Rightarrow> u128 \<times> u128" where
  "v6_bounds r = (start_addr6 r, end_addr6 r)"

text \<open>
  \<open>merged_intervals\<close>: the loop over the sorted cuts looks at the last interval it emitted.
\<close>

fun coalesce :: "(u128 \<times> u128) list \<Rightarrow> (u128 \<times> u128) list \<Rightarrow> (u128 \<times> u128) list" where
  "coalesce merged [] = merged"
| "coalesce merged ((start, stop) # cuts) =
     (if merged \<noteq> [] \<and> start \<le> saturating_add (snd (last merged)) 1
      then coalesce (butlast merged @ [(fst (last merged), max (snd (last merged)) stop)]) cuts
      else coalesce (merged @ [(start, stop)]) cuts)"

definition merged_intervals :: "(u128 \<times> u128) list \<Rightarrow> (u128 \<times> u128) list" where
  "merged_intervals intervals = coalesce [] (sort intervals)"

text \<open>
  \<open>subtract_run\<close>.  The index \<open>first_live\<close> into the cuts is the suffix of the cuts from there
  on.  \<open>cut_range\<close> is the inner loop: the bounds of the pieces of one range that survive, the
  last of them pushed after the loop unless a cut consumed the tail.  \<open>rebuild\<close> panics
  (\<open>None\<close>) where a piece has its ends inverted.
\<close>

fun cut_range :: "u128 \<Rightarrow> u128 \<Rightarrow> (u128 \<times> u128) list \<Rightarrow> (u128 \<times> u128) list" where
  "cut_range cursor stop [] = [(cursor, stop)]"
| "cut_range cursor stop ((cut_start, cut_end) # cuts) =
     (if cut_start \<le> stop
      then (if cut_start > cursor then [(cursor, cut_start - 1)] else [])
        @ (if cut_end \<ge> stop then [] else cut_range (cut_end + 1) stop cuts)
      else [(cursor, stop)])"

fun subtract_run ::
  "('r \<Rightarrow> u128 \<times> u128) \<Rightarrow> ('r \<Rightarrow> u128 \<Rightarrow> u128 \<Rightarrow> 'r option) \<Rightarrow> 'r list \<Rightarrow> (u128 \<times> u128) list
    \<Rightarrow> 'r list option" where
  "subtract_run bounds rebuild [] live = Some []"
| "subtract_run bounds rebuild (r # run) live =
     (let start = fst (bounds r); stop = snd (bounds r);
          live' = dropWhile (\<lambda>c. snd c < start) live
      in case those (map (\<lambda>p. rebuild r (fst p) (snd p)) (cut_range start stop live')) of
           None \<Rightarrow> None
         | Some kept \<Rightarrow>
             (case subtract_run bounds rebuild run live' of
                None \<Rightarrow> None | Some rest \<Rightarrow> Some (kept @ rest)))"

definition rebuild4 :: "ipv4_range \<Rightarrow> u128 \<Rightarrow> u128 \<Rightarrow> ipv4_range option" where
  "rebuild4 _ start stop =
     (case ipv4_new (ucast start) (ucast stop) of Inr r \<Rightarrow> Some r | Inl _ \<Rightarrow> None)"

definition rebuild6 :: "ipv6_range \<Rightarrow> u128 \<Rightarrow> u128 \<Rightarrow> ipv6_range option" where
  "rebuild6 r start stop =
     (case ipv6_scoped start stop (zone6 r) of Inr r' \<Rightarrow> Some r' | Inl _ \<Rightarrow> None)"

text \<open>\<open>v6_runs\<close>: one slice per interface, cut off the front at the partition point of its zone.\<close>

lemma partition_point_pos: "p x \<Longrightarrow> 0 < partition_point p (x # xs)"
  by (auto simp: partition_point_def binary_search_by_def Let_def gr0_conv_Suc nth_Cons
      split: ordering.splits if_splits nat.splits)

function v6_runs :: "ipv6_range list \<Rightarrow> ipv6_range list list" where
  "v6_runs [] = []"
| "v6_runs (r # rest) =
     (let n = partition_point (\<lambda>x. zone6 x = zone6 r) (r # rest)
      in take n (r # rest) # v6_runs (drop n (r # rest)))"
  by pat_completeness auto
termination
proof (relation "measure length")
  fix r rest and n :: nat
  assume "n = partition_point (\<lambda>x. zone6 x = zone6 r) (r # rest)"
  then have "0 < n" using partition_point_pos by metis
  then show "(drop n (r # rest), r # rest) \<in> measure length" by simp
qed simp

declare v6_runs.simps(2) [simp del]

definition is_empty :: "ip_set \<Rightarrow> bool" where
  "is_empty s \<longleftrightarrow> v4 s = [] \<and> v6 s = []"

definition subtract_v4 :: "ip_set \<Rightarrow> ip_set \<Rightarrow> ip_set option" where
  "subtract_v4 s other =
     (let cuts = merged_intervals (map v4_bounds (v4 other))
      in if v4 s \<noteq> [] \<and> cuts \<noteq> []
         then (case subtract_run v4_bounds rebuild4 (v4 s) cuts of
                 None \<Rightarrow> None | Some kept \<Rightarrow> Some (s\<lparr>v4 := kept\<rparr>))
         else Some s)"

definition subtract_v6 :: "ip_set \<Rightarrow> ip_set \<Rightarrow> ip_set option" where
  "subtract_v6 s other =
     (let cuts = merged_intervals (map v6_bounds (v6 other))
      in if v6 s \<noteq> [] \<and> cuts \<noteq> []
         then (case those (map (\<lambda>run. subtract_run v6_bounds rebuild6 run cuts) (v6_runs (v6 s))) of
                 None \<Rightarrow> None | Some kept \<Rightarrow> Some (s\<lparr>v6 := concat kept\<rparr>))
         else Some s)"

definition subtract :: "ip_set \<Rightarrow> ip_set \<Rightarrow> ip_set option" where
  "subtract s other =
     (if is_empty other \<or> is_empty s then Some s
      else (case subtract_v4 (canonicalize s) other of
              None \<Rightarrow> None | Some s' \<Rightarrow> subtract_v6 s' other))"

section \<open>Queries\<close>

definition holds :: "('r \<Rightarrow> u128 \<times> u128) \<Rightarrow> 'r list \<Rightarrow> u128 \<Rightarrow> bool" where
  "holds bounds ranges target \<longleftrightarrow>
     (case binary_search_by
             (\<lambda>r. if target < fst (bounds r) then Greater
                  else if target > snd (bounds r) then Less else Equal) ranges of
        Inr _ \<Rightarrow> True | Inl _ \<Rightarrow> False)"

fun is_merged :: "ip_set \<Rightarrow> ip_addr \<Rightarrow> bool" where
  "is_merged s (V4 _) = (\<not> v4_dirty s)"
| "is_merged s (V6 _) = (\<not> v6_dirty s)"

fun contains_canonical :: "ip_set \<Rightarrow> ip_addr \<Rightarrow> bool" where
  "contains_canonical s (V4 a) = holds v4_bounds (v4 s) (ucast a)"
| "contains_canonical s (V6 a) = list_ex (\<lambda>run. holds v6_bounds run a) (v6_runs (v6 s))"

definition contains :: "ip_set \<Rightarrow> ip_addr \<Rightarrow> bool" where
  "contains s ip =
     (if is_merged s ip then contains_canonical s ip
      else case ip of
             V4 a \<Rightarrow> list_ex (\<lambda>r. ipv4_contains r a) (v4 s)
           | V6 a \<Rightarrow> list_ex (\<lambda>r. ipv6_contains r a) (v6 s))"

definition v4_len :: "ip_set \<Rightarrow> u128" where
  "v4_len s = foldl (\<lambda>total r. saturating_add total (ucast (ipv4_len r))) 0 (v4 s)"

definition v6_len :: "ip_set \<Rightarrow> u128" where
  "v6_len s = foldl (\<lambda>total r. saturating_add total (ipv6_len r)) 0 (v6 s)"

definition len_canonical :: "ip_set \<Rightarrow> u128" where
  "len_canonical s = saturating_add (v4_len s) (v6_len s)"

definition set_len :: "ip_set \<Rightarrow> u128" where
  "set_len s =
     (if \<not> v4_dirty s \<and> \<not> v6_dirty s then len_canonical s else len_canonical (canonicalize s))"

definition len_gross :: "ip_set \<Rightarrow> u128" where
  "len_gross s = saturating_add (v4_len s) (v6_len s)"

definition into_iter :: "ip_set \<Rightarrow> ip_addr list" where
  "into_iter s =
     (let s' = canonicalize s in concat (map ipv4_iter (v4 s')) @ concat (map ipv6_iter (v6 s')))"

definition set_iter :: "ip_set \<Rightarrow> ip_addr list" where
  "set_iter s =
     (if v4_dirty s \<or> v6_dirty s then into_iter (canonicalize s)
      else concat (map ipv4_iter (v4 s)) @ concat (map ipv6_iter (v6 s)))"

definition iter_scoped :: "ip_set \<Rightarrow> (ip_addr \<times> u32 option) list" where
  "iter_scoped s =
     (let merged = (if v4_dirty s \<or> v6_dirty s then canonicalize s else s)
      in concat (map (\<lambda>r. map (\<lambda>ip. (V4 ip, None)) (range_inclusive (start_addr4 r) (end_addr4 r)))
           (v4 merged))
       @ concat (map (\<lambda>r. map (\<lambda>ip. (V6 ip, zone6 r)) (range_inclusive (start_addr6 r) (end_addr6 r)))
           (v6 merged)))"

definition eq_merged :: "ip_set \<Rightarrow> ip_set" where
  "eq_merged s = (if v4_dirty s \<or> v6_dirty s then canonicalize s else s)"

definition ip_set_eq :: "ip_set \<Rightarrow> ip_set \<Rightarrow> bool" where
  "ip_set_eq s t \<longleftrightarrow> v4 (eq_merged s) = v4 (eq_merged t) \<and> v6 (eq_merged s) = v6 (eq_merged t)"

section \<open>Conversions\<close>

definition extend_set :: "ip_set \<Rightarrow> ip_addr list \<Rightarrow> ip_set" where
  "extend_set s ips = foldl insert_addr s ips"

definition from_addrs :: "ip_addr list \<Rightarrow> ip_set" where
  "from_addrs ips = canonicalize (extend_set ip_set_new ips)"

definition from_ranges :: "ip_range list \<Rightarrow> ip_set" where
  "from_ranges ranges = canonicalize (foldl insert_range ip_set_new ranges)"

definition absorb :: "ip_set \<Rightarrow> ip_set \<Rightarrow> ip_set" where
  "absorb master s =
     (let m1 = (if v4 s \<noteq> [] then master\<lparr>v4 := v4 master @ v4 s, v4_dirty := True\<rparr> else master)
      in if v6 s \<noteq> [] then m1\<lparr>v6 := v6 m1 @ v6 s, v6_dirty := True\<rparr> else m1)"

definition from_sets :: "ip_set list \<Rightarrow> ip_set" where
  "from_sets sets = canonicalize (foldl absorb ip_set_new sets)"

definition from_addr :: "ip_addr \<Rightarrow> ip_set" where
  "from_addr ip = insert_addr ip_set_new ip"

definition from_range :: "ip_range \<Rightarrow> ip_set" where
  "from_range r = insert_range ip_set_new r"

end
