(* ===== verification/Positions.thy ===== *)
theory Positions
  imports Ip_Set
begin

text \<open>
  Where each of a set's addresses falls in its enumeration: \<open>Positions\<close> of
  \<open>src/src/model/ip/set.rs\<close>.  A position is a \<open>u64\<close>; ranges are numbered in enumeration order
  until one does not fit, and the rest is kept unnumbered.
\<close>

record run =
  run_from :: nat
  run_to :: nat
  run_v6 :: bool

record span =
  span_range :: ip_range
  span_start :: u64
  span_len :: u64

record positions =
  spans :: "span list"
  runs :: "run list"
  total :: u64
  unnumbered :: "ip_range list"

section \<open>Numbering\<close>

text \<open>The state of the loop in \<open>of_canonical\<close>: the positions so far and the group of the last range.\<close>

record numbering = positions +
  group :: "(bool \<times> u32 option) option"

definition try_u64 :: "u128 \<Rightarrow> u64 option" where
  "try_u64 x = (if x \<le> 0xffffffffffffffff then Some (ucast x) else None)"

fun group_of :: "ip_range \<Rightarrow> bool \<times> u32 option" where
  "group_of (RangeV4 _) = (False, None)"
| "group_of (RangeV6 r) = (True, zone6 r)"

definition place_run :: "run list \<Rightarrow> nat \<Rightarrow> bool \<Rightarrow> bool \<Rightarrow> run list" where
  "place_run rs n same is_v6 =
     (if rs \<noteq> [] \<and> same then butlast rs @ [(last rs)\<lparr>run_to := n + 1\<rparr>]
      else rs @ [\<lparr>run_from = n, run_to = n + 1, run_v6 = is_v6\<rparr>])"

definition number_range :: "numbering \<Rightarrow> ip_range \<Rightarrow> numbering" where
  "number_range st r =
     (if unnumbered st \<noteq> [] then st\<lparr>unnumbered := unnumbered st @ [r]\<rparr>
      else case try_u64 (range_len r) of
             None \<Rightarrow> st\<lparr>unnumbered := unnumbered st @ [r]\<rparr>
           | Some len \<Rightarrow>
               (case checked_add (total st) len of
                  None \<Rightarrow> st\<lparr>unnumbered := unnumbered st @ [r]\<rparr>
                | Some next_total \<Rightarrow>
                    (let here = group_of r
                     in st\<lparr>runs := place_run (runs st) (length (spans st)) (group st = Some here) (fst here),
                           group := Some here,
                           spans := spans st @ [\<lparr>span_range = r, span_start = total st, span_len = len\<rparr>],
                           total := next_total\<rparr>)))"

definition of_canonical :: "ip_set \<Rightarrow> positions" where
  "of_canonical s =
     (let st = foldl number_range
                 \<lparr>spans = [], runs = [], total = 0, unnumbered = [], group = None\<rparr>
                 (map RangeV4 (v4 s) @ map RangeV6 (v6 s))
      in \<lparr>spans = spans st, runs = runs st, total = total st, unnumbered = unnumbered st\<rparr>)"

definition positions_of :: "ip_set \<Rightarrow> positions" where
  "positions_of s = (if v4_dirty s \<or> v6_dirty s then of_canonical (canonicalize s) else of_canonical s)"

definition positions_is_empty :: "positions \<Rightarrow> bool" where
  "positions_is_empty p \<longleftrightarrow> total p = 0"

section \<open>Addresses inside a range\<close>

fun widen :: "ip_addr \<Rightarrow> u128" where
  "widen (V4 a) = ucast a"
| "widen (V6 a) = a"

fun bounds :: "ip_range \<Rightarrow> u128 \<times> u128" where
  "bounds (RangeV4 r) = v4_bounds r"
| "bounds (RangeV6 r) = (start_addr6 r, end_addr6 r)"

fun same_family :: "ip_range \<Rightarrow> ip_addr \<Rightarrow> bool" where
  "same_family (RangeV4 _) (V4 _) = True"
| "same_family (RangeV6 _) (V6 _) = True"
| "same_family _ _ = False"

definition offset_within :: "ip_range \<Rightarrow> ip_addr \<Rightarrow> u64 option" where
  "offset_within r ip =
     (if \<not> same_family r ip then None
      else let start = fst (bounds r); stop = snd (bounds r); key = widen ip
           in if key < start \<or> key > stop then None else try_u64 (key - start))"

definition address_within :: "ip_range \<Rightarrow> u64 \<Rightarrow> ip_addr option" where
  "address_within r offset =
     (case checked_add (fst (bounds r)) (ucast offset) of
        None \<Rightarrow> None
      | Some at \<Rightarrow>
          (if at > snd (bounds r) then None
           else case r of
                  RangeV4 _ \<Rightarrow> (if at \<le> 0xffffffff then Some (V4 (ucast at)) else None)
                | RangeV6 _ \<Rightarrow> Some (V6 at)))"

definition slice_of :: "ip_range \<Rightarrow> u64 \<Rightarrow> u64 \<Rightarrow> ip_range option" where
  "slice_of r from_off to_off =
     (case (address_within r from_off, address_within r to_off) of
        (Some start, Some stop) \<Rightarrow>
          (case (r, start, stop) of
             (RangeV4 _, V4 a, V4 b) \<Rightarrow>
               (case ipv4_new a b of Inr x \<Rightarrow> Some (RangeV4 x) | Inl _ \<Rightarrow> None)
           | (RangeV6 v, V6 a, V6 b) \<Rightarrow>
               (case ipv6_scoped a b (zone6 v) of Inr x \<Rightarrow> Some (RangeV6 x) | Inl _ \<Rightarrow> None)
           | _ \<Rightarrow> None)
      | _ \<Rightarrow> None)"

section \<open>Lookups\<close>

definition span_order :: "u128 \<Rightarrow> span \<Rightarrow> ordering" where
  "span_order key sp =
     (if snd (bounds (span_range sp)) < key then Less
      else if fst (bounds (span_range sp)) > key then Greater else Equal)"

fun span_search :: "span list \<Rightarrow> u128 \<Rightarrow> span option \<Rightarrow> run list \<Rightarrow> span option" where
  "span_search all key found [] = found"
| "span_search all key found (r # rs) =
     (let part = take (run_to r - run_from r) (drop (run_from r) all)
      in case binary_search_by (span_order key) part of
           Inl _ \<Rightarrow> span_search all key found rs
         | Inr index \<Rightarrow>
             (if found \<noteq> None then None else span_search all key (Some (part ! index)) rs))"

fun is_ipv6 :: "ip_addr \<Rightarrow> bool" where
  "is_ipv6 (V4 _) = False"
| "is_ipv6 (V6 _) = True"

definition span_holding :: "positions \<Rightarrow> ip_addr \<Rightarrow> span option" where
  "span_holding p ip =
     span_search (spans p) (widen ip) None (filter (\<lambda>r. run_v6 r = is_ipv6 ip) (runs p))"

definition find_position :: "positions \<Rightarrow> ip_addr \<Rightarrow> u64 option" where
  "find_position p ip =
     (case span_holding p ip of
        None \<Rightarrow> None
      | Some sp \<Rightarrow>
          (case offset_within (span_range sp) ip of
             None \<Rightarrow> None | Some offset \<Rightarrow> Some (span_start sp + offset)))"

definition span_at :: "positions \<Rightarrow> u64 \<Rightarrow> nat option" where
  "span_at p position =
     (if position \<ge> total p then None
      else case binary_search_by
                  (\<lambda>sp. if span_start sp + span_len sp \<le> position then Less
                        else if span_start sp > position then Greater else Equal) (spans p) of
             Inr index \<Rightarrow> Some index | Inl _ \<Rightarrow> None)"

definition address_at :: "positions \<Rightarrow> u64 \<Rightarrow> ip_addr option" where
  "address_at p position =
     (case span_at p position of
        None \<Rightarrow> None
      | Some index \<Rightarrow>
          (let sp = spans p ! index in address_within (span_range sp) (position - span_start sp)))"

text \<open>The loop of \<open>ranges_in\<close>, over the spans from its first index on.\<close>

fun ranges_loop :: "u64 \<Rightarrow> u64 \<Rightarrow> span list \<Rightarrow> ip_range list" where
  "ranges_loop wanted_start stop [] = []"
| "ranges_loop wanted_start stop (sp # rest) =
     (if span_start sp \<ge> stop then []
      else (case slice_of (span_range sp) (saturating_sub wanted_start (span_start sp))
                   (min (stop - span_start sp) (span_len sp) - 1) of
              Some part \<Rightarrow> [part] | None \<Rightarrow> [])
           @ ranges_loop wanted_start stop rest)"

definition ranges_in :: "positions \<Rightarrow> u64 \<Rightarrow> u64 \<Rightarrow> ip_range list" where
  "ranges_in p wanted_start wanted_end =
     (let stop = min wanted_end (total p)
      in if wanted_start \<ge> stop then []
         else case span_at p wanted_start of
                None \<Rightarrow> []
              | Some index \<Rightarrow> ranges_loop wanted_start stop (drop index (spans p)))"

end
