(* ===== verification/Ip_Lanes.thy ===== *)
theory Ip_Lanes
  imports Ip_Set
begin

text \<open>
  What an IP set holds, and its merged form.  Both families interpret \<open>range_lane\<close>: an IPv4 range by its
  numeric bounds, an IPv6 range on a line where each interface has a stretch of its own, far
  enough from the next that ranges of different interfaces never touch.
\<close>

section \<open>What a set holds\<close>

definition scoped4 :: "ipv4_range list \<Rightarrow> (ip_addr \<times> u32 option) set" where
  "scoped4 rs = {(V4 a, None) | a. \<exists>r \<in> set rs. ipv4_contains r a}"

definition scoped6 :: "ipv6_range list \<Rightarrow> (ip_addr \<times> u32 option) set" where
  "scoped6 rs = {(V6 a, z) | a z. \<exists>r \<in> set rs. zone6 r = z \<and> ipv6_contains r a}"

definition scoped_addrs :: "ip_set \<Rightarrow> (ip_addr \<times> u32 option) set" where
  "scoped_addrs s = scoped4 (v4 s) \<union> scoped6 (v6 s)"

definition addrs :: "ip_set \<Rightarrow> ip_addr set" where
  "addrs s = fst ` scoped_addrs s"

fun range_addrs :: "ip_range \<Rightarrow> (ip_addr \<times> u32 option) set" where
  "range_addrs (RangeV4 r) = scoped4 [r]"
| "range_addrs (RangeV6 r) = scoped6 [r]"

lemma scoped_iff:
  "(V4 a, z) \<in> scoped_addrs s \<longleftrightarrow> z = None \<and> (\<exists>r \<in> set (v4 s). ipv4_contains r a)"
  "(V6 b, z) \<in> scoped_addrs s \<longleftrightarrow> (\<exists>r \<in> set (v6 s). zone6 r = z \<and> ipv6_contains r b)"
  by (auto simp: scoped_addrs_def scoped4_def scoped6_def)

lemma scoped_split:
  "scoped4 (v4 s) = {x \<in> scoped_addrs s. \<exists>a. fst x = V4 a}"
  "scoped6 (v6 s) = {x \<in> scoped_addrs s. \<exists>a. fst x = V6 a}"
  by (auto simp: scoped_addrs_def scoped4_def scoped6_def)

lemma addrs_iff:
  "V4 a \<in> addrs s \<longleftrightarrow> (\<exists>r \<in> set (v4 s). ipv4_contains r a)"
  "V6 b \<in> addrs s \<longleftrightarrow> (\<exists>r \<in> set (v6 s). ipv6_contains r b)"
  by (force simp: addrs_def image_iff scoped_addrs_def scoped4_def scoped6_def)+

section \<open>The two lanes\<close>

abbreviation lo4 :: "ipv4_range \<Rightarrow> nat" where
  "lo4 r \<equiv> unat (start_addr4 r)"

abbreviation hi4 :: "ipv4_range \<Rightarrow> nat" where
  "hi4 r \<equiv> unat (end_addr4 r)"

text \<open>The stretch of an interface starts at a multiple of \<open>2 ^ 129\<close>.\<close>

fun zone_base :: "u32 option \<Rightarrow> nat" where
  "zone_base None = 0"
| "zone_base (Some z) = Suc (unat z) * 2 ^ 129"

definition lo6 :: "ipv6_range \<Rightarrow> nat" where
  "lo6 r = zone_base (zone6 r) + unat (start_addr6 r)"

definition hi6 :: "ipv6_range \<Rightarrow> nat" where
  "hi6 r = zone_base (zone6 r) + unat (end_addr6 r)"

lemma zone_base_less: "z < z' \<Longrightarrow> zone_base z + 2 ^ 129 \<le> zone_base z'"
proof (cases z; cases z')
  fix a b assume "z < z'" "z = Some a" "z' = Some b"
  then have "Suc (Suc (unat a)) * 2 ^ 129 \<le> Suc (unat b) * (2 ^ 129 :: nat)"
    by (intro mult_right_mono) (auto simp: word_less_nat_alt)
  then show ?thesis using \<open>z = Some a\<close> \<open>z' = Some b\<close> by simp
qed auto

lemma zone_base_cases:
  fixes a b :: u128
  shows "zone_base z + unat a \<le> zone_base z' + unat b \<longleftrightarrow> z < z' \<or> z = z' \<and> a \<le> b"
proof (cases z z' rule: linorder_cases)
  case less
  from zone_base_less [OF this] less unat_bounds(4) [of a] show ?thesis by simp
next
  case equal
  then show ?thesis by (simp add: word_le_nat_alt)
next
  case greater
  from zone_base_less [OF this] greater unat_bounds(4) [of b] show ?thesis by auto
qed

lemma zone_base_eq:
  fixes a b :: u128
  shows "zone_base z + unat a = zone_base z' + unat b \<longleftrightarrow> z = z' \<and> a = b"
proof
  assume eq: "zone_base z + unat a = zone_base z' + unat b"
  have "z < z' \<or> z = z' \<and> a \<le> b" "z' < z \<or> z' = z \<and> b \<le> a"
    using zone_base_cases [of z a z' b] zone_base_cases [of z' b z a] eq by simp_all
  then show "z = z' \<and> a = b" by (meson antisym less_asym')
qed simp

interpretation v4_lane: range_lane ok4 lo4 hi4 joins4 grow4
proof
  show "joins4 a b \<longleftrightarrow> lo4 b \<le> Suc (hi4 a)" for a b
    by (simp add: joins4_def le_saturating_succ)
qed (auto simp: ok4_def grow4_def ipv4_extend_end_to_def max_def word_le_nat_alt word_less_nat_alt)

lemma joins6_iff:
  assumes "ok6 a" and "ok6 b" and "lo6 a \<le> lo6 b"
  shows "joins6 a b \<longleftrightarrow> lo6 b \<le> Suc (hi6 a)"
proof (cases "zone6 a = zone6 b")
  case True
  then show ?thesis by (simp add: joins6_def le_saturating_succ lo6_def hi6_def)
next
  case False
  with assms(3) have "zone6 a < zone6 b" by (auto simp: lo6_def zone_base_cases)
  from zone_base_less [OF this] have "Suc (hi6 a) < lo6 b"
    using unat_bounds(4) [of "end_addr6 a"] by (simp add: lo6_def hi6_def)
  with False show ?thesis by (simp add: joins6_def)
qed

interpretation v6_lane: range_lane ok6 lo6 hi6 joins6 grow6
proof
  show "lo6 r \<le> hi6 r" if "ok6 r" for r
    using that by (simp add: ok6_def lo6_def hi6_def word_le_nat_alt)
  show "joins6 a b \<longleftrightarrow> lo6 b \<le> Suc (hi6 a)" if "ok6 a" "ok6 b" "lo6 a \<le> lo6 b" for a b
    using that by (rule joins6_iff)
qed (auto simp: ok6_def joins6_def grow6_def ipv6_extend_end_to_def lo6_def hi6_def max_def
      word_le_nat_alt word_less_nat_alt)

section \<open>The invariant\<close>

text \<open>
  Every range is well formed, and a family that is not marked dirty is in canonical form on
  its lane.
\<close>

definition ip_set_inv :: "ip_set \<Rightarrow> bool" where
  "ip_set_inv s \<longleftrightarrow>
     (\<forall>r \<in> set (v4 s). ok4 r) \<and> (\<forall>r \<in> set (v6 s). ok6 r)
     \<and> (\<not> v4_dirty s \<longrightarrow> canonical (map v4_lane.ival_of (v4 s)))
     \<and> (\<not> v6_dirty s \<longrightarrow> canonical (map v6_lane.ival_of (v6 s)))"

lemma v4_points_iff: "unat a \<in> v4_lane.points rs \<longleftrightarrow> (\<exists>r \<in> set rs. ipv4_contains r a)"
  by (auto simp: ivals_set_iff ipv4_contains_def word_le_nat_alt)

lemma v6_points_iff:
  fixes a :: u128
  shows "zone_base z + unat a \<in> v6_lane.points rs \<longleftrightarrow> (\<exists>r \<in> set rs. zone6 r = z \<and> ipv6_contains r a)"
proof -
  have "lo6 r \<le> zone_base z + unat a \<and> zone_base z + unat a \<le> hi6 r \<longleftrightarrow>
      zone6 r = z \<and> ipv6_contains r a" for r
    unfolding lo6_def hi6_def zone_base_cases by (auto simp: ipv6_contains_def)
  then show ?thesis by (auto simp: ivals_set_iff)
qed

lemma merge_frame [simp]:
  "v6 (merge_v4 s) = v6 s" "v6_dirty (merge_v4 s) = v6_dirty s"
  "v4 (merge_v6 s) = v4 s" "v4_dirty (merge_v6 s) = v4_dirty s"
  unfolding merge_v4_def merge_v6_def
  by (cases "sort_key start_addr4 (v4 s)"; cases "sort_key (\<lambda>r. (zone6 r, start_addr6 r)) (v6 s)"; simp)+

lemma sort_key_nonempty: "xs \<noteq> [] \<Longrightarrow> sort_key f xs \<noteq> []"
  by (simp flip: length_greater_0_conv)

text \<open>Merging a lane: the result is canonical and covers the same points.\<close>

lemma merge_v4_correct:
  assumes "\<forall>r \<in> set (v4 s). ok4 r" and "v4 s \<noteq> []"
  shows "(\<forall>r \<in> set (v4 (merge_v4 s)). ok4 r) \<and> canonical (map v4_lane.ival_of (v4 (merge_v4 s)))
    \<and> v4_lane.points (v4 (merge_v4 s)) = v4_lane.points (v4 s)"
proof -
  obtain c rest where sort: "sort_key start_addr4 (v4 s) = c # rest"
    using sort_key_nonempty [OF assms(2), of start_addr4] by (auto simp: neq_Nil_conv)
  have set: "set (c # rest) = set (v4 s)" by (simp only: set_sort flip: sort)
  have "sorted (map start_addr4 (c # rest))" by (simp only: sorted_sort_key flip: sort)
  then have sorted: "sorted (map lo4 (c # rest))"
    unfolding sorted_map by (rule sorted_wrt_mono_rel [rotated]) (simp add: word_le_nat_alt)
  have pts: "v4_lane.points (c # rest) = v4_lane.points (v4 s)"
    using set by (simp only: ivals_set_def set_map)
  have eq: "v4 (merge_v4 s) = merge_loop joins4 grow4 c rest" by (simp add: merge_v4_def sort)
  have "\<forall>r \<in> set (c # rest). ok4 r" unfolding set by (rule assms(1))
  from v4_lane.merge_loop_correct [OF this sorted]
  show "(\<forall>r \<in> set (v4 (merge_v4 s)). ok4 r)
      \<and> canonical (map v4_lane.ival_of (v4 (merge_v4 s)))
      \<and> v4_lane.points (v4 (merge_v4 s)) = v4_lane.points (v4 s)"
    unfolding eq pts by blast
qed

lemma merge_v6_correct:
  assumes "\<forall>r \<in> set (v6 s). ok6 r" and "v6 s \<noteq> []"
  shows "(\<forall>r \<in> set (v6 (merge_v6 s)). ok6 r) \<and> canonical (map v6_lane.ival_of (v6 (merge_v6 s)))
    \<and> v6_lane.points (v6 (merge_v6 s)) = v6_lane.points (v6 s)"
proof -
  let ?key = "\<lambda>r. (zone6 r, start_addr6 r)"
  obtain c rest where sort: "sort_key ?key (v6 s) = c # rest"
    using sort_key_nonempty [OF assms(2), of ?key] by (auto simp: neq_Nil_conv)
  have set: "set (c # rest) = set (v6 s)" by (simp only: set_sort flip: sort)
  have "sorted (map ?key (c # rest))" by (simp only: sorted_sort_key flip: sort)
  then have sorted: "sorted (map lo6 (c # rest))"
    unfolding sorted_map by (rule sorted_wrt_mono_rel [rotated])
      (auto simp: lo6_def zone_base_cases less_eq_prod_def)
  have pts: "v6_lane.points (c # rest) = v6_lane.points (v6 s)"
    using set by (simp only: ivals_set_def set_map)
  have eq: "v6 (merge_v6 s) = merge_loop joins6 grow6 c rest" by (simp add: merge_v6_def sort)
  have "\<forall>r \<in> set (c # rest). ok6 r" unfolding set by (rule assms(1))
  from v6_lane.merge_loop_correct [OF this sorted]
  show "(\<forall>r \<in> set (v6 (merge_v6 s)). ok6 r)
      \<and> canonical (map v6_lane.ival_of (v6 (merge_v6 s)))
      \<and> v6_lane.points (v6 (merge_v6 s)) = v6_lane.points (v6 s)"
    unfolding eq pts by blast
qed

lemma canonicalize_v4_correct:
  assumes "ip_set_inv s"
  shows "ip_set_inv (canonicalize_v4 s) \<and> \<not> v4_dirty (canonicalize_v4 s)
    \<and> v4_lane.points (v4 (canonicalize_v4 s)) = v4_lane.points (v4 s)"
    and "v6 (canonicalize_v4 s) = v6 s" "v6_dirty (canonicalize_v4 s) = v6_dirty s"
proof -
  show "ip_set_inv (canonicalize_v4 s) \<and> \<not> v4_dirty (canonicalize_v4 s)
    \<and> v4_lane.points (v4 (canonicalize_v4 s)) = v4_lane.points (v4 s)"
    using assms merge_v4_correct [of s] by (auto simp: ip_set_inv_def canonicalize_v4_def)
qed (simp_all add: canonicalize_v4_def)

lemma canonicalize_v6_correct:
  assumes "ip_set_inv s"
  shows "ip_set_inv (canonicalize_v6 s) \<and> \<not> v6_dirty (canonicalize_v6 s)
    \<and> v6_lane.points (v6 (canonicalize_v6 s)) = v6_lane.points (v6 s)"
    and "v4 (canonicalize_v6 s) = v4 s" "v4_dirty (canonicalize_v6 s) = v4_dirty s"
proof -
  show "ip_set_inv (canonicalize_v6 s) \<and> \<not> v6_dirty (canonicalize_v6 s)
    \<and> v6_lane.points (v6 (canonicalize_v6 s)) = v6_lane.points (v6 s)"
    using assms merge_v6_correct [of s] by (auto simp: ip_set_inv_def canonicalize_v6_def)
qed (simp_all add: canonicalize_v6_def)

lemma scoped4_points: "scoped4 rs = {(V4 a, None) | a. unat a \<in> v4_lane.points rs}"
  by (simp only: scoped4_def v4_points_iff)

lemma scoped6_points:
  "scoped6 rs = {(V6 a, z) | a z. zone_base z + unat a \<in> v6_lane.points rs}"
  by (simp only: scoped6_def v6_points_iff)

lemma canonicalize_correct:
  assumes "ip_set_inv s"
  shows "ip_set_inv (canonicalize s)" "\<not> v4_dirty (canonicalize s)" "\<not> v6_dirty (canonicalize s)"
    "scoped_addrs (canonicalize s) = scoped_addrs s"
proof -
  let ?t = "canonicalize_v4 s"
  note c4 = canonicalize_v4_correct [OF assms]
  then have inv: "ip_set_inv ?t" by blast
  note c6 = canonicalize_v6_correct [OF inv]
  show inv': "ip_set_inv (canonicalize s)" and "\<not> v4_dirty (canonicalize s)"
    and "\<not> v6_dirty (canonicalize s)"
    using c4 c6 by (auto simp: canonicalize_def)
  have p4: "v4_lane.points (v4 (canonicalize s)) = v4_lane.points (v4 s)"
    and p6: "v6_lane.points (v6 (canonicalize s)) = v6_lane.points (v6 s)"
    using c4 c6 by (auto simp: canonicalize_def)
  show "scoped_addrs (canonicalize s) = scoped_addrs s"
    unfolding scoped_addrs_def scoped4_points scoped6_points p4 p6 ..
qed

section \<open>Runs of one interface\<close>

text \<open>The bounds of a range as natural numbers, its zone left aside.\<close>

abbreviation nat_bounds :: "('r \<Rightarrow> u128 \<times> u128) \<Rightarrow> 'r \<Rightarrow> ival" where
  "nat_bounds bounds r \<equiv> (unat (fst (bounds r)), unat (snd (bounds r)))"

lemma canonical_shift: "canonical (map (\<lambda>i. (k + fst i, k + snd i)) xs) \<longleftrightarrow> canonical xs"
  by (induction xs) (auto simp: canonical_Cons)

lemma canonical_zones_sorted:
  assumes "canonical (map v6_lane.ival_of rs)" and "\<forall>r \<in> set rs. ok6 r"
  shows "sorted (map zone6 rs)"
proof -
  have "sorted_wrt (\<lambda>a b. Suc (hi6 a) < lo6 b) rs"
    using assms(1) by (simp add: canonical_def sorted_wrt_map)
  moreover have "zone6 a \<le> zone6 b" if "Suc (hi6 a) < lo6 b" for a b
  proof -
    have "hi6 a \<le> lo6 b" using that by simp
    then show ?thesis by (auto simp: hi6_def lo6_def zone_base_cases)
  qed
  ultimately show ?thesis unfolding sorted_map by (rule sorted_wrt_mono_rel [rotated])
qed

lemma v6_runs_Cons:
  assumes "sorted (map zone6 (r # rest))"
  shows "v6_runs (r # rest) = takeWhile (\<lambda>x. zone6 x = zone6 r) (r # rest)
    # v6_runs (dropWhile (\<lambda>x. zone6 x = zone6 r) (r # rest))"
proof -
  let ?p = "\<lambda>x. zone6 x = zone6 r"
  have "sorted_wrt (\<lambda>x y. ?p y \<longrightarrow> ?p x) rest"
  proof (rule sorted_wrt_mono_rel)
    show "sorted_wrt (\<lambda>x y. zone6 x \<le> zone6 y) rest" using assms by (simp add: sorted_map)
    show "?p y \<longrightarrow> ?p x" if "x \<in> set rest" "y \<in> set rest" "zone6 x \<le> zone6 y" for x y
      using that assms by auto
  qed
  then have "partition_point ?p (r # rest) = length (takeWhile ?p (r # rest))"
    by (intro partition_point_takeWhile) simp
  then show ?thesis
    by (simp only: v6_runs.simps Let_def flip: takeWhile_eq_take dropWhile_eq_drop)
qed

lemma concat_v6_runs: "concat (v6_runs rs) = rs"
  by (induction rs rule: v6_runs.induct) (simp_all add: v6_runs.simps Let_def)

lemma v6_runs_zone:
  "sorted (map zone6 rs) \<Longrightarrow> run \<in> set (v6_runs rs) \<Longrightarrow> \<exists>z. \<forall>r \<in> set run. zone6 r = z"
proof (induction "length rs" arbitrary: rs rule: less_induct)
  case less
  show ?case
  proof (cases rs)
    case Nil
    with less.prems show ?thesis by simp
  next
    case (Cons r rest)
    let ?p = "\<lambda>x. zone6 x = zone6 r"
    let ?rest = "dropWhile ?p (r # rest)"
    have sorted: "sorted (map zone6 ?rest)"
      using less.prems(1) Cons
      by (metis append_take_drop_id dropWhile_eq_drop map_append sorted_append)
    have shorter: "length ?rest < length rs" using Cons by (simp add: length_dropWhile_le le_imp_less_Suc)
    have "run = takeWhile ?p (r # rest) \<or> run \<in> set (v6_runs ?rest)"
      using less.prems Cons v6_runs_Cons [of r rest] by simp
    then show ?thesis
    proof
      assume "run = takeWhile ?p (r # rest)"
      then have "\<forall>x \<in> set run. ?p x" by (auto dest: set_takeWhileD)
      then show ?thesis by blast
    qed (rule less.hyps [OF shorter sorted])
  qed
qed

lemma holds_iff:
  assumes "canonical (map (nat_bounds bounds) rs)"
  shows "holds bounds rs t \<longleftrightarrow> (\<exists>r \<in> set rs. fst (bounds r) \<le> t \<and> t \<le> snd (bounds r))"
proof -
  let ?f = "\<lambda>r. if t < fst (bounds r) then Greater else if t > snd (bounds r) then Less else Equal"
  have "sorted_wrt (\<lambda>a b. unat (snd (bounds a)) < unat (fst (bounds b))) rs"
    using assms by (auto simp: canonical_def sorted_wrt_map elim!: sorted_wrt_mono_rel [rotated])
  moreover have "\<forall>r \<in> set rs. unat (fst (bounds r)) \<le> unat (snd (bounds r))"
    using assms by (auto simp: canonical_def)
  ultimately have "cmp_sorted ?f rs"
    unfolding cmp_sorted_def
    by (elim sorted_wrt_mono_rel [rotated]) (auto simp: word_less_nat_alt)
  moreover have "?f r = Equal \<longleftrightarrow> fst (bounds r) \<le> t \<and> t \<le> snd (bounds r)" for r by auto
  ultimately show ?thesis
    using binary_search_finds [of ?f rs] by (auto simp: holds_def split: sum.splits)
qed

lemma v4_canonical_bounds:
  "canonical (map v4_lane.ival_of rs) \<longleftrightarrow> canonical (map (nat_bounds v4_bounds) rs)"
  by (simp add: v4_bounds_def)

lemma v6_canonical_bounds:
  assumes "\<forall>r \<in> set rs. zone6 r = z"
  shows "canonical (map v6_lane.ival_of rs) \<longleftrightarrow> canonical (map (nat_bounds v6_bounds) rs)"
proof -
  have "map v6_lane.ival_of rs
      = map (\<lambda>i. (zone_base z + fst i, zone_base z + snd i)) (map (nat_bounds v6_bounds) rs)"
    using assms by (simp add: lo6_def hi6_def v6_bounds_def)
  then show ?thesis by (simp only: canonical_shift)
qed

lemma canonical_concat: "canonical (concat xss) \<Longrightarrow> xs \<in> set xss \<Longrightarrow> canonical xs"
  by (induction xss) (auto simp: canonical_append)

lemma v6_run_canonical:
  assumes "canonical (map v6_lane.ival_of rs)" and "\<forall>r \<in> set rs. ok6 r" and "run \<in> set (v6_runs rs)"
  shows "canonical (map v6_lane.ival_of run) \<and> canonical (map (nat_bounds v6_bounds) run)
    \<and> (\<forall>r \<in> set run. ok6 r) \<and> set run \<subseteq> set rs"
proof -
  have sub: "set run \<subseteq> set rs"
    using assms(3) concat_v6_runs [of rs] by (metis UN_upper set_concat)
  have "canonical (concat (map (map v6_lane.ival_of) (v6_runs rs)))"
    using assms(1) by (simp add: concat_v6_runs flip: map_concat)
  then have c: "canonical (map v6_lane.ival_of run)"
    using assms(3) by (auto intro: canonical_concat)
  obtain z where "\<forall>r \<in> set run. zone6 r = z"
    using v6_runs_zone [OF canonical_zones_sorted [OF assms(1,2)] assms(3)] by blast
  from v6_canonical_bounds [OF this] c sub assms(2) show ?thesis by blast
qed

lemma contains_canonical_iff:
  assumes "ip_set_inv s" and "is_merged s ip"
  shows "contains_canonical s ip \<longleftrightarrow> ip \<in> addrs s"
proof (cases ip)
  case (V4 a)
  have "canonical (map (nat_bounds v4_bounds) (v4 s))"
    using assms V4 by (simp add: ip_set_inv_def flip: v4_canonical_bounds)
  note held = holds_iff [OF this]
  show ?thesis unfolding V4 contains_canonical.simps held addrs_iff
    by (simp add: v4_bounds_def ipv4_contains_def word_le_nat_alt)
next
  case (V6 a)
  have "holds v6_bounds run a \<longleftrightarrow> (\<exists>r \<in> set run. ipv6_contains r a)" if "run \<in> set (v6_runs (v6 s))" for run
  proof -
    have "canonical (map (nat_bounds v6_bounds) run)"
      using v6_run_canonical [OF _ _ that] assms V6 by (simp add: ip_set_inv_def)
    note held = holds_iff [OF this]
    show ?thesis unfolding held by (simp add: v6_bounds_def ipv6_contains_def)
  qed
  moreover have "set (v6 s) = (\<Union>run \<in> set (v6_runs (v6 s)). set run)"
    by (metis concat_v6_runs set_concat)
  ultimately show ?thesis using V6 by (auto simp: addrs_iff list_ex_iff)
qed

lemma contains_iff:
  assumes "ip_set_inv s"
  shows "contains s ip \<longleftrightarrow> ip \<in> addrs s"
  using contains_canonical_iff [OF assms, of ip]
  by (cases ip) (auto simp: contains_def addrs_iff list_ex_iff)

end
