(* ===== verification/Ip_Subtract.thy ===== *)
theory Ip_Subtract
  imports Ip_Lanes
begin

text \<open>
  Enumerating, counting and subtracting IP sets: the enumeration of a merged lane is the
  ascending list of its points, the counts are its length, and \<open>subtract_run\<close> is proved once
  for both families in the locale \<open>cuttable\<close>.
\<close>

section \<open>Enumerating, counting and comparing\<close>

text \<open>Where an address sits on its family's line.\<close>

fun line_pos :: "ip_addr \<times> u32 option \<Rightarrow> nat" where
  "line_pos (V4 a, z) = unat a"
| "line_pos (V6 a, z) = zone_base z + unat a"

definition scoped_list4 :: "ipv4_range list \<Rightarrow> (ip_addr \<times> u32 option) list" where
  "scoped_list4 rs =
     concat (map (\<lambda>r. map (\<lambda>ip. (V4 ip, None)) (range_inclusive (start_addr4 r) (end_addr4 r))) rs)"

definition scoped_list6 :: "ipv6_range list \<Rightarrow> (ip_addr \<times> u32 option) list" where
  "scoped_list6 rs =
     concat (map (\<lambda>r. map (\<lambda>ip. (V6 ip, zone6 r)) (range_inclusive (start_addr6 r) (end_addr6 r))) rs)"

lemma set_scoped_list:
  "set (scoped_list4 rs4) = scoped4 rs4" "set (scoped_list6 rs6) = scoped6 rs6"
  by (auto simp: scoped_list4_def scoped_list6_def scoped4_def scoped6_def set_range_inclusive
      ipv4_contains_def ipv6_contains_def)

lemma line_pos_list4: "map line_pos (scoped_list4 rs) = enum_ivals (map v4_lane.ival_of rs)"
  by (induction rs) (simp_all add: scoped_list4_def comp_def map_unat_range_inclusive del: upt_Suc)

lemma map_plus_upt: "map ((+) k) [a..<b] = [k + a..<k + b]"
  by (induction b) auto

lemma line_pos_list6: "map line_pos (scoped_list6 rs) = enum_ivals (map v6_lane.ival_of rs)"
proof -
  have "map line_pos (map (\<lambda>ip. (V6 ip, zone6 r)) (range_inclusive (start_addr6 r) (end_addr6 r)))
      = [lo6 r..<Suc (hi6 r)]" for r
  proof -
    have "map line_pos (map (\<lambda>ip. (V6 ip, zone6 r)) (range_inclusive (start_addr6 r) (end_addr6 r)))
      = map ((+) (zone_base (zone6 r))) (map unat (range_inclusive (start_addr6 r) (end_addr6 r)))"
      by simp
    also have "\<dots> = [lo6 r..<Suc (hi6 r)]"
      by (simp add: map_unat_range_inclusive lo6_def hi6_def map_plus_upt del: upt_Suc)
    finally show ?thesis .
  qed
  then show ?thesis by (induction rs) (simp_all add: scoped_list6_def del: upt_Suc map_map)
qed

lemma line_pos_image:
  "line_pos ` scoped4 rs4 = v4_lane.points rs4" "line_pos ` scoped6 rs6 = v6_lane.points rs6"
  by (simp_all only: set_scoped_list(1) [symmetric] set_scoped_list(2) [symmetric]
      set_map [symmetric] line_pos_list4 line_pos_list6 set_enum_ivals)

lemma line_pos_inj: "inj_on line_pos (scoped4 rs4)" "inj_on line_pos (scoped6 rs6)"
  by (auto simp: inj_on_def scoped4_def scoped6_def zone_base_eq word_unat_eq_iff)

lemma finite_scoped: "finite (scoped4 rs4)" "finite (scoped6 rs6)"
  by (simp_all flip: set_scoped_list)

lemma card_scoped_addrs:
  assumes "ip_set_inv s" and "\<not> v4_dirty s" and "\<not> v6_dirty s"
  shows "card (scoped_addrs s)
    = (\<Sum>r\<leftarrow>v4 s. Suc (hi4 r) - lo4 r) + (\<Sum>r\<leftarrow>v6 s. Suc (hi6 r) - lo6 r)"
proof -
  have "scoped4 (v4 s) \<inter> scoped6 (v6 s) = {}" by (auto simp: scoped4_def scoped6_def)
  then have "card (scoped_addrs s) = card (scoped4 (v4 s)) + card (scoped6 (v6 s))"
    unfolding scoped_addrs_def by (intro card_Un_disjoint finite_scoped)
  also have "\<dots> = card (v4_lane.points (v4 s)) + card (v6_lane.points (v6 s))"
    by (simp only: line_pos_image [symmetric] card_image [OF line_pos_inj(1)]
        card_image [OF line_pos_inj(2)])
  also have "card (v4_lane.points (v4 s)) = (\<Sum>r\<leftarrow>v4 s. Suc (hi4 r) - lo4 r)"
    using assms by (subst card_canonical) (simp_all add: ip_set_inv_def comp_def)
  also have "card (v6_lane.points (v6 s)) = (\<Sum>r\<leftarrow>v6 s. Suc (hi6 r) - lo6 r)"
    using assms by (subst card_canonical) (simp_all add: ip_set_inv_def comp_def)
  finally show ?thesis .
qed

lemma card_scoped_le:
  "card (scoped_addrs s) \<le> (\<Sum>r\<leftarrow>v4 s. Suc (hi4 r) - lo4 r) + (\<Sum>r\<leftarrow>v6 s. Suc (hi6 r) - lo6 r)"
proof -
  have "card (scoped_addrs s) \<le> card (scoped4 (v4 s)) + card (scoped6 (v6 s))"
    unfolding scoped_addrs_def by (rule card_Un_le)
  also have "\<dots> \<le> length (scoped_list4 (v4 s)) + length (scoped_list6 (v6 s))"
    by (intro add_mono; simp only: set_scoped_list [symmetric] card_length)
  also have "\<dots> = length (map line_pos (scoped_list4 (v4 s))) + length (map line_pos (scoped_list6 (v6 s)))"
    by simp
  finally show ?thesis
    by (simp only: line_pos_list4 line_pos_list6 length_enum_ivals map_map comp_def fst_conv snd_conv)
qed

lemma foldl_saturating_add:
  fixes f :: "'r \<Rightarrow> 'a::len word"
  assumes "\<forall>x \<in> set xs. unat (f x) = min (g x) (2 ^ LENGTH('a) - 1)"
  shows "unat (foldl (\<lambda>total x. saturating_add total (f x)) a xs)
    = min (unat a + (\<Sum>x\<leftarrow>xs. g x)) (2 ^ LENGTH('a) - 1)"
  using assms
proof (induction xs arbitrary: a)
  case Nil
  have "unat a \<le> 2 ^ LENGTH('a) - 1" using unat_lt_size [of a] by linarith
  then show ?case by simp
next
  case (Cons x xs)
  then show ?case by (simp add: unat_saturating_add)
qed

lemma unat_v4_len:
  assumes "\<forall>r \<in> set (v4 s). ok4 r"
  shows "unat (v4_len s) = min (\<Sum>r\<leftarrow>v4 s. Suc (hi4 r) - lo4 r) (2 ^ 128 - 1)"
proof -
  have "unat (ucast (ipv4_len r) :: u128) = min (Suc (hi4 r) - lo4 r) (2 ^ LENGTH(128) - 1)"
    if "r \<in> set (v4 s)" for r
    using that assms unat_ipv4_len [of r] unat_bounds(2) [of "end_addr4 r"] by simp
  then show ?thesis unfolding v4_len_def by (subst foldl_saturating_add) auto
qed

lemma unat_v6_len:
  assumes "\<forall>r \<in> set (v6 s). ok6 r"
  shows "unat (v6_len s) = min (\<Sum>r\<leftarrow>v6 s. Suc (hi6 r) - lo6 r) (2 ^ 128 - 1)"
proof -
  have "unat (ipv6_len r) = min (Suc (hi6 r) - lo6 r) (2 ^ LENGTH(128) - 1)"
    if "r \<in> set (v6 s)" for r
    using that assms unat_ipv6_len [of r] by (simp add: hi6_def lo6_def)
  then show ?thesis unfolding v6_len_def by (subst foldl_saturating_add) auto
qed

lemma unat_len_gross:
  assumes "ip_set_inv s"
  shows "unat (len_gross s)
    = min ((\<Sum>r\<leftarrow>v4 s. Suc (hi4 r) - lo4 r) + (\<Sum>r\<leftarrow>v6 s. Suc (hi6 r) - lo6 r)) (2 ^ 128 - 1)"
  using assms unfolding len_gross_def unat_saturating_add
  by (subst unat_v4_len, simp add: ip_set_inv_def, subst unat_v6_len, simp add: ip_set_inv_def) simp

lemma set_len_canonical: "set_len s = len_gross (eq_merged s)"
  by (simp add: set_len_def len_gross_def len_canonical_def eq_merged_def)

lemma eq_merged_correct:
  assumes "ip_set_inv s"
  shows "ip_set_inv (eq_merged s)" "\<not> v4_dirty (eq_merged s)" "\<not> v6_dirty (eq_merged s)"
    "scoped_addrs (eq_merged s) = scoped_addrs s"
  using assms canonicalize_correct [OF assms] by (auto simp: eq_merged_def)

section \<open>Subtraction\<close>

abbreviation nat_pair :: "u128 \<times> u128 \<Rightarrow> ival" where
  "nat_pair p \<equiv> (unat (fst p), unat (snd p))"

subsection \<open>The cuts, coalesced\<close>

definition cut_joins :: "u128 \<times> u128 \<Rightarrow> u128 \<times> u128 \<Rightarrow> bool" where
  "cut_joins current following \<longleftrightarrow> fst following \<le> saturating_add (snd current) 1"

definition cut_grow :: "u128 \<times> u128 \<Rightarrow> u128 \<times> u128 \<Rightarrow> u128 \<times> u128" where
  "cut_grow current following = (fst current, max (snd current) (snd following))"

interpretation cut_lane: range_lane "\<lambda>p. fst p \<le> snd p" "\<lambda>p. unat (fst p)" "\<lambda>p. unat (snd p)"
  cut_joins cut_grow
proof
  show "cut_joins a b \<longleftrightarrow> unat (fst b) \<le> Suc (unat (snd a))" for a b
    by (simp add: cut_joins_def le_saturating_succ)
qed (auto simp: cut_grow_def max_def word_le_nat_alt)

lemma coalesce_merge_loop: "coalesce (xs @ [c]) cuts = xs @ merge_loop cut_joins cut_grow c cuts"
proof (induction cuts arbitrary: xs c)
  case (Cons d cuts)
  show ?case
    using Cons.IH [of xs "cut_grow c d"] Cons.IH [of "xs @ [c]" d]
    by (cases d) (auto simp: cut_joins_def cut_grow_def)
qed simp

lemma merged_intervals_correct:
  assumes "\<forall>p \<in> set ps. fst p \<le> snd p"
  shows "canonical (map nat_pair (merged_intervals ps))
    \<and> ivals_set (map nat_pair (merged_intervals ps)) = ivals_set (map nat_pair ps)"
proof (cases "sort ps")
  case Nil
  then have "ps = []" by (metis set_empty set_sort)
  then show ?thesis by (simp add: merged_intervals_def)
next
  case (Cons c rest)
  have set: "set (c # rest) = set ps" by (simp only: set_sort flip: Cons)
  have "sorted (c # rest)" by (simp only: sorted_sort flip: Cons)
  then have "sorted (map (\<lambda>p. unat (fst p)) (c # rest))"
    unfolding sorted_map by (rule sorted_wrt_mono_rel [rotated])
      (auto simp: less_eq_prod_def word_le_nat_alt word_less_nat_alt)
  moreover have ok: "\<forall>p \<in> set (c # rest). fst p \<le> snd p" unfolding set by (rule assms)
  moreover have eq: "merged_intervals ps = merge_loop cut_joins cut_grow c rest"
    using coalesce_merge_loop [of "[]" c rest] by (cases c) (simp add: merged_intervals_def Cons)
  moreover have pts: "ivals_set (map nat_pair (c # rest)) = ivals_set (map nat_pair ps)"
    using set by (simp only: ivals_set_def set_map)
  ultimately show ?thesis using cut_lane.merge_loop_correct [of c rest] unfolding eq pts by blast
qed

lemma merged_intervals_empty: "merged_intervals ps = [] \<longleftrightarrow> ps = []"
proof (cases "sort ps")
  case Nil
  then have "ps = []" by (metis set_empty set_sort)
  then show ?thesis by (simp add: merged_intervals_def)
next
  case (Cons c rest)
  have "merge_loop cut_joins cut_grow c rest \<noteq> []" by (induction rest arbitrary: c) auto
  moreover have "ps \<noteq> []" using Cons by auto
  ultimately show ?thesis
    using coalesce_merge_loop [of "[]" c rest] by (cases c) (simp add: merged_intervals_def Cons)
qed

subsection \<open>One pass over a run\<close>

lemma cut_range_refines:
  "map nat_pair (cut_range cursor stop cuts) = cut_ival (unat cursor) (unat stop) (map nat_pair cuts)"
proof (induction cursor stop cuts rule: cut_range.induct)
  case (2 cursor stop cut_start cut_end cuts)
  have gap: "map nat_pair (if cut_start > cursor then [(cursor, cut_start - 1)] else [])
      = (if unat cursor < unat cut_start then [(unat cursor, unat cut_start - 1)] else [])"
    using unat_pred [of cursor cut_start] by (simp add: word_less_nat_alt)
  show ?case
  proof (cases "cut_start \<le> stop \<and> \<not> cut_end \<ge> stop")
    case True
    then have "unat (cut_end + 1) = Suc (unat cut_end)" by (intro unat_succ [of _ stop]) auto
    with True 2 gap show ?thesis by (simp add: word_le_nat_alt)
  next
    case False
    with gap show ?thesis by (auto simp: word_le_nat_alt)
  qed
qed simp

lemma those_map_Some:
  assumes "\<forall>x \<in> set xs. \<exists>y. f x = Some y \<and> P x y"
  shows "\<exists>ys. those (map f xs) = Some ys \<and> list_all2 P xs ys"
  using assms by (induction xs) auto

text \<open>
  What \<open>subtract_run\<close> asks of its two callbacks: a piece inside a range can be rebuilt, with
  those bounds and the range's own interface.
\<close>

locale cuttable =
  fixes ok :: "'r \<Rightarrow> bool"
    and bounds :: "'r \<Rightarrow> u128 \<times> u128"
    and rebuild :: "'r \<Rightarrow> u128 \<Rightarrow> u128 \<Rightarrow> 'r option"
    and tag :: "'r \<Rightarrow> 't"
  assumes bounds_le: "ok r \<Longrightarrow> fst (bounds r) \<le> snd (bounds r)"
    and rebuild_ok: "ok r \<Longrightarrow> fst (bounds r) \<le> a \<Longrightarrow> a \<le> b \<Longrightarrow> b \<le> snd (bounds r) \<Longrightarrow>
      \<exists>r'. rebuild r a b = Some r' \<and> ok r' \<and> bounds r' = (a, b) \<and> tag r' = tag r"
begin

abbreviation within :: "'r \<Rightarrow> 'r \<Rightarrow> bool" where
  "within k r \<equiv> tag k = tag r \<and> fst (bounds r) \<le> fst (bounds k) \<and> snd (bounds k) \<le> snd (bounds r)"

lemma rebuild_pieces:
  assumes r: "ok r" and cuts: "canonical (map nat_pair cuts)"
    and live: "\<forall>c \<in> set cuts. fst (bounds r) \<le> snd c"
  shows "\<exists>ks. those (map (\<lambda>p. rebuild r (fst p) (snd p)) (cut_range (fst (bounds r)) (snd (bounds r)) cuts))
      = Some ks
    \<and> (\<forall>k \<in> set ks. ok k \<and> within k r) \<and> canonical (map (nat_bounds bounds) ks)
    \<and> ivals_set (map (nat_bounds bounds) ks)
      = {unat (fst (bounds r))..unat (snd (bounds r))} - ivals_set (map nat_pair cuts)"
proof -
  let ?ps = "cut_range (fst (bounds r)) (snd (bounds r)) cuts"
  let ?nps = "cut_ival (unat (fst (bounds r))) (unat (snd (bounds r))) (map nat_pair cuts)"
  have refines: "map nat_pair ?ps = ?nps" by (rule cut_range_refines)
  have cut: "canonical ?nps"
    "ivals_set ?nps = {unat (fst (bounds r))..unat (snd (bounds r))} - ivals_set (map nat_pair cuts)"
    "\<forall>p \<in> set ?nps. unat (fst (bounds r)) \<le> fst p \<and> fst p \<le> snd p \<and> snd p \<le> unat (snd (bounds r))"
    using cut_ival_correct [of "unat (fst (bounds r))" "unat (snd (bounds r))" "map nat_pair cuts"]
      bounds_le [OF r] cuts live by (simp_all add: word_le_nat_alt)
  have "\<forall>p \<in> set ?ps. fst (bounds r) \<le> fst p \<and> fst p \<le> snd p \<and> snd p \<le> snd (bounds r)"
    using cut(3) unfolding refines [symmetric] by (simp add: word_le_nat_alt)
  then have "\<forall>p \<in> set ?ps. \<exists>k. rebuild r (fst p) (snd p) = Some k
      \<and> (ok k \<and> within k r \<and> bounds k = p)"
    using rebuild_ok [OF r] by fastforce
  from those_map_Some [OF this] obtain ks where
    ks: "those (map (\<lambda>p. rebuild r (fst p) (snd p)) ?ps) = Some ks"
      "list_all2 (\<lambda>p k. ok k \<and> within k r \<and> bounds k = p) ?ps ks" by blast
  then have "map bounds ks = ?ps"
    by (simp add: list_all2_conv_all_nth list_eq_iff_nth_eq)
  then have nb: "map (nat_bounds bounds) ks = ?nps"
    unfolding refines [symmetric] by (metis (no_types, lifting) map_map comp_apply map_eq_conv)
  have "\<forall>k \<in> set ks. ok k \<and> within k r"
    using ks(2) by (auto simp: list_all2_conv_all_nth in_set_conv_nth)
  with ks(1) cut(1,2) show ?thesis unfolding nb [symmetric] by blast
qed

lemma within_points:
  "within k r \<Longrightarrow> fst (nat_bounds bounds r) \<le> fst (nat_bounds bounds k)
     \<and> snd (nat_bounds bounds k) \<le> snd (nat_bounds bounds r)"
  by (simp add: word_le_nat_alt)

lemma subtract_run_correct:
  "(\<forall>r \<in> set run. ok r) \<Longrightarrow> canonical (map (nat_bounds bounds) run) \<Longrightarrow> canonical (map nat_pair live) \<Longrightarrow>
   \<exists>kept. subtract_run bounds rebuild run live = Some kept
     \<and> (\<forall>k \<in> set kept. ok k \<and> (\<exists>r \<in> set run. within k r))
     \<and> canonical (map (nat_bounds bounds) kept)
     \<and> ivals_set (map (nat_bounds bounds) kept)
       = ivals_set (map (nat_bounds bounds) run) - ivals_set (map nat_pair live)"
proof (induction run arbitrary: live)
  case Nil
  then show ?case by simp
next
  case (Cons r run)
  let ?nb = "nat_bounds bounds"
  define live' where "live' = dropWhile (\<lambda>c. snd c < fst (bounds r)) live"
  obtain dead where dead: "live = dead @ live'" "\<forall>c \<in> set dead. snd c < fst (bounds r)"
    unfolding live'_def by (metis takeWhile_dropWhile_id set_takeWhileD)
  have live_canon: "canonical (map nat_pair live')"
    using Cons.prems(3) by (simp add: dead(1) canonical_append)
  have reach: "\<forall>c \<in> set live'. fst (bounds r) \<le> snd c"
  proof (cases live')
    case (Cons c cs)
    then have "fst (bounds r) \<le> snd c"
      unfolding live'_def by (metis dropWhile_eq_Cons_conv not_le)
    then show ?thesis using live_canon Cons by (fastforce simp: canonical_Cons canonical_def word_le_nat_alt)
  qed simp
  have r: "ok r" using Cons.prems(1) by simp
  from rebuild_pieces [OF r live_canon reach] obtain ks where
    ks: "those (map (\<lambda>p. rebuild r (fst p) (snd p)) (cut_range (fst (bounds r)) (snd (bounds r)) live'))
        = Some ks"
      "\<forall>k \<in> set ks. ok k \<and> within k r" "canonical (map ?nb ks)"
      "ivals_set (map ?nb ks) = {unat (fst (bounds r))..unat (snd (bounds r))} - ivals_set (map nat_pair live')"
    by blast
  from Cons.IH [of live'] Cons.prems live_canon obtain rest where
    rest: "subtract_run bounds rebuild run live' = Some rest"
      "\<forall>k \<in> set rest. ok k \<and> (\<exists>r \<in> set run. within k r)" "canonical (map ?nb rest)"
      "ivals_set (map ?nb rest) = ivals_set (map ?nb run) - ivals_set (map nat_pair live')"
    by (auto simp: canonical_Cons)
  have after: "Suc (snd (?nb r)) < fst (?nb x)" if "x \<in> set run" for x
    using Cons.prems(2) that by (auto simp: canonical_Cons)
  have "Suc (snd (?nb k)) < fst (?nb j)" if k: "k \<in> set ks" and j: "j \<in> set rest" for k j
  proof -
    obtain x where x: "x \<in> set run" "within j x" using rest(2) j by blast
    from within_points [OF x(2)] within_points [of k r] ks(2) k after [OF x(1)]
    show ?thesis by auto
  qed
  then have canon: "canonical (map ?nb (ks @ rest))"
    using ks(3) rest(3) by (auto simp: canonical_append)
  have dead_below: "x < unat (fst (bounds r))" if "x \<in> ivals_set (map nat_pair dead)" for x
    using that dead(2) by (fastforce simp: ivals_set_iff word_less_nat_alt)
  have above: "unat (fst (bounds r)) \<le> x" if "x \<in> ivals_set (map ?nb (r # run))" for x
    using canonical_least Cons.prems(2) that by fastforce
  have "ivals_set (map ?nb (ks @ rest)) = ivals_set (map ?nb (r # run)) - ivals_set (map nat_pair live')"
    by (simp only: map_append list.map ivals_set_simps ks(4) rest(4)) (auto simp: ival_set_def)
  also have "\<dots> = ivals_set (map ?nb (r # run)) - ivals_set (map nat_pair live)"
  proof -
    have "ivals_set (map ?nb (r # run)) \<inter> ivals_set (map nat_pair dead) = {}"
      using dead_below above leD unfolding disjoint_iff by blast
    then show ?thesis unfolding dead(1) map_append ivals_set_simps(3) by blast
  qed
  finally have "ivals_set (map ?nb (ks @ rest)) = ivals_set (map ?nb (r # run)) - ivals_set (map nat_pair live)" .
  moreover have "subtract_run bounds rebuild (r # run) live = Some (ks @ rest)"
    using ks(1) rest(1) by (simp add: Let_def flip: live'_def)
  moreover have "\<forall>k \<in> set (ks @ rest). ok k \<and> (\<exists>x \<in> set (r # run). within k x)"
    using ks(2) rest(2) by fastforce
  ultimately show ?case using canon by blast
qed

end

interpretation v4_cut: cuttable ok4 v4_bounds rebuild4 "\<lambda>_. ()"
proof
  show "fst (v4_bounds r) \<le> snd (v4_bounds r)" if "ok4 r" for r
    using that by (simp add: ok4_def v4_bounds_def word_le_nat_alt)
  show "\<exists>r'. rebuild4 r a b = Some r' \<and> ok4 r' \<and> v4_bounds r' = (a, b) \<and> () = ()"
    if "ok4 r" "fst (v4_bounds r) \<le> a" "a \<le> b" "b \<le> snd (v4_bounds r)" for r a b
  proof -
    have b: "unat b < 2 ^ 32"
      using that(4) unat_bounds(2) [of "end_addr4 r"] by (simp add: v4_bounds_def word_le_nat_alt)
    moreover have "unat a \<le> unat b" using that(3) by (simp add: word_le_nat_alt)
    ultimately have narrow: "unat (ucast a :: u32) = unat a" "unat (ucast b :: u32) = unat b"
      by (auto intro!: unat_ucast_narrow)
    have "(ucast a :: u32) \<le> ucast b" using that(3) by (simp add: word_le_nat_alt narrow)
    then show ?thesis
      by (simp add: rebuild4_def ipv4_new_def ok4_def v4_bounds_def word_unat_eq_iff narrow)
  qed
qed

interpretation v6_cut: cuttable ok6 v6_bounds rebuild6 zone6
proof
  show "fst (v6_bounds r) \<le> snd (v6_bounds r)" if "ok6 r" for r
    using that by (simp add: ok6_def v6_bounds_def)
  show "\<exists>r'. rebuild6 r a b = Some r' \<and> ok6 r' \<and> v6_bounds r' = (a, b) \<and> zone6 r' = zone6 r"
    if "ok6 r" "a \<le> b" for r a b
    using that by (cases "zone6 r") (auto simp: rebuild6_def ipv6_scoped_def ok6_def v6_bounds_def)
qed

lemma cuts_correct:
  assumes "ip_set_inv other"
  shows "canonical (map nat_pair (merged_intervals (map v4_bounds (v4 other))))
      \<and> (\<forall>a. unat a \<in> ivals_set (map nat_pair (merged_intervals (map v4_bounds (v4 other))))
        \<longleftrightarrow> V4 a \<in> addrs other)"
    and "canonical (map nat_pair (merged_intervals (map v6_bounds (v6 other))))
      \<and> (\<forall>a. unat a \<in> ivals_set (map nat_pair (merged_intervals (map v6_bounds (v6 other))))
        \<longleftrightarrow> V6 a \<in> addrs other)"
proof -
  have ok: "\<forall>p \<in> set (map v4_bounds (v4 other)). fst p \<le> snd p"
    "\<forall>p \<in> set (map v6_bounds (v6 other)). fst p \<le> snd p"
    using assms v4_cut.bounds_le v6_cut.bounds_le by (auto simp: ip_set_inv_def)
  have "unat a \<in> ivals_set (map nat_pair (map v4_bounds (v4 other))) \<longleftrightarrow> V4 a \<in> addrs other" for a
    by (auto simp: ivals_set_iff addrs_iff v4_bounds_def ipv4_contains_def word_le_nat_alt)
  with merged_intervals_correct [OF ok(1)] show "canonical (map nat_pair (merged_intervals (map v4_bounds (v4 other))))
      \<and> (\<forall>a. unat a \<in> ivals_set (map nat_pair (merged_intervals (map v4_bounds (v4 other))))
        \<longleftrightarrow> V4 a \<in> addrs other)"
    by simp
  have "unat a \<in> ivals_set (map nat_pair (map v6_bounds (v6 other))) \<longleftrightarrow> V6 a \<in> addrs other" for a
    by (auto simp: ivals_set_iff addrs_iff v6_bounds_def ipv6_contains_def word_le_nat_alt)
  with merged_intervals_correct [OF ok(2)] show "canonical (map nat_pair (merged_intervals (map v6_bounds (v6 other))))
      \<and> (\<forall>a. unat a \<in> ivals_set (map nat_pair (merged_intervals (map v6_bounds (v6 other))))
        \<longleftrightarrow> V6 a \<in> addrs other)"
    by simp
qed

text \<open>What one family keeps: the addresses the other set does not hold, on any interface.\<close>

definition kept_from :: "(ip_addr \<times> u32 option) set \<Rightarrow> ip_set \<Rightarrow> (ip_addr \<times> u32 option) set" where
  "kept_from scoped other = {x \<in> scoped. fst x \<notin> addrs other}"

lemma subtract_v4_correct:
  assumes "ip_set_inv s" and "\<not> v4_dirty s" and "ip_set_inv other"
  shows "\<exists>s'. subtract_v4 s other = Some s' \<and> ip_set_inv s' \<and> v4_dirty s' = v4_dirty s
    \<and> v6 s' = v6 s \<and> v6_dirty s' = v6_dirty s
    \<and> scoped4 (v4 s') = kept_from (scoped4 (v4 s)) other"
proof -
  let ?cuts = "merged_intervals (map v4_bounds (v4 other))"
  note cuts = cuts_correct(1) [OF assms(3)]
  show ?thesis
  proof (cases "v4 s \<noteq> [] \<and> ?cuts \<noteq> []")
    case True
    have ok: "\<forall>r \<in> set (v4 s). ok4 r" "canonical (map (nat_bounds v4_bounds) (v4 s))"
      using assms by (simp_all add: ip_set_inv_def flip: v4_canonical_bounds)
    have lane: "map (nat_bounds v4_bounds) rs = map v4_lane.ival_of rs" for rs
      by (simp add: v4_bounds_def)
    from v4_cut.subtract_run_correct [OF ok, of ?cuts] cuts obtain kept where
      kept: "subtract_run v4_bounds rebuild4 (v4 s) ?cuts = Some kept" "\<forall>k \<in> set kept. ok4 k"
        "canonical (map v4_lane.ival_of kept)"
        "v4_lane.points kept = v4_lane.points (v4 s) - ivals_set (map nat_pair ?cuts)"
      unfolding lane by blast
    have in_cuts: "unat a \<in> ivals_set (map nat_pair ?cuts) \<longleftrightarrow> V4 a \<in> addrs other" for a
      using cuts by blast
    have "scoped4 kept = kept_from (scoped4 (v4 s)) other"
      unfolding scoped4_points kept(4) kept_from_def Diff_iff in_cuts by auto
    with kept True assms show ?thesis by (simp add: subtract_v4_def Let_def ip_set_inv_def)
  next
    case False
    then have "scoped4 (v4 s) = kept_from (scoped4 (v4 s)) other"
      by (auto simp: kept_from_def scoped4_def merged_intervals_empty addrs_iff)
    with False assms show ?thesis by (auto simp: subtract_v4_def Let_def)
  qed
qed

lemma scoped6_append: "scoped6 (xs @ ys) = scoped6 xs \<union> scoped6 ys"
  by (auto simp: scoped6_def)

lemma subtract_runs_correct:
  assumes cuts: "canonical (map nat_pair cuts)"
    and holds: "\<forall>a. unat a \<in> ivals_set (map nat_pair cuts) \<longleftrightarrow> V6 a \<in> addrs other"
  shows "(\<forall>run \<in> set runs. (\<exists>z. \<forall>r \<in> set run. zone6 r = z)) \<Longrightarrow>
    canonical (map v6_lane.ival_of (concat runs)) \<Longrightarrow> (\<forall>r \<in> set (concat runs). ok6 r) \<Longrightarrow>
    \<exists>kept. those (map (\<lambda>run. subtract_run v6_bounds rebuild6 run cuts) runs) = Some kept
      \<and> (\<forall>k \<in> set (concat kept). ok6 k \<and> (\<exists>r \<in> set (concat runs). v6_cut.within k r))
      \<and> canonical (map v6_lane.ival_of (concat kept))
      \<and> scoped6 (concat kept) = kept_from (scoped6 (concat runs)) other"
proof (induction runs)
  case Nil
  then show ?case by (auto simp: scoped6_def kept_from_def)
next
  case (Cons run runs)
  obtain z where z: "\<forall>r \<in> set run. zone6 r = z" using Cons.prems(1) by auto
  have apart: "Suc (hi6 r) < lo6 x" if "r \<in> set run" "x \<in> set (concat runs)" for r x
    using Cons.prems(2) that by (auto simp: canonical_append)
  have canon_run: "canonical (map v6_lane.ival_of run)" "canonical (map v6_lane.ival_of (concat runs))"
    using Cons.prems(2) by (simp_all add: canonical_append)
  have ok: "\<forall>r \<in> set run. ok6 r" using Cons.prems(3) by simp
  from v6_cut.subtract_run_correct [OF ok _ cuts] canon_run(1) v6_canonical_bounds [OF z] obtain ks where
    ks: "subtract_run v6_bounds rebuild6 run cuts = Some ks"
      "\<forall>k \<in> set ks. ok6 k \<and> (\<exists>r \<in> set run. v6_cut.within k r)"
      "canonical (map (nat_bounds v6_bounds) ks)"
      "ivals_set (map (nat_bounds v6_bounds) ks)
        = ivals_set (map (nat_bounds v6_bounds) run) - ivals_set (map nat_pair cuts)"
    by blast
  from Cons.IH Cons.prems canon_run(2) obtain kept where
    kept: "those (map (\<lambda>run. subtract_run v6_bounds rebuild6 run cuts) runs) = Some kept"
      "\<forall>k \<in> set (concat kept). ok6 k \<and> (\<exists>r \<in> set (concat runs). v6_cut.within k r)"
      "canonical (map v6_lane.ival_of (concat kept))"
      "scoped6 (concat kept) = kept_from (scoped6 (concat runs)) other"
    by auto
  have zk: "\<forall>k \<in> set ks. zone6 k = z" using ks(2) z by auto
  have inside: "lo6 r \<le> lo6 k \<and> hi6 k \<le> hi6 r" if "v6_cut.within k r" for k r
    using that by (simp add: lo6_def hi6_def v6_bounds_def word_le_nat_alt)
  have "Suc (hi6 k) < lo6 j" if k: "k \<in> set ks" and j: "j \<in> set (concat kept)" for k j
  proof -
    obtain r x where "r \<in> set run" "v6_cut.within k r" "x \<in> set (concat runs)" "v6_cut.within j x"
      using ks(2) k kept(2) j by blast
    with apart [of r x] inside [of k r] inside [of j x] show ?thesis by simp
  qed
  moreover have "canonical (map v6_lane.ival_of ks)"
    using ks(3) v6_canonical_bounds [OF zk] by simp
  ultimately have canon_all: "canonical (map v6_lane.ival_of (concat (ks # kept)))"
    using kept(3) by (auto simp: canonical_append)
  have "scoped6 ks = kept_from (scoped6 run) other"
  proof -
    have members: "scoped6 rs = {(V6 a, z) | a. unat a \<in> ivals_set (map (nat_bounds v6_bounds) rs)}"
      if "\<forall>r \<in> set rs. zone6 r = z" for rs
      using that by (auto simp: scoped6_def ivals_set_iff v6_bounds_def ipv6_contains_def word_le_nat_alt)
    have in_cuts: "unat a \<in> ivals_set (map nat_pair cuts) \<longleftrightarrow> V6 a \<in> addrs other" for a
      using holds by blast
    show ?thesis unfolding members [OF zk] members [OF z] ks(4) kept_from_def Diff_iff in_cuts by auto
  qed
  then have "scoped6 (concat (ks # kept)) = kept_from (scoped6 (concat (run # runs))) other"
    using kept(4) by (auto simp: scoped6_append kept_from_def)
  moreover have "\<forall>k \<in> set (concat (ks # kept)). ok6 k
      \<and> (\<exists>r \<in> set (concat (run # runs)). v6_cut.within k r)"
    using ks(2) kept(2) by fastforce
  moreover have "those (map (\<lambda>run. subtract_run v6_bounds rebuild6 run cuts) (run # runs)) = Some (ks # kept)"
    using ks(1) kept(1) by simp
  ultimately show ?case using canon_all by blast
qed

lemma subtract_v6_correct:
  assumes "ip_set_inv s" and "\<not> v6_dirty s" and "ip_set_inv other"
  shows "\<exists>s'. subtract_v6 s other = Some s' \<and> ip_set_inv s' \<and> v6_dirty s' = v6_dirty s
    \<and> v4 s' = v4 s \<and> v4_dirty s' = v4_dirty s
    \<and> scoped6 (v6 s') = kept_from (scoped6 (v6 s)) other"
proof -
  let ?cuts = "merged_intervals (map v6_bounds (v6 other))"
  note cuts = cuts_correct(2) [OF assms(3)]
  show ?thesis
  proof (cases "v6 s \<noteq> [] \<and> ?cuts \<noteq> []")
    case True
    have ok: "\<forall>r \<in> set (v6 s). ok6 r" "canonical (map v6_lane.ival_of (v6 s))"
      using assms by (simp_all add: ip_set_inv_def)
    have "\<forall>run \<in> set (v6_runs (v6 s)). \<exists>z. \<forall>r \<in> set run. zone6 r = z"
      using v6_runs_zone canonical_zones_sorted [OF ok(2) ok(1)] by blast
    from subtract_runs_correct [OF conjunct1 [OF cuts] conjunct2 [OF cuts] this] ok
    obtain kept where
      kept: "those (map (\<lambda>run. subtract_run v6_bounds rebuild6 run ?cuts) (v6_runs (v6 s))) = Some kept"
        "\<forall>k \<in> set (concat kept). ok6 k" "canonical (map v6_lane.ival_of (concat kept))"
        "scoped6 (concat kept) = kept_from (scoped6 (v6 s)) other"
      unfolding concat_v6_runs by blast
    with True assms show ?thesis by (simp add: subtract_v6_def Let_def ip_set_inv_def)
  next
    case False
    then have "scoped6 (v6 s) = kept_from (scoped6 (v6 s)) other"
      by (auto simp: kept_from_def scoped6_def merged_intervals_empty addrs_iff)
    with False assms show ?thesis by (auto simp: subtract_v6_def Let_def)
  qed
qed

lemma subtract_total:
  assumes "ip_set_inv s" and "ip_set_inv other"
  shows "\<exists>s'. subtract s other = Some s' \<and> ip_set_inv s'
    \<and> scoped_addrs s' = kept_from (scoped_addrs s) other"
proof (cases "is_empty other \<or> is_empty s")
  case True
  then have "scoped_addrs s = kept_from (scoped_addrs s) other"
    by (auto simp: kept_from_def is_empty_def addrs_def scoped_addrs_def scoped4_def scoped6_def)
  with True assms show ?thesis by (auto simp: subtract_def)
next
  case False
  note c = canonicalize_correct [OF assms(1)]
  from subtract_v4_correct [OF c(1,2) assms(2)] obtain s1 where
    s1: "subtract_v4 (canonicalize s) other = Some s1" "ip_set_inv s1"
      "v6 s1 = v6 (canonicalize s)" "v6_dirty s1 = v6_dirty (canonicalize s)"
      "scoped4 (v4 s1) = kept_from (scoped4 (v4 (canonicalize s))) other" by blast
  have "\<not> v6_dirty s1" using s1(4) c(3) by simp
  from subtract_v6_correct [OF s1(2) this assms(2)] obtain s2 where
    s2: "subtract_v6 s1 other = Some s2" "ip_set_inv s2" "v4 s2 = v4 s1"
      "scoped6 (v6 s2) = kept_from (scoped6 (v6 s1)) other" by blast
  have "scoped_addrs s2 = kept_from (scoped_addrs (canonicalize s)) other"
    using s1(3,5) s2(3,4) by (auto simp: scoped_addrs_def kept_from_def)
  with False s1(1) s2(1,2) c(4) show ?thesis by (auto simp: subtract_def)
qed

end
