(* ===== verification/Ip_Set_Correct.thy ===== *)
theory Ip_Set_Correct
  imports Ip_Subtract
begin

text \<open>
  The properties of \<open>IpSet\<close>, each stated over the operations of the source.
\<close>

section \<open>The contract of an IP set\<close>

lemma insert_range_correct:
  assumes "ip_set_inv s" and "range_ok r"
  shows "ip_set_inv (insert_range s r) \<and> scoped_addrs (insert_range s r) = scoped_addrs s \<union> range_addrs r"
  using assms
  by (cases r) (auto simp: ip_set_inv_def push_v4_range_def push_v6_range_def scoped_addrs_def
      scoped4_def scoped6_def)

lemma insert_addr_correct:
  assumes "ip_set_inv s"
  shows "ip_set_inv (insert_addr s ip) \<and> scoped_addrs (insert_addr s ip) = insert (ip, None) (scoped_addrs s)"
  using assms
  by (cases ip) (auto simp: ip_set_inv_def push_v4_range_def push_v6_range_def scoped_addrs_def
      scoped4_def scoped6_def ipv4_single_def ipv6_single_def ok4_def ok6_def ipv4_contains_def
      ipv6_contains_def)

lemma absorb_correct:
  assumes "ip_set_inv m" and "ip_set_inv s"
  shows "ip_set_inv (absorb m s) \<and> scoped_addrs (absorb m s) = scoped_addrs m \<union> scoped_addrs s"
  using assms
  by (auto simp: ip_set_inv_def absorb_def Let_def scoped_addrs_def scoped4_def scoped6_def)

lemma ip_set_new_correct: "ip_set_inv ip_set_new \<and> scoped_addrs ip_set_new = {}"
  by (simp add: ip_set_inv_def ip_set_new_def scoped_addrs_def scoped4_def scoped6_def)

text \<open>Folding an operation that adds to a set, one element at a time.\<close>

lemma foldl_adds:
  assumes step: "\<And>s x. ip_set_inv s \<Longrightarrow> ok x \<Longrightarrow>
      ip_set_inv (f s x) \<and> scoped_addrs (f s x) = scoped_addrs s \<union> g x"
    and "ip_set_inv s" and "\<forall>x \<in> set xs. ok x"
  shows "ip_set_inv (foldl f s xs) \<and> scoped_addrs (foldl f s xs) = scoped_addrs s \<union> (\<Union>x \<in> set xs. g x)"
  using assms(2,3)
proof (induction xs arbitrary: s)
  case (Cons x xs)
  then show ?case using step [of s x] by (simp add: Un_assoc)
qed simp

lemma iter_scoped_lists: "iter_scoped s = scoped_list4 (v4 (eq_merged s)) @ scoped_list6 (v6 (eq_merged s))"
  by (simp add: iter_scoped_def eq_merged_def scoped_list4_def scoped_list6_def Let_def)

lemma lane4_inj: "v4_lane.ival_of a = v4_lane.ival_of b \<Longrightarrow> a = b"
  by (cases a; cases b) (simp add: word_unat_eq_iff)

lemma lane6_inj: "v6_lane.ival_of a = v6_lane.ival_of b \<Longrightarrow> a = b"
  by (cases a; cases b) (simp add: lo6_def hi6_def zone_base_eq)

lemma canonicalize_idle: "\<not> v4_dirty s \<Longrightarrow> \<not> v6_dirty s \<Longrightarrow> canonicalize s = s"
  by (simp add: canonicalize_def canonicalize_v4_def canonicalize_v6_def)

lemma set_iter_lists:
  assumes "ip_set_inv s"
  shows "set_iter s = concat (map ipv4_iter (v4 (eq_merged s))) @ concat (map ipv6_iter (v6 (eq_merged s)))"
  using canonicalize_correct [OF assms]
  by (simp add: set_iter_def eq_merged_def into_iter_def canonicalize_idle Let_def)

lemma map_fst_scoped_list:
  "map fst (scoped_list4 rs4) = concat (map ipv4_iter rs4)"
  "map fst (scoped_list6 rs6) = concat (map ipv6_iter rs6)"
  by (simp_all add: scoped_list4_def scoped_list6_def ipv4_iter_def [abs_def] ipv6_iter_def [abs_def] map_concat comp_def)

text \<open>A set with unmerged IPv4 ranges and IPv6 ranges of two interfaces.\<close>

definition sample_set :: ip_set where
  "sample_set =
     \<lparr>v4 = [\<lparr>start_addr4 = 0x0a000010, end_addr4 = 0x0a00001f\<rparr>,
            \<lparr>start_addr4 = 0x0a000000, end_addr4 = 0x0a00000f\<rparr>],
      v6 = [\<lparr>start_addr6 = 0xfe800000000000000000000000000001,
              end_addr6 = 0xfe800000000000000000000000000009, zone6 = Some 1\<rparr>,
            \<lparr>start_addr6 = 0xfe800000000000000000000000000001,
              end_addr6 = 0xfe800000000000000000000000000004, zone6 = Some 2\<rparr>],
      v4_dirty = True, v6_dirty = False\<rparr>"

lemma sample_set_inv: "ip_set_inv sample_set"
  by (simp add: ip_set_inv_def sample_set_def canonical_def ok4_def ok6_def lo6_def hi6_def)

text \<open>
  Canonicalizing a set of well-formed ranges leaves both families merged, keeps the
  invariant, and changes nothing about which addresses the set holds on which interface.
\<close>

theorem canonicalize_preserves:
  assumes "ip_set_inv s"
  shows "ip_set_inv (canonicalize s) \<and> \<not> v4_dirty (canonicalize s) \<and> \<not> v6_dirty (canonicalize s)
    \<and> scoped_addrs (canonicalize s) = scoped_addrs s"
  using canonicalize_correct [OF assms] by blast

theorem canonicalize_preserves_witness:
  "ip_set_inv sample_set \<and> v4_dirty sample_set \<and> \<not> v4_dirty (canonicalize sample_set)
   \<and> scoped_addrs (canonicalize sample_set) = scoped_addrs sample_set"
  using canonicalize_preserves [OF sample_set_inv] sample_set_inv by (simp add: sample_set_def)

text \<open>
  Membership answers exactly which bare addresses the set holds, whether the address's
  family is merged (binary search, one run per interface) or not (linear scan).
\<close>

theorem contains_correct:
  assumes "ip_set_inv s"
  shows "contains s ip \<longleftrightarrow> ip \<in> addrs s"
  by (rule contains_iff [OF assms])

theorem contains_correct_witness:
  "V4 0x0a000012 \<in> addrs sample_set \<and> V6 0xfe800000000000000000000000000008 \<in> addrs sample_set
   \<and> V6 0xfe80000000000000000000000000000a \<notin> addrs sample_set"
proof -
  have "contains sample_set (V4 0x0a000012)" "contains sample_set (V6 0xfe800000000000000000000000000008)"
    "\<not> contains sample_set (V6 0xfe80000000000000000000000000000a)"
    by code_simp+
  then show ?thesis using contains_correct [OF sample_set_inv] by blast
qed

text \<open>
  C39. Subtraction never panics and is set difference: what is left is every address of the
  first set, on its own interface, that the second holds on no interface at all.
\<close>

theorem subtract_correct:
  assumes "ip_set_inv s" and "ip_set_inv other"
  shows "\<exists>s'. subtract s other = Some s' \<and> ip_set_inv s'
    \<and> scoped_addrs s' = {x \<in> scoped_addrs s. fst x \<notin> addrs other}"
  using subtract_total [OF assms] by (simp add: kept_from_def)

theorem subtract_correct_witness:
  "\<exists>s'. subtract sample_set (from_addr (V6 0xfe800000000000000000000000000002)) = Some s'
     \<and> scoped_addrs s' = {x \<in> scoped_addrs sample_set.
         fst x \<notin> addrs (from_addr (V6 0xfe800000000000000000000000000002))}
     \<and> \<not> contains s' (V6 0xfe800000000000000000000000000002)"
proof -
  let ?other = "from_addr (V6 0xfe800000000000000000000000000002)"
  have inv: "ip_set_inv ?other"
    by (simp add: ip_set_inv_def from_addr_def ip_set_new_def push_v6_range_def ipv6_single_def ok6_def)
  from subtract_correct [OF sample_set_inv inv] obtain s' where
    s': "subtract sample_set ?other = Some s'" "ip_set_inv s'"
      "scoped_addrs s' = {x \<in> scoped_addrs sample_set. fst x \<notin> addrs ?other}" by blast
  have "V6 0xfe800000000000000000000000000002 \<in> addrs ?other"
    by (simp add: addrs_iff from_addr_def push_v6_range_def ipv6_single_def ipv6_contains_def)
  then have "V6 0xfe800000000000000000000000000002 \<notin> addrs s'"
    unfolding addrs_def [of s'] s'(3) by auto
  with s' contains_iff [OF s'(2)] show ?thesis by auto
qed

text \<open>
  Collecting addresses, ranges or whole sets yields a merged set that holds exactly what was
  collected: the union, each address on the interface it was given with.
\<close>

theorem collecting_correct:
  assumes "\<forall>r \<in> set rs. range_ok r" and "\<forall>s \<in> set ss. ip_set_inv s"
  shows "ip_set_inv (from_ranges rs) \<and> scoped_addrs (from_ranges rs) = (\<Union>r \<in> set rs. range_addrs r)
    \<and> ip_set_inv (from_sets ss) \<and> scoped_addrs (from_sets ss) = (\<Union>s \<in> set ss. scoped_addrs s)
    \<and> ip_set_inv (from_addrs ips) \<and> scoped_addrs (from_addrs ips) = (\<lambda>ip. (ip, None)) ` set ips"
proof -
  note new = ip_set_new_correct
  have r: "ip_set_inv (foldl insert_range ip_set_new rs)
      \<and> scoped_addrs (foldl insert_range ip_set_new rs) = (\<Union>r \<in> set rs. range_addrs r)"
    using foldl_adds [of range_ok insert_range range_addrs ip_set_new rs] insert_range_correct assms(1) new
    by simp
  have s: "ip_set_inv (foldl absorb ip_set_new ss)
      \<and> scoped_addrs (foldl absorb ip_set_new ss) = (\<Union>s \<in> set ss. scoped_addrs s)"
    using foldl_adds [of ip_set_inv absorb scoped_addrs ip_set_new ss] absorb_correct assms(2) new
    by simp
  have a: "ip_set_inv (foldl insert_addr ip_set_new ips)
      \<and> scoped_addrs (foldl insert_addr ip_set_new ips) = (\<lambda>ip. (ip, None)) ` set ips"
    using foldl_adds [of "\<lambda>_. True" insert_addr "\<lambda>ip. {(ip, None)}" ip_set_new ips] insert_addr_correct new
    by auto
  show ?thesis
    unfolding from_ranges_def from_sets_def from_addrs_def extend_set_def
    using r s a canonicalize_correct by simp
qed

theorem collecting_correct_witness:
  "scoped_addrs (from_ranges [RangeV4 \<lparr>start_addr4 = 9, end_addr4 = 12\<rparr>, RangeV4 \<lparr>start_addr4 = 3, end_addr4 = 8\<rparr>])
     = scoped4 [\<lparr>start_addr4 = 9, end_addr4 = 12\<rparr>] \<union> scoped4 [\<lparr>start_addr4 = 3, end_addr4 = 8\<rparr>]
   \<and> v4 (from_ranges [RangeV4 \<lparr>start_addr4 = 9, end_addr4 = 12\<rparr>, RangeV4 \<lparr>start_addr4 = 3, end_addr4 = 8\<rparr>])
     = [\<lparr>start_addr4 = 3, end_addr4 = 12\<rparr>]
   \<and> scoped_addrs (from_sets [sample_set, sample_set]) = scoped_addrs sample_set"
proof
  let ?rs = "[RangeV4 \<lparr>start_addr4 = 9, end_addr4 = 12\<rparr>, RangeV4 \<lparr>start_addr4 = 3, end_addr4 = 8\<rparr>]"
  have ok: "\<forall>r \<in> set ?rs. range_ok r" by (simp add: ok4_def)
  have inv: "\<forall>s \<in> set [sample_set, sample_set]. ip_set_inv s" by (simp add: sample_set_inv)
  note c = collecting_correct [OF ok inv, of "[]"]
  show "scoped_addrs (from_ranges ?rs)
     = scoped4 [\<lparr>start_addr4 = 9, end_addr4 = 12\<rparr>] \<union> scoped4 [\<lparr>start_addr4 = 3, end_addr4 = 8\<rparr>]"
    using c by auto
  have "v4 (from_ranges ?rs) = [\<lparr>start_addr4 = 3, end_addr4 = 12\<rparr>]" by code_simp
  then show "v4 (from_ranges ?rs) = [\<lparr>start_addr4 = 3, end_addr4 = 12\<rparr>]
      \<and> scoped_addrs (from_sets [sample_set, sample_set]) = scoped_addrs sample_set"
    using c by auto
qed

text \<open>
  The length is the number of addresses held, one per interface, saturating at
  \<open>u128::MAX\<close>; the gross length never falls below it.
\<close>

theorem set_len_correct:
  assumes "ip_set_inv s"
  shows "unat (set_len s) = min (card (scoped_addrs s)) (2 ^ 128 - 1) \<and> set_len s \<le> len_gross s"
proof -
  note m = eq_merged_correct [OF assms]
  have "unat (set_len s) = min (card (scoped_addrs s)) (2 ^ 128 - 1)"
    using unat_len_gross [OF m(1)] card_scoped_addrs [OF m(1-3)] m(4)
    by (simp only: set_len_canonical)
  moreover have "card (scoped_addrs s) \<le> (\<Sum>r\<leftarrow>v4 s. Suc (hi4 r) - lo4 r) + (\<Sum>r\<leftarrow>v6 s. Suc (hi6 r) - lo6 r)"
    by (rule card_scoped_le)
  ultimately show ?thesis
    using unat_len_gross [OF assms] unfolding word_le_nat_alt by (simp only:) simp
qed

theorem set_len_correct_witness:
  "card (scoped_addrs sample_set) = 45 \<and> set_len sample_set = 45"
proof -
  have "set_len sample_set = 45" by code_simp
  then show ?thesis using set_len_correct [OF sample_set_inv] by (auto simp: min_def split: if_splits)
qed

text \<open>
  The scoped enumeration yields every address the set holds exactly once, on its interface;
  the bare enumeration is the same walk with the interfaces dropped.
\<close>

theorem iter_correct:
  assumes "ip_set_inv s"
  shows "distinct (iter_scoped s) \<and> set (iter_scoped s) = scoped_addrs s
    \<and> set_iter s = map fst (iter_scoped s) \<and> set (set_iter s) = addrs s"
proof -
  note m = eq_merged_correct [OF assms]
  let ?t = "eq_merged s"
  have "distinct (map line_pos (scoped_list4 (v4 ?t)))" "distinct (map line_pos (scoped_list6 (v6 ?t)))"
    using m(1-3) unfolding line_pos_list4 line_pos_list6
    by (auto intro!: enum_ivals_distinct simp: ip_set_inv_def)
  then have "distinct (iter_scoped s)"
    by (auto simp: iter_scoped_lists distinct_map set_scoped_list scoped4_def scoped6_def)
  moreover have set: "set (iter_scoped s) = scoped_addrs s"
    unfolding m(4) [symmetric] by (simp add: iter_scoped_lists set_scoped_list scoped_addrs_def)
  moreover have "set_iter s = map fst (iter_scoped s)"
    by (simp add: set_iter_lists [OF assms] iter_scoped_lists map_fst_scoped_list)
  ultimately show ?thesis by (simp add: addrs_def)
qed

theorem iter_correct_witness:
  "set (iter_scoped sample_set) = scoped_addrs sample_set
   \<and> length (filter (\<lambda>x. fst x = V6 0xfe800000000000000000000000000002) (iter_scoped sample_set)) = 2"
proof
  show "set (iter_scoped sample_set) = scoped_addrs sample_set"
    using iter_correct [OF sample_set_inv] by blast
  show "length (filter (\<lambda>x. fst x = V6 0xfe800000000000000000000000000002) (iter_scoped sample_set)) = 2"
    by (simp add: iter_scoped_def sample_set_def canonicalize_def canonicalize_v4_def canonicalize_v6_def
        merge_v4_def joins4_def grow4_def ipv4_extend_end_to_def saturating_add_def range_inclusive_def)
qed

text \<open>
  Equality of sets is equality of what they hold: two sets compare equal exactly when they
  hold the same addresses on the same interfaces, whatever ranges they were built from.
\<close>

theorem ip_set_eq_iff:
  assumes "ip_set_inv s" and "ip_set_inv t"
  shows "ip_set_eq s t \<longleftrightarrow> scoped_addrs s = scoped_addrs t"
proof
  assume "ip_set_eq s t"
  then have "scoped_addrs (eq_merged s) = scoped_addrs (eq_merged t)"
    by (simp add: ip_set_eq_def scoped_addrs_def)
  then show "scoped_addrs s = scoped_addrs t"
    using eq_merged_correct(4) assms by simp
next
  assume eq: "scoped_addrs s = scoped_addrs t"
  note ms = eq_merged_correct [OF assms(1)] and mt = eq_merged_correct [OF assms(2)]
  let ?s = "eq_merged s" and ?t = "eq_merged t"
  have "scoped_addrs ?s = scoped_addrs ?t" using eq ms(4) mt(4) by simp
  then have sc: "scoped4 (v4 ?s) = scoped4 (v4 ?t)" "scoped6 (v6 ?s) = scoped6 (v6 ?t)"
    by (simp_all only: scoped_split)
  then have "v4_lane.points (v4 ?s) = v4_lane.points (v4 ?t)" "v6_lane.points (v6 ?s) = v6_lane.points (v6 ?t)"
    by (metis line_pos_image(1), metis line_pos_image(2))
  then have "map v4_lane.ival_of (v4 ?s) = map v4_lane.ival_of (v4 ?t)"
    "map v6_lane.ival_of (v6 ?s) = map v6_lane.ival_of (v6 ?t)"
    using ms(1-3) mt(1-3) by (auto intro!: canonical_unique simp: ip_set_inv_def)
  then show "ip_set_eq s t"
    unfolding ip_set_eq_def using lane4_inj lane6_inj
    by (metis (no_types, lifting) list.inj_map_strong)
qed

theorem ip_set_eq_iff_witness:
  "scoped_addrs (from_ranges [RangeV4 \<lparr>start_addr4 = 3, end_addr4 = 12\<rparr>])
     = scoped_addrs (push_v4_range (from_range (RangeV4 \<lparr>start_addr4 = 9, end_addr4 = 12\<rparr>))
         \<lparr>start_addr4 = 3, end_addr4 = 8\<rparr>)"
proof -
  let ?s = "from_ranges [RangeV4 \<lparr>start_addr4 = 3, end_addr4 = 12\<rparr>]"
  let ?t = "push_v4_range (from_range (RangeV4 \<lparr>start_addr4 = 9, end_addr4 = 12\<rparr>)) \<lparr>start_addr4 = 3, end_addr4 = 8\<rparr>"
  have "ip_set_inv ?s" "ip_set_inv ?t"
    by (simp_all add: ip_set_inv_def from_ranges_def from_range_def ip_set_new_def push_v4_range_def
        canonicalize_def canonicalize_v4_def canonicalize_v6_def merge_v4_def canonical_def ok4_def)
  moreover have "ip_set_eq ?s ?t" by code_simp
  ultimately show ?thesis using ip_set_eq_iff [of ?s ?t] by blast
qed

end
