(* ===== verification/Positions_Correct.thy ===== *)
theory Positions_Correct
  imports Positions Ip_Set_Correct
begin

text \<open>
  The correctness of \<open>Positions\<close>: the numbered ranges are a prefix of the set's ranges, each
  span knows where its addresses start in the enumeration, and the lookups agree with indexing
  the enumeration itself.
\<close>

section \<open>The enumeration of a range\<close>

fun range_scoped :: "ip_range \<Rightarrow> (ip_addr \<times> u32 option) list" where
  "range_scoped (RangeV4 r) = map (\<lambda>ip. (V4 ip, None)) (range_inclusive (start_addr4 r) (end_addr4 r))"
| "range_scoped (RangeV6 r) = map (\<lambda>ip. (V6 ip, zone6 r)) (range_inclusive (start_addr6 r) (end_addr6 r))"

abbreviation rsize :: "ip_range \<Rightarrow> nat" where
  "rsize r \<equiv> length (range_scoped r)"

abbreviation set_ranges :: "ip_set \<Rightarrow> ip_range list" where
  "set_ranges s \<equiv> map RangeV4 (v4 s) @ map RangeV6 (v6 s)"

lemma iter_scoped_ranges: "iter_scoped s = concat (map range_scoped (set_ranges (eq_merged s)))"
  by (simp add: iter_scoped_lists scoped_list4_def scoped_list6_def comp_def)

lemma length_range_inclusive [simp]: "length (range_inclusive a b) = Suc (unat b) - unat a"
  by (simp add: range_inclusive_def del: upt_Suc)

lemma range_inclusive_nth:
  "i < Suc (unat b) - unat a \<Longrightarrow> range_inclusive a b ! i = a + of_nat i" for a b :: "'a::len word"
  by (simp add: range_inclusive_def del: upt_Suc)

lemma rsize_bounds: "rsize r = Suc (unat (snd (bounds r))) - unat (fst (bounds r))"
  by (cases r) (simp_all add: v4_bounds_def)

lemma bounds_le: "range_ok r \<Longrightarrow> unat (fst (bounds r)) \<le> unat (snd (bounds r))"
  by (cases r) (simp_all add: v4_bounds_def ok4_def ok6_def word_le_nat_alt)

lemma rsize_pos: "range_ok r \<Longrightarrow> 0 < rsize r"
  using bounds_le [of r] by (simp add: rsize_bounds)

lemma unat_range_len: "range_ok r \<Longrightarrow> unat (range_len r) = min (rsize r) (2 ^ 128 - 1)"
proof (cases r)
  case (RangeV4 x)
  assume "range_ok r"
  then show ?thesis
    using RangeV4 unat_ipv4_len [of x] unat_bounds(2) [of "end_addr4 x"] by simp
next
  case (RangeV6 x)
  assume "range_ok r"
  then show ?thesis using RangeV6 unat_ipv6_len [of x] by simp
qed

lemma try_u64_Some: "try_u64 x = Some y \<longleftrightarrow> unat x < 2 ^ 64 \<and> unat y = unat x"
proof -
  have "x \<le> 0xffffffffffffffff \<longleftrightarrow> unat x < 2 ^ 64" by (auto simp: word_le_nat_alt)
  moreover have "unat x < 2 ^ 64 \<Longrightarrow> unat (ucast x :: u64) = unat x" by (rule unat_ucast_narrow) simp
  ultimately show ?thesis by (auto simp: try_u64_def word_unat_eq_iff)
qed

lemma range_scoped_nth:
  assumes "i < rsize r"
  shows "range_scoped r ! i =
    (case r of RangeV4 x \<Rightarrow> (V4 (start_addr4 x + of_nat i), None)
             | RangeV6 x \<Rightarrow> (V6 (start_addr6 x + of_nat i), zone6 x))"
  using assms by (cases r) (simp_all add: range_inclusive_nth)

lemma address_within_nth:
  "address_within r off =
     (if unat off < rsize r then Some (fst (range_scoped r ! unat off)) else None)"
proof -
  let ?s = "unat (fst (bounds r))" and ?e = "unat (snd (bounds r))"
  have fits: "unat off < rsize r \<longleftrightarrow> ?s + unat off \<le> ?e" by (auto simp: rsize_bounds)
  show ?thesis
  proof (cases "?s + unat off \<le> ?e")
    case True
    then have lt: "?s + unat off < 2 ^ 128" using unat_bounds(4) [of "snd (bounds r)"] by simp
    then have add: "checked_add (fst (bounds r)) (ucast off) = Some (fst (bounds r) + ucast off)"
      and sum: "unat (fst (bounds r) + ucast off) = ?s + unat off"
      by (simp_all add: checked_add_Some unat_add_lt)
    have le: "\<not> fst (bounds r) + ucast off > snd (bounds r)"
      using True by (simp add: word_less_nat_alt sum)
    show ?thesis
    proof (cases r)
      case (RangeV4 x)
      have e: "?e < 2 ^ 32" using unat_bounds(2) [of "end_addr4 x"] RangeV4 by (simp add: v4_bounds_def)
      have "unat (ucast (fst (bounds r) + ucast off) :: u32) = unat (start_addr4 x) + unat off"
        using True e sum RangeV4 by (subst unat_ucast_narrow) (simp_all add: v4_bounds_def)
      moreover have "unat (start_addr4 x + of_nat (unat off)) = unat (start_addr4 x) + unat off"
      proof -
        have "unat (ucast off :: u32) = unat off"
          using True e RangeV4 by (intro unat_ucast_narrow) (simp add: v4_bounds_def)
        then show ?thesis using True e RangeV4 by (subst unat_add_lt) (simp_all add: v4_bounds_def)
      qed
      ultimately have "(ucast (fst (bounds r) + ucast off) :: u32) = start_addr4 x + of_nat (unat off)"
        by (simp add: word_unat_eq_iff)
      moreover have "fst (bounds r) + ucast off \<le> 0xffffffff"
        using True e by (simp add: word_le_nat_alt sum)
      ultimately show ?thesis
        using True add le fits RangeV4 range_scoped_nth [of "unat off" r]
        by (simp add: address_within_def del: bounds.simps)
    next
      case (RangeV6 x)
      have "(ucast off :: u128) = of_nat (unat off)" by simp
      then show ?thesis
        using True add le fits RangeV6 range_scoped_nth [of "unat off" r]
        by (simp add: address_within_def del: of_nat_unat)
    qed
  next
    case False
    have "at > snd (bounds r)" if "checked_add (fst (bounds r)) (ucast off) = Some at" for at
    proof -
      from that have "unat at = ?s + unat (ucast off :: u128)"
        unfolding checked_add_Some by (simp add: unat_add_lt)
      with False show ?thesis by (simp add: word_less_nat_alt)
    qed
    with False fits show ?thesis by (auto simp: address_within_def split: option.splits)
  qed
qed

lemma slice_of_scoped:
  assumes "range_ok r" and "unat i \<le> unat j" and "unat j < rsize r"
  shows "\<exists>part. slice_of r i j = Some part \<and> range_ok part
    \<and> range_scoped part = take (Suc (unat j) - unat i) (drop (unat i) (range_scoped r))"
proof (cases r)
  case (RangeV4 x)
  let ?a = "start_addr4 x + of_nat (unat i)" and ?b = "start_addr4 x + of_nat (unat j)"
  have e: "unat (start_addr4 x) + unat j \<le> unat (end_addr4 x)"
    using assms(3) RangeV4 by simp
  then have lt: "unat (start_addr4 x) + unat j < 2 ^ 32" using unat_bounds(2) [of "end_addr4 x"] by simp
  have n: "unat (of_nat (unat i) :: u32) = unat i" "unat (of_nat (unat j) :: u32) = unat j"
    using lt assms(2) by (auto simp del: of_nat_unat intro: unat_of_nat_lt)
  have u: "unat ?a = unat (start_addr4 x) + unat i" "unat ?b = unat (start_addr4 x) + unat j"
    using lt assms(2) n by (auto simp: unat_add_lt simp del: of_nat_unat)
  have addr: "address_within r i = Some (V4 ?a)" "address_within r j = Some (V4 ?b)"
    using assms range_scoped_nth [of "unat i" r] range_scoped_nth [of "unat j" r] RangeV4
    unfolding address_within_nth by auto
  have "?a \<le> ?b" using u assms(2) by (simp add: word_le_nat_alt del: of_nat_unat)
  then have slice: "slice_of r i j = Some (RangeV4 \<lparr>start_addr4 = ?a, end_addr4 = ?b\<rparr>)"
    using addr RangeV4 by (simp add: slice_of_def ipv4_new_def del: of_nat_unat)
  have "range_inclusive ?a ?b = take (Suc (unat j) - unat i) (drop (unat i) (range_inclusive (start_addr4 x) (end_addr4 x)))"
    unfolding range_inclusive_def u
    using e assms(2) by (simp add: take_map drop_map drop_upt take_upt del: upt_Suc of_nat_unat)
  then show ?thesis
    using slice RangeV4 \<open>?a \<le> ?b\<close> by (simp add: ok4_def take_map drop_map del: of_nat_unat)
next
  case (RangeV6 x)
  let ?a = "start_addr6 x + of_nat (unat i)" and ?b = "start_addr6 x + of_nat (unat j)"
  have e: "unat (start_addr6 x) + unat j \<le> unat (end_addr6 x)"
    using assms(3) RangeV6 by simp
  then have lt: "unat (start_addr6 x) + unat j < 2 ^ 128" using unat_bounds(4) [of "end_addr6 x"] by simp
  have n: "unat (of_nat (unat i) :: u128) = unat i" "unat (of_nat (unat j) :: u128) = unat j"
    using lt assms(2) by (auto simp del: of_nat_unat intro: unat_of_nat_lt)
  have u: "unat ?a = unat (start_addr6 x) + unat i" "unat ?b = unat (start_addr6 x) + unat j"
    using lt assms(2) n by (auto simp: unat_add_lt simp del: of_nat_unat)
  have addr: "address_within r i = Some (V6 ?a)" "address_within r j = Some (V6 ?b)"
    using assms range_scoped_nth [of "unat i" r] range_scoped_nth [of "unat j" r] RangeV6
    unfolding address_within_nth by auto
  have "?a \<le> ?b" using u assms(2) by (simp add: word_le_nat_alt del: of_nat_unat)
  then have slice: "slice_of r i j = Some (RangeV6 \<lparr>start_addr6 = ?a, end_addr6 = ?b, zone6 = zone6 x\<rparr>)"
    using addr RangeV6 assms(1)
    by (cases "zone6 x") (auto simp: slice_of_def ipv6_scoped_def ok6_def simp del: of_nat_unat)
  have "range_inclusive ?a ?b = take (Suc (unat j) - unat i) (drop (unat i) (range_inclusive (start_addr6 x) (end_addr6 x)))"
    unfolding range_inclusive_def u
    using e assms(2) by (simp add: take_map drop_map drop_upt take_upt del: upt_Suc of_nat_unat)
  then show ?thesis
    using slice RangeV6 \<open>?a \<le> ?b\<close> assms(1) by (simp add: ok6_def take_map drop_map del: of_nat_unat)
qed

section \<open>Numbered spans\<close>

text \<open>Spans that follow each other, the first at position \<open>k\<close>.\<close>

fun numbered :: "nat \<Rightarrow> span list \<Rightarrow> bool" where
  "numbered k [] \<longleftrightarrow> True"
| "numbered k (sp # rest) \<longleftrightarrow>
     range_ok (span_range sp) \<and> unat (span_start sp) = k \<and> unat (span_len sp) = rsize (span_range sp)
     \<and> numbered (k + rsize (span_range sp)) rest"

abbreviation span_addrs :: "span list \<Rightarrow> (ip_addr \<times> u32 option) list" where
  "span_addrs sps \<equiv> concat (map (\<lambda>sp. range_scoped (span_range sp)) sps)"

lemma numbered_append:
  "numbered k (xs @ ys) \<longleftrightarrow> numbered k xs \<and> numbered (k + length (span_addrs xs)) ys"
  by (induction xs arbitrary: k) (auto simp: add.assoc)

lemma numbered_sorted:
  "numbered k sps \<Longrightarrow> (\<forall>sp \<in> set sps. k \<le> unat (span_start sp))
     \<and> sorted_wrt (\<lambda>a b. unat (span_start a) + unat (span_len a) \<le> unat (span_start b)) sps"
proof (induction sps arbitrary: k)
  case (Cons sp sps)
  then have "numbered (k + rsize (span_range sp)) sps" by simp
  from Cons.IH [OF this] Cons.prems show ?case by auto
qed simp

lemma numbered_nth:
  assumes "numbered k sps" and "i < length sps"
  shows "unat (span_start (sps ! i)) = k + length (span_addrs (take i sps))"
    "unat (span_len (sps ! i)) = rsize (span_range (sps ! i))" "range_ok (span_range (sps ! i))"
proof -
  have "numbered k (take i sps @ sps ! i # drop (Suc i) sps)"
    using assms by (simp add: id_take_nth_drop [symmetric])
  then show "unat (span_start (sps ! i)) = k + length (span_addrs (take i sps))"
    "unat (span_len (sps ! i)) = rsize (span_range (sps ! i))" "range_ok (span_range (sps ! i))"
    unfolding numbered_append by simp_all
qed

definition numbers :: "'m positions_scheme \<Rightarrow> ip_range list \<Rightarrow> bool" where
  "numbers p rs \<longleftrightarrow>
     rs = map span_range (spans p) @ unnumbered p \<and> numbered 0 (spans p)
     \<and> unat (total p) = length (span_addrs (spans p))"

lemma number_range_numbers:
  assumes "numbers st rs" and "range_ok r"
  shows "numbers (number_range st r) (rs @ [r])"
proof (cases "unnumbered st = [] \<and> (\<exists>len t. try_u64 (range_len r) = Some len \<and> checked_add (total st) len = Some t)")
  case True
  then obtain len t where len: "unnumbered st = []" "try_u64 (range_len r) = Some len"
    "checked_add (total st) len = Some t" by blast
  have "unat len = rsize r"
    using len(2) unat_range_len [OF assms(2)] by (auto simp: try_u64_Some min_def split: if_splits)
  moreover from len(3) have "unat t = unat (total st) + unat len"
    by (auto simp: checked_add_Some unat_add_lt)
  ultimately show ?thesis
    using assms len by (simp add: numbers_def number_range_def Let_def numbered_append)
next
  case False
  then have "number_range st r = st\<lparr>unnumbered := unnumbered st @ [r]\<rparr>"
    by (auto simp: number_range_def split: option.splits)
  with assms show ?thesis by (simp add: numbers_def)
qed

lemma numbers_foldl:
  "numbers st rs \<Longrightarrow> (\<forall>r \<in> set rs'. range_ok r) \<Longrightarrow> numbers (foldl number_range st rs') (rs @ rs')"
proof (induction rs' arbitrary: st rs)
  case (Cons r rs')
  from Cons.IH [OF number_range_numbers [OF Cons.prems(1)]] Cons.prems(2) show ?case by simp
qed simp

lemma set_ranges_ok: "ip_set_inv s \<Longrightarrow> \<forall>r \<in> set (set_ranges s). range_ok r"
  by (auto simp: ip_set_inv_def)

lemma positions_of_merged: "positions_of s = of_canonical (eq_merged s)"
  by (simp add: positions_of_def eq_merged_def)

lemma positions_numbers:
  assumes "ip_set_inv s"
  shows "numbers (positions_of s) (set_ranges (eq_merged s))"
proof -
  let ?init = "\<lparr>spans = [], runs = [], total = 0, unnumbered = [], group = None\<rparr> :: numbering"
  have "numbers ?init []" by (simp add: numbers_def)
  from numbers_foldl [OF this set_ranges_ok [OF eq_merged_correct(1) [OF assms]]]
  have "numbers (foldl number_range ?init (set_ranges (eq_merged s))) (set_ranges (eq_merged s))"
    by (simp only: append_Nil)
  moreover have "spans (positions_of s) = spans (foldl number_range ?init (set_ranges (eq_merged s)))"
    "total (positions_of s) = total (foldl number_range ?init (set_ranges (eq_merged s)))"
    "unnumbered (positions_of s) = unnumbered (foldl number_range ?init (set_ranges (eq_merged s)))"
    by (simp_all only: positions_of_merged of_canonical_def Let_def positions.simps)
  ultimately show ?thesis unfolding numbers_def by (simp only:)
qed

lemma enumeration_split:
  assumes "ip_set_inv s"
  shows "iter_scoped s = span_addrs (spans (positions_of s))
    @ concat (map range_scoped (unnumbered (positions_of s)))"
proof -
  have "set_ranges (eq_merged s) = map span_range (spans (positions_of s)) @ unnumbered (positions_of s)"
    using positions_numbers [OF assms] unfolding numbers_def by blast
  then show ?thesis unfolding iter_scoped_ranges by (simp add: comp_def)
qed

section \<open>From a position to an address\<close>

lemma concat_take_nth:
  "i < length xss \<Longrightarrow> j < length (xss ! i) \<Longrightarrow> concat xss ! (length (concat (take i xss)) + j) = xss ! i ! j"
proof (induction xss arbitrary: i)
  case (Cons xs xss)
  then show ?case by (cases i) (auto simp: nth_append)
qed simp

lemma find_span:
  assumes "n < length (concat xss)"
  shows "\<exists>i < length xss. length (concat (take i xss)) \<le> n \<and> n < length (concat (take i xss)) + length (xss ! i)"
  using assms
proof (induction xss arbitrary: n)
  case (Cons xs xss)
  show ?case
  proof (cases "n < length xs")
    case True
    then show ?thesis by (intro exI [of _ 0]) simp
  next
    case False
    with Cons.prems have "n - length xs < length (concat xss)" by simp
    from Cons.IH [OF this] obtain i where "i < length xss" "length (concat (take i xss)) \<le> n - length xs"
      "n - length xs < length (concat (take i xss)) + length (xss ! i)" by blast
    with False show ?thesis by (intro exI [of _ "Suc i"]) auto
  qed
qed simp

lemma span_at_correct:
  assumes "numbers p rs" and "position < total p"
  shows "\<exists>i < length (spans p). span_at p position = Some i
    \<and> unat (span_start (spans p ! i)) \<le> unat position
    \<and> unat position < unat (span_start (spans p ! i)) + rsize (span_range (spans p ! i))"
proof -
  let ?f = "\<lambda>sp. if span_start sp + span_len sp \<le> position then Less
                 else if span_start sp > position then Greater else Equal"
  have num: "numbered 0 (spans p)" and tot: "unat (total p) = length (span_addrs (spans p))"
    using assms(1) by (auto simp: numbers_def)
  have fits: "unat (span_start sp + span_len sp) = unat (span_start sp) + unat (span_len sp)"
    if sp: "sp \<in> set (spans p)" for sp
  proof -
    obtain i where i: "i < length (spans p)" "sp = spans p ! i" using sp by (auto simp: in_set_conv_nth)
    note n = numbered_nth [OF num i(1)]
    have "spans p = take i (spans p) @ sp # drop (Suc i) (spans p)" using i by (simp add: id_take_nth_drop [symmetric])
    then have "length (span_addrs (spans p)) = length (span_addrs (take i (spans p))) + rsize (span_range sp)
        + length (span_addrs (drop (Suc i) (spans p)))"
      by (metis (no_types, lifting) concat.simps(2) concat_append length_append list.simps(9) map_append add.assoc)
    then have "unat (span_start sp) + unat (span_len sp) \<le> unat (total p)"
      using n i(2) tot by simp
    then show ?thesis using unat_bounds(3) [of "total p"] by (intro unat_add_lt) simp
  qed
  have "cmp_sorted ?f (spans p)"
    unfolding cmp_sorted_def
  proof (rule sorted_wrt_mono_rel)
    show "sorted_wrt (\<lambda>a b. unat (span_start a) + unat (span_len a) \<le> unat (span_start b)) (spans p)"
      using numbered_sorted [OF num] by blast
  qed (auto simp: word_le_nat_alt word_less_nat_alt fits)
  from binary_search_finds [OF this]
  have found: "(\<exists>k. binary_search_by ?f (spans p) = Inr k) \<longleftrightarrow> (\<exists>sp \<in> set (spans p). ?f sp = Equal)" .
  have equal: "?f sp = Equal \<longleftrightarrow> unat (span_start sp) \<le> unat position
      \<and> unat position < unat (span_start sp) + unat (span_len sp)" if "sp \<in> set (spans p)" for sp
    using fits [OF that] by (auto simp: word_le_nat_alt word_less_nat_alt)
  have "unat position < length (span_addrs (spans p))" using assms(2) tot by (simp add: word_less_nat_alt)
  from find_span [OF this] obtain i where "i < length (spans p)"
    "length (span_addrs (take i (spans p))) \<le> unat position"
    "unat position < length (span_addrs (take i (spans p))) + rsize (span_range (spans p ! i))"
    by (auto simp: take_map)
  then have "?f (spans p ! i) = Equal"
    using equal [of "spans p ! i"] numbered_nth [OF num, of i] by simp
  with found \<open>i < length (spans p)\<close> obtain k where k: "binary_search_by ?f (spans p) = Inr k"
    using nth_mem by blast
  from binary_search_Ok [OF this] equal [of "spans p ! k"] numbered_nth(2) [OF num, of k] k assms(2)
  show ?thesis by (intro exI [of _ k]) (auto simp: span_at_def)
qed

lemma address_at_nth:
  assumes "numbers p rs"
  shows "address_at p position =
    (if position < total p then Some (fst (span_addrs (spans p) ! unat position)) else None)"
proof (cases "position < total p")
  case True
  from span_at_correct [OF assms this] obtain i where
    i: "i < length (spans p)" "span_at p position = Some i" "unat (span_start (spans p ! i)) \<le> unat position"
      "unat position < unat (span_start (spans p ! i)) + rsize (span_range (spans p ! i))" by blast
  have num: "numbered 0 (spans p)" using assms by (simp add: numbers_def)
  let ?sp = "spans p ! i"
  have off: "unat (position - span_start ?sp) = unat position - unat (span_start ?sp)"
    using i(3) by (simp add: unat_sub word_le_nat_alt)
  have "span_addrs (spans p) ! unat position = range_scoped (span_range ?sp) ! (unat position - unat (span_start ?sp))"
    using concat_take_nth [of i "map (\<lambda>sp. range_scoped (span_range sp)) (spans p)"
        "unat position - unat (span_start ?sp)"] i numbered_nth(1) [OF num i(1)]
    by (simp add: take_map)
  then show ?thesis
    using True i by (simp add: address_at_def Let_def address_within_nth off)
next
  case False
  then show ?thesis by (simp add: address_at_def span_at_def not_less)
qed

section \<open>A stretch of positions as ranges\<close>

lemma ranges_loop_correct:
  "numbered k sps \<Longrightarrow> unat stop \<le> k + length (span_addrs sps) \<Longrightarrow> unat wanted < unat stop \<Longrightarrow>
   (sps \<noteq> [] \<longrightarrow> unat wanted < k + rsize (span_range (hd sps))) \<Longrightarrow>
   (\<forall>r \<in> set (ranges_loop wanted stop sps). range_ok r)
   \<and> concat (map range_scoped (ranges_loop wanted stop sps))
     = take (unat stop - max (unat wanted) k) (drop (unat wanted - k) (span_addrs sps))"
proof (induction sps arbitrary: k)
  case (Cons sp sps)
  let ?R = "range_scoped (span_range sp)"
  have sp: "range_ok (span_range sp)" "unat (span_start sp) = k" "unat (span_len sp) = length ?R"
    "numbered (k + length ?R) sps" using Cons.prems(1) by auto
  show ?case
  proof (cases "unat stop \<le> k")
    case True
    then show ?thesis using sp by (simp add: word_le_nat_alt)
  next
    case False
    let ?from = "saturating_sub wanted (span_start sp)"
    let ?to = "min (stop - span_start sp) (span_len sp) - 1"
    have u: "unat (stop - span_start sp) = unat stop - k"
      using False sp by (simp add: unat_sub word_le_nat_alt)
    then have m: "unat (min (stop - span_start sp) (span_len sp)) = min (unat stop - k) (length ?R)"
      using sp by (simp add: min_def word_le_nat_alt)
    have pos: "0 < min (unat stop - k) (length ?R)"
      using False rsize_pos [OF sp(1)] by simp
    have "unat (min (stop - span_start sp) (span_len sp)) \<noteq> 0" unfolding m using pos by linarith
    then have "min (stop - span_start sp) (span_len sp) \<noteq> 0" by (metis unat_0)
    then have to: "unat ?to = min (unat stop - k) (length ?R) - 1"
      using m by (simp add: unat_minus_one)
    have fr: "unat ?from = unat wanted - k" using sp by (simp add: unat_saturating_sub)
    have lt: "unat wanted < k + length ?R" using Cons.prems(4) by simp
    have bounds: "unat ?from \<le> unat ?to" "unat ?to < length ?R"
      unfolding to fr using pos lt Cons.prems(3) by (auto simp: min_def)
    from slice_of_scoped [OF sp(1) bounds] obtain part where
      part: "slice_of (span_range sp) ?from ?to = Some part" "range_ok part"
        "range_scoped part = take (Suc (unat ?to) - unat ?from) (drop (unat ?from) ?R)" by blast
    have take: "Suc (unat ?to) - unat ?from = min (unat stop - k) (length ?R) - (unat wanted - k)"
      unfolding to fr using pos by linarith
    have IH: "(\<forall>r \<in> set (ranges_loop wanted stop sps). range_ok r)
        \<and> concat (map range_scoped (ranges_loop wanted stop sps))
          = take (unat stop - (k + length ?R)) (span_addrs sps)"
      using Cons.IH [OF sp(4)] Cons.prems lt by (cases sps) (auto simp: max_def add.assoc)
    have unfold: "ranges_loop wanted stop (sp # sps) = part # ranges_loop wanted stop sps"
      using part(1) False sp(2) by (simp add: word_le_nat_alt)
    have "concat (map range_scoped (part # ranges_loop wanted stop sps))
        = take (min (unat stop - k) (length ?R) - (unat wanted - k)) (drop (unat wanted - k) ?R)
          @ take (unat stop - (k + length ?R)) (span_addrs sps)"
      using IH part(3) [unfolded take] by (simp add: fr)
    also have "\<dots> = take (unat stop - max (unat wanted) k) (drop (unat wanted - k) (span_addrs (sp # sps)))"
      using lt by (cases "unat stop - k \<le> length ?R") (auto simp: max_def min_def take_Cons' add.commute)
    finally show ?thesis using IH part(2) unfolding unfold by simp
  qed
qed simp

lemma ranges_in_correct:
  assumes "numbers p rs"
  shows "(\<forall>r \<in> set (ranges_in p a b). range_ok r)
    \<and> concat (map range_scoped (ranges_in p a b))
      = take (min (unat b) (unat (total p)) - unat a) (drop (unat a) (span_addrs (spans p)))"
proof (cases "a < min b (total p)")
  case True
  let ?stop = "min b (total p)"
  have num: "numbered 0 (spans p)" and tot: "unat (total p) = length (span_addrs (spans p))"
    using assms by (auto simp: numbers_def)
  have stop: "unat ?stop = min (unat b) (unat (total p))" by (simp add: min_def word_le_nat_alt)
  have "a < total p" using True by simp
  from span_at_correct [OF assms this] obtain i where
    i: "i < length (spans p)" "span_at p a = Some i" "unat (span_start (spans p ! i)) \<le> unat a"
      "unat a < unat (span_start (spans p ! i)) + rsize (span_range (spans p ! i))" by blast
  define k where "k = length (span_addrs (take i (spans p)))"
  have start: "unat (span_start (spans p ! i)) = k"
    using numbered_nth(1) [OF num i(1)] by (simp add: k_def)
  have parts: "span_addrs (spans p) = span_addrs (take i (spans p)) @ span_addrs (drop i (spans p))"
    by (metis append_take_drop_id concat_append map_append)
  have "numbered 0 (take i (spans p) @ drop i (spans p))" using num by simp
  then have num': "numbered k (drop i (spans p))" unfolding numbered_append k_def by simp
  have "unat ?stop \<le> k + length (span_addrs (drop i (spans p)))"
    using tot stop parts by (simp add: k_def)
  moreover have "unat a < unat ?stop" using True by (simp add: word_less_nat_alt)
  moreover have "unat a < k + rsize (span_range (hd (drop i (spans p))))"
    using i(1,4) start by (simp add: hd_drop_conv_nth)
  ultimately have loop: "(\<forall>r \<in> set (ranges_loop a ?stop (drop i (spans p))). range_ok r)
      \<and> concat (map range_scoped (ranges_loop a ?stop (drop i (spans p))))
        = take (unat ?stop - max (unat a) k) (drop (unat a - k) (span_addrs (drop i (spans p))))"
    by (intro ranges_loop_correct [OF num']) auto
  have "\<not> ?stop \<le> a" using True by (simp only: not_le)
  then have "ranges_in p a b = ranges_loop a ?stop (drop i (spans p))"
    using i(2) by (simp only: ranges_in_def Let_def if_False option.case)
  moreover have "drop (unat a) (span_addrs (spans p)) = drop (unat a - k) (span_addrs (drop i (spans p)))"
    using i(3) start unfolding parts by (simp add: k_def)
  moreover have "max (unat a) k = unat a" using i(3) start by simp
  ultimately show ?thesis using loop stop by simp
next
  case False
  then have "min b (total p) \<le> a" by (simp only: not_less)
  then have "ranges_in p a b = []" by (simp only: ranges_in_def Let_def if_True)
  moreover have "min (unat b) (unat (total p)) \<le> unat a"
    using False by (simp add: min_def word_le_nat_alt not_less split: if_splits)
  ultimately show ?thesis by simp
qed

section \<open>From an address to a position\<close>

text \<open>
  The runs cut the spans into stretches of one group each: one family, and for IPv6 one
  interface.
\<close>

fun runs_of :: "nat \<Rightarrow> span list list \<Rightarrow> run list" where
  "runs_of k [] = []"
| "runs_of k (sps # rest) =
     \<lparr>run_from = k, run_to = k + length sps, run_v6 = fst (group_of (span_range (hd sps)))\<rparr>
     # runs_of (k + length sps) rest"

definition same_group :: "span list \<Rightarrow> bool" where
  "same_group sps \<longleftrightarrow> (\<forall>sp \<in> set sps. group_of (span_range sp) = group_of (span_range (hd sps)))"

definition grouped :: "numbering \<Rightarrow> bool" where
  "grouped st \<longleftrightarrow>
     (\<exists>pss. runs st = runs_of 0 pss \<and> spans st = concat pss \<and> (\<forall>sps \<in> set pss. sps \<noteq> [])
       \<and> (\<forall>sps \<in> set pss. same_group sps)
       \<and> group st = (if pss = [] then None else Some (group_of (span_range (hd (last pss))))))"

lemma groupedI:
  "runs st = runs_of 0 pss \<Longrightarrow> spans st = concat pss \<Longrightarrow> \<forall>sps \<in> set pss. sps \<noteq> [] \<and> same_group sps \<Longrightarrow>
   group st = (if pss = [] then None else Some (group_of (span_range (hd (last pss))))) \<Longrightarrow> grouped st"
  unfolding grouped_def by blast

lemma runs_of_append: "runs_of k (xs @ ys) = runs_of k xs @ runs_of (k + length (concat xs)) ys"
  by (induction xs arbitrary: k) (simp_all add: add.assoc)

lemma number_range_grouped:
  assumes "grouped st"
  shows "grouped (number_range st r)"
proof (cases "unnumbered st = [] \<and> (\<exists>len t. try_u64 (range_len r) = Some len \<and> checked_add (total st) len = Some t)")
  case True
  then obtain len t where len: "unnumbered st = []" "try_u64 (range_len r) = Some len"
    "checked_add (total st) len = Some t" by blast
  let ?sp = "\<lparr>span_range = r, span_start = total st, span_len = len\<rparr>"
  obtain pss where pss: "runs st = runs_of 0 pss" "spans st = concat pss" "\<forall>sps \<in> set pss. sps \<noteq> []"
    "\<forall>sps \<in> set pss. same_group sps"
    "group st = (if pss = [] then None else Some (group_of (span_range (hd (last pss)))))"
    using assms unfolding grouped_def by blast
  have st': "runs (number_range st r)
      = place_run (runs st) (length (spans st)) (group st = Some (group_of r)) (fst (group_of r))"
    "spans (number_range st r) = spans st @ [?sp]" "group (number_range st r) = Some (group_of r)"
    using len by (simp_all add: number_range_def Let_def)
  show ?thesis
  proof (cases "pss \<noteq> [] \<and> group st = Some (group_of r)")
    case True
    then obtain qss qs where q: "pss = qss @ [qs]" by (metis append_butlast_last_id)
    then have hd: "group_of (span_range (hd qs)) = group_of r" "qs \<noteq> []"
      using True pss(3,5) by auto
    show ?thesis
    proof (rule groupedI)
      show "runs (number_range st r) = runs_of 0 (qss @ [qs @ [?sp]])"
        using True pss(1,2) q hd by (simp add: st'(1) place_run_def runs_of_append)
      show "spans (number_range st r) = concat (qss @ [qs @ [?sp]])" using pss(2) q by (simp add: st'(2))
      have "same_group (qs @ [?sp])" using pss(4) q hd by (auto simp: same_group_def)
      then show "\<forall>sps \<in> set (qss @ [qs @ [?sp]]). sps \<noteq> [] \<and> same_group sps" using pss(3,4) q by simp
      show "group (number_range st r) = (if qss @ [qs @ [?sp]] = [] then None
          else Some (group_of (span_range (hd (last (qss @ [qs @ [?sp]]))))))"
        using hd by (simp add: st'(3))
    qed
  next
    case False
    have empty: "runs st = [] \<longleftrightarrow> pss = []" using pss(1) by (cases pss) auto
    show ?thesis
    proof (rule groupedI)
      show "runs (number_range st r) = runs_of 0 (pss @ [[?sp]])"
        using False pss(1,2) empty by (auto simp: st'(1) place_run_def runs_of_append)
      show "spans (number_range st r) = concat (pss @ [[?sp]])" using pss(2) by (simp add: st'(2))
      have "same_group [?sp]" by (simp add: same_group_def)
      then show "\<forall>sps \<in> set (pss @ [[?sp]]). sps \<noteq> [] \<and> same_group sps" using pss(3,4) by simp
      show "group (number_range st r) = (if pss @ [[?sp]] = [] then None
          else Some (group_of (span_range (hd (last (pss @ [[?sp]]))))))"
        by (simp add: st'(3))
    qed
  qed
next
  case False
  then have "number_range st r = st\<lparr>unnumbered := unnumbered st @ [r]\<rparr>"
    by (auto simp: number_range_def split: option.splits)
  with assms show ?thesis by (simp add: grouped_def)
qed

lemma foldl_grouped: "grouped st \<Longrightarrow> grouped (foldl number_range st rs)"
  by (induction rs arbitrary: st) (simp_all add: number_range_grouped)

lemma positions_grouped:
  "\<exists>pss. runs (positions_of s) = runs_of 0 pss \<and> spans (positions_of s) = concat pss
     \<and> (\<forall>sps \<in> set pss. sps \<noteq> [])
     \<and> (\<forall>sps \<in> set pss. same_group sps)"
proof -
  let ?init = "\<lparr>spans = [], runs = [], total = 0, unnumbered = [], group = None\<rparr> :: numbering"
  have "grouped ?init" unfolding grouped_def by (intro exI [of _ "[]"]) simp
  from foldl_grouped [OF this, of "set_ranges (eq_merged s)"] show ?thesis
    unfolding grouped_def positions_of_merged of_canonical_def Let_def positions.simps by blast
qed

text \<open>The search over the runs is a search over the stretches themselves.\<close>

fun search_parts :: "u128 \<Rightarrow> span option \<Rightarrow> span list list \<Rightarrow> span option" where
  "search_parts key found [] = found"
| "search_parts key found (sps # rest) =
     (case binary_search_by (span_order key) sps of
        Inl _ \<Rightarrow> search_parts key found rest
      | Inr index \<Rightarrow> (if found \<noteq> None then None else search_parts key (Some (sps ! index)) rest))"

lemma span_search_parts:
  "span_search (pre @ concat pss) key found (filter (\<lambda>r. run_v6 r = fam) (runs_of (length pre) pss))
     = search_parts key found (filter (\<lambda>sps. fst (group_of (span_range (hd sps))) = fam) pss)"
proof (induction pss arbitrary: pre found)
  case (Cons sps pss)
  have "span_search (pre @ concat (sps # pss)) key found' (filter (\<lambda>r. run_v6 r = fam) (runs_of (length pre + length sps) pss))
      = search_parts key found' (filter (\<lambda>sps. fst (group_of (span_range (hd sps))) = fam) pss)" for found'
    using Cons [of "pre @ sps" found'] by simp
  then show ?case by (simp add: Let_def split: sum.split)
qed simp

abbreviation holds_key :: "u128 \<Rightarrow> span \<Rightarrow> bool" where
  "holds_key key sp \<equiv> fst (bounds (span_range sp)) \<le> key \<and> key \<le> snd (bounds (span_range sp))"

definition disjoint_spans :: "span list \<Rightarrow> bool" where
  "disjoint_spans sps \<longleftrightarrow>
     (\<forall>sp \<in> set sps. fst (bounds (span_range sp)) \<le> snd (bounds (span_range sp)))
     \<and> sorted_wrt (\<lambda>a b. snd (bounds (span_range a)) < fst (bounds (span_range b))) sps"

lemma filter_at_most_one:
  assumes "sorted_wrt (\<lambda>a b. \<not> (P a \<and> P b)) xs"
  shows "filter P xs = (case filter P xs of [] \<Rightarrow> [] | x # _ \<Rightarrow> [x])"
  using assms by (induction xs) (auto split: list.splits simp: filter_eq_Cons_iff)

lemma search_one:
  assumes "disjoint_spans sps"
  shows "(case binary_search_by (span_order key) sps of Inl _ \<Rightarrow> [] | Inr i \<Rightarrow> [sps ! i]) = filter (holds_key key) sps"
proof -
  have sorted: "sorted_wrt (\<lambda>a b. snd (bounds (span_range a)) < fst (bounds (span_range b))) sps"
    and le: "\<And>sp. sp \<in> set sps \<Longrightarrow> fst (bounds (span_range sp)) \<le> snd (bounds (span_range sp))"
    using assms by (auto simp: disjoint_spans_def)
  have eq: "span_order key sp = Equal \<longleftrightarrow> holds_key key sp" for sp by (auto simp: span_order_def)
  have "cmp_sorted (span_order key) sps"
    unfolding cmp_sorted_def by (rule sorted_wrt_mono_rel [OF _ sorted])
      (auto simp: span_order_def dest!: le split: if_splits)
  note find = binary_search_finds [OF this]
  have one: "sorted_wrt (\<lambda>a b. \<not> (holds_key key a \<and> holds_key key b)) sps"
    by (rule sorted_wrt_mono_rel [OF _ sorted]) auto
  show ?thesis
  proof (cases "binary_search_by (span_order key) sps")
    case (Inl k)
    then have "filter (holds_key key) sps = []" using find eq by (auto simp: filter_empty_conv)
    with Inl show ?thesis by simp
  next
    case (Inr i)
    from binary_search_Ok [OF this] have "sps ! i \<in> set (filter (holds_key key) sps)" using eq by auto
    then have "filter (holds_key key) sps = [sps ! i]"
    proof (cases "filter (holds_key key) sps")
      case (Cons x xs)
      then have "filter (holds_key key) sps = [x]" using filter_at_most_one [OF one] by simp
      with \<open>sps ! i \<in> set (filter (holds_key key) sps)\<close> show ?thesis
        by (simp only: list.set insert_iff empty_iff simp_thms)
    qed (simp only: list.set empty_iff)
    with Inr show ?thesis by simp
  qed
qed

lemma search_parts_correct:
  "(\<forall>sps \<in> set pss. disjoint_spans sps) \<Longrightarrow>
   search_parts key found pss =
     (case (found, filter (holds_key key) (concat pss)) of
        (None, [sp]) \<Rightarrow> Some sp | (Some sp, []) \<Rightarrow> Some sp | _ \<Rightarrow> None)"
proof (induction pss arbitrary: found)
  case (Cons sps pss)
  then have IH: "search_parts key f pss =
     (case (f, filter (holds_key key) (concat pss)) of
        (None, [sp]) \<Rightarrow> Some sp | (Some sp, []) \<Rightarrow> Some sp | _ \<Rightarrow> None)" for f by auto
  from search_one [of sps key] Cons.prems
  have hit: "filter (holds_key key) sps = (case binary_search_by (span_order key) sps of Inl _ \<Rightarrow> [] | Inr i \<Rightarrow> [sps ! i])"
    by simp
  show ?case
    by (cases "binary_search_by (span_order key) sps"; cases "filter (holds_key key) (concat pss)"; cases found)
      (simp_all add: IH hit)
qed (auto split: option.splits)

text \<open>Ranges of one group are met in ascending order of address.\<close>

lemma set_ranges_ascending:
  assumes "ip_set_inv s" and "\<not> v4_dirty s" and "\<not> v6_dirty s"
  shows "sorted_wrt (\<lambda>a b. group_of a = group_of b \<longrightarrow> snd (bounds a) < fst (bounds b)) (set_ranges s)"
proof -
  have "sorted_wrt (\<lambda>a b. Suc (hi4 a) < lo4 b) (v4 s)" "sorted_wrt (\<lambda>a b. Suc (hi6 a) < lo6 b) (v6 s)"
    using assms by (auto simp: ip_set_inv_def canonical_def sorted_wrt_map)
  then have "sorted_wrt (\<lambda>a b. snd (v4_bounds a) < fst (v4_bounds b)) (v4 s)"
    "sorted_wrt (\<lambda>a b. zone6 a = zone6 b \<longrightarrow> end_addr6 a < start_addr6 b) (v6 s)"
    by (auto elim!: sorted_wrt_mono_rel [rotated]
        simp: v4_bounds_def hi6_def lo6_def word_less_nat_alt)
  then show ?thesis by (auto simp: sorted_wrt_append sorted_wrt_map)
qed

lemma sorted_wrt_concat: "sorted_wrt R (concat xss) \<Longrightarrow> xs \<in> set xss \<Longrightarrow> sorted_wrt R xs"
  by (induction xss) (auto simp: sorted_wrt_append)

lemma positions_disjoint:
  assumes "ip_set_inv s" and "spans (positions_of s) = concat pss" and "sps \<in> set pss" and "same_group sps"
  shows "disjoint_spans sps"
proof -
  have ranges: "set_ranges (eq_merged s) = map span_range (concat pss) @ unnumbered (positions_of s)"
    and num: "numbered 0 (concat pss)"
    using positions_numbers [OF assms(1)] assms(2) by (auto simp: numbers_def)
  have "sorted_wrt (\<lambda>a b. group_of (span_range a) = group_of (span_range b) \<longrightarrow>
      snd (bounds (span_range a)) < fst (bounds (span_range b))) (concat pss)"
    using set_ranges_ascending [OF eq_merged_correct(1-3) [OF assms(1)]]
    unfolding ranges sorted_wrt_append sorted_wrt_map by blast
  from sorted_wrt_concat [OF this assms(3)]
  have "sorted_wrt (\<lambda>a b. snd (bounds (span_range a)) < fst (bounds (span_range b))) sps"
    by (rule sorted_wrt_mono_rel [rotated]) (metis assms(4) same_group_def)
  moreover have "fst (bounds (span_range sp)) \<le> snd (bounds (span_range sp))" if "sp \<in> set sps" for sp
  proof -
    have "sp \<in> set (concat pss)" using that assms(3) by auto
    then obtain i where "i < length (concat pss)" "sp = concat pss ! i" by (metis in_set_conv_nth)
    then show ?thesis using numbered_nth(3) [OF num] bounds_le by (simp add: word_le_nat_alt)
  qed
  ultimately show ?thesis by (simp add: disjoint_spans_def)
qed

lemma filter_family:
  "(\<forall>sps \<in> set pss. sps \<noteq> []) \<Longrightarrow> (\<forall>sps \<in> set pss. same_group sps) \<Longrightarrow>
   filter P (concat (filter (\<lambda>sps. fst (group_of (span_range (hd sps))) = fam) pss))
     = filter (\<lambda>sp. fst (group_of (span_range sp)) = fam \<and> P sp) (concat pss)"
proof (induction pss)
  case (Cons sps pss)
  have "fst (group_of (span_range sp)) = fst (group_of (span_range (hd sps)))" if "sp \<in> set sps" for sp
    using Cons.prems(2) that by (metis list.set_intros(1) same_group_def)
  then have "filter (\<lambda>sp. fst (group_of (span_range sp)) = fam \<and> P sp) sps
      = (if fst (group_of (span_range (hd sps))) = fam then filter P sps else [])"
    by (auto intro!: filter_cong simp: filter_empty_conv)
  with Cons show ?case by simp
qed simp

lemma range_contains_bounds:
  "range_contains r ip \<longleftrightarrow> fst (group_of r) = is_ipv6 ip \<and> fst (bounds r) \<le> widen ip \<and> widen ip \<le> snd (bounds r)"
  by (cases r; cases ip) (auto simp: ipv4_contains_def ipv6_contains_def v4_bounds_def word_le_nat_alt)

lemma span_holding_correct:
  assumes "ip_set_inv s"
  shows "span_holding (positions_of s) ip =
    (case filter (\<lambda>sp. range_contains (span_range sp) ip) (spans (positions_of s)) of
       [sp] \<Rightarrow> Some sp | _ \<Rightarrow> None)"
proof -
  from positions_grouped [of s] obtain pss where
    pss: "runs (positions_of s) = runs_of 0 pss" "spans (positions_of s) = concat pss"
      "\<forall>sps \<in> set pss. sps \<noteq> []" "\<forall>sps \<in> set pss. same_group sps" by blast
  let ?parts = "filter (\<lambda>sps. fst (group_of (span_range (hd sps))) = is_ipv6 ip) pss"
  have "span_holding (positions_of s) ip = search_parts (widen ip) None ?parts"
    using span_search_parts [of "[]" pss "widen ip" None "is_ipv6 ip"] pss(1,2) by (simp add: span_holding_def)
  also have "\<dots> = (case filter (holds_key (widen ip)) (concat ?parts) of [sp] \<Rightarrow> Some sp | _ \<Rightarrow> None)"
    using positions_disjoint [OF assms pss(2)] pss(4) by (subst search_parts_correct) (auto split: list.splits)
  finally show ?thesis
    unfolding filter_family [OF pss(3,4)] range_contains_bounds pss(2) .
qed

lemma word_offset: "a \<le> b \<Longrightarrow> a + of_nat (unat b - unat a) = b" for a b :: "'a::len word"
  by (simp flip: unat_sub)

lemma offset_within_nth:
  assumes "range_contains r ip" and "rsize r < 2 ^ 64"
  shows "\<exists>off. offset_within r ip = Some off \<and> unat off < rsize r \<and> fst (range_scoped r ! unat off) = ip"
proof -
  let ?key = "widen ip" and ?s = "fst (bounds r)"
  have le: "?s \<le> ?key" "?key \<le> snd (bounds r)" "same_family r ip"
    using assms(1) by (cases r; cases ip; simp add: range_contains_bounds)+
  then have off: "unat (?key - ?s) = unat ?key - unat ?s" by (simp add: unat_sub)
  have lt: "unat ?key - unat ?s < rsize r"
    using le unfolding rsize_bounds word_le_nat_alt by linarith
  then have "unat (?key - ?s) < 2 ^ 64" using assms(2) off by linarith
  then have "try_u64 (?key - ?s) = Some (ucast (?key - ?s))"
    unfolding try_u64_Some by (auto intro: unat_ucast_narrow)
  then obtain off where some: "try_u64 (?key - ?s) = Some off" and u: "unat off = unat ?key - unat ?s"
    using off by (auto simp: try_u64_Some)
  have within: "offset_within r ip = Some off"
    using le some by (auto simp: offset_within_def Let_def)
  have "fst (range_scoped r ! unat off) = ip"
  proof (cases r; cases ip)
    fix x a assume r: "r = RangeV4 x" "ip = V4 a"
    then have le4: "start_addr4 x \<le> a" and u4: "unat off = unat a - unat (start_addr4 x)"
      using assms(1) u by (simp_all add: ipv4_contains_def v4_bounds_def)
    have "range_scoped r ! unat off = (V4 (start_addr4 x + of_nat (unat off)), None)"
      using range_scoped_nth [of "unat off" r] lt u r by (simp only: ip_range.case)
    then show ?thesis unfolding u4 word_offset [OF le4] r by simp
  next
    fix x a assume r: "r = RangeV6 x" "ip = V6 a"
    then have le6: "start_addr6 x \<le> a" and u6: "unat off = unat a - unat (start_addr6 x)"
      using assms(1) u by (simp_all add: ipv6_contains_def)
    have "range_scoped r ! unat off = (V6 (start_addr6 x + of_nat (unat off)), zone6 x)"
      using range_scoped_nth [of "unat off" r] lt u r by (simp only: ip_range.case)
    then show ?thesis unfolding u6 word_offset [OF le6] r by simp
  qed (use assms(1) in simp_all)
  with within lt u show ?thesis by auto
qed

lemma distinct_range_inclusive: "distinct (range_inclusive a b)"
  using range_inclusive_sorted [of a b] strict_sorted_iff by blast

lemma fst_range_scoped_inj: "distinct (map fst (range_scoped r))"
  by (cases r) (simp_all add: comp_def distinct_map inj_on_def distinct_range_inclusive)

lemma count_list_distinct: "distinct xs \<Longrightarrow> count_list xs x = (if x \<in> set xs then 1 else 0)"
  by (induction xs) auto

lemma set_fst_range_scoped: "ip \<in> set (map fst (range_scoped r)) \<longleftrightarrow> range_contains r ip"
  by (cases r; cases ip) (auto simp: set_range_inclusive ipv4_contains_def ipv6_contains_def image_iff)

lemma count_spans:
  "count_list (map fst (span_addrs sps)) ip = length (filter (\<lambda>sp. range_contains (span_range sp) ip) sps)"
proof (induction sps)
  case (Cons sp sps)
  have "count_list (map fst (range_scoped (span_range sp))) ip
      = (if ip \<in> set (map fst (range_scoped (span_range sp))) then 1 else 0)"
    by (rule count_list_distinct [OF fst_range_scoped_inj])
  then have "count_list (map fst (range_scoped (span_range sp))) ip = (if range_contains (span_range sp) ip then 1 else 0)"
    unfolding set_fst_range_scoped .
  with Cons show ?case by (simp add: count_list_append)
qed simp

lemma count_one_nth:
  assumes "count_list xs x = 1" and "i < length xs" "xs ! i = x" and "j < length xs" "xs ! j = x"
  shows "i = j"
proof -
  have "card {i. i < length xs \<and> x = xs ! i} = 1"
    using assms(1) by (simp only: count_list_eq_length_filter length_filter_conv_card)
  then obtain k where k: "{i. i < length xs \<and> x = xs ! i} = {k}" by (rule card_1_singletonE)
  have "i \<in> {i. i < length xs \<and> x = xs ! i}" "j \<in> {i. i < length xs \<and> x = xs ! i}"
    by (simp_all only: mem_Collect_eq assms(2-5) simp_thms)
  then show ?thesis unfolding k by simp
qed

lemma find_position_hit:
  assumes "numbers p rs"
    and "filter (\<lambda>sp. range_contains (span_range sp) ip) (spans p) = [sp]"
    and "span_holding p ip = Some sp"
  shows "\<exists>q. find_position p ip = Some q \<and> q < total p \<and> fst (span_addrs (spans p) ! unat q) = ip"
proof -
  have num: "numbered 0 (spans p)" and tot: "unat (total p) = length (span_addrs (spans p))"
    using assms(1) by (auto simp: numbers_def)
  have "sp \<in> set (filter (\<lambda>sp. range_contains (span_range sp) ip) (spans p))" unfolding assms(2) by simp
  then have sp: "sp \<in> set (spans p)" "range_contains (span_range sp) ip" by auto
  then obtain i where i: "i < length (spans p)" "sp = spans p ! i" by (metis in_set_conv_nth)
  note n = numbered_nth [OF num i(1), folded i(2)]
  have "rsize (span_range sp) < 2 ^ 64" using n(2) unat_bounds(3) [of "span_len sp"] by simp
  from offset_within_nth [OF sp(2) this] obtain off where
    off: "offset_within (span_range sp) ip = Some off" "unat off < rsize (span_range sp)"
      "fst (range_scoped (span_range sp) ! unat off) = ip" by blast
  let ?at = "length (span_addrs (take i (spans p))) + unat off"
  have parts: "span_addrs (spans p) = span_addrs (take i (spans p)) @ range_scoped (span_range sp)
      @ span_addrs (drop (Suc i) (spans p))"
    using i by (metis (no_types, lifting) id_take_nth_drop map_append concat_append list.map(2) concat.simps(2))
  then have lt: "?at < unat (total p)" using off(2) tot by simp
  then have q: "unat (span_start sp + off) = ?at"
    using n(1) unat_bounds(3) [of "total p"] by (simp add: unat_add_lt)
  have "span_addrs (spans p) ! ?at = range_scoped (span_range sp) ! unat off"
    unfolding parts using off(2) by (simp add: nth_append)
  with q lt off assms(3) show ?thesis
    by (intro exI [of _ "span_start sp + off"]) (simp add: find_position_def word_less_nat_alt)
qed

section \<open>The contract of positions\<close>

lemma numbered_prefix:
  assumes "ip_set_inv s"
  shows "map fst (span_addrs (spans (positions_of s))) = take (unat (total (positions_of s))) (set_iter s)"
    and "unat (total (positions_of s)) \<le> length (set_iter s)"
proof -
  have len: "unat (total (positions_of s)) = length (span_addrs (spans (positions_of s)))"
    using positions_numbers [OF assms] by (simp add: numbers_def)
  have "set_iter s = map fst (iter_scoped s)"
    by (simp add: set_iter_lists [OF assms] iter_scoped_lists map_fst_scoped_list)
  then have "set_iter s = map fst (span_addrs (spans (positions_of s)))
      @ map fst (concat (map range_scoped (unnumbered (positions_of s))))"
    by (simp only: enumeration_split [OF assms] map_append)
  then show "map fst (span_addrs (spans (positions_of s))) = take (unat (total (positions_of s))) (set_iter s)"
    "unat (total (positions_of s)) \<le> length (set_iter s)"
    using len by simp_all
qed

lemma number_range_fits:
  assumes "numbers st rs" and "range_ok r" and "unnumbered st = []" and "unat (total st) + rsize r < 2 ^ 64"
  shows "unnumbered (number_range st r) = []"
proof -
  have "unat (range_len r) = rsize r" using assms(4) unat_range_len [OF assms(2)] by simp
  then obtain len where len: "try_u64 (range_len r) = Some len" "unat len = rsize r"
    using try_u64_Some [of "range_len r" "ucast (range_len r)"] assms(4)
      unat_ucast_narrow [where 'b = 64, of "range_len r"] by auto
  then have "checked_add (total st) len = Some (total st + len)"
    using assms(4) by (simp add: checked_add_Some)
  with len assms(3) show ?thesis by (simp add: number_range_def Let_def)
qed

lemma foldl_fits:
  "numbers st rs \<Longrightarrow> unnumbered st = [] \<Longrightarrow> (\<forall>r \<in> set rs'. range_ok r) \<Longrightarrow>
   unat (total st) + (\<Sum>r\<leftarrow>rs'. rsize r) < 2 ^ 64 \<Longrightarrow> unnumbered (foldl number_range st rs') = []"
proof (induction rs' arbitrary: st rs)
  case (Cons r rs')
  have ok: "range_ok r" "unnumbered (number_range st r) = []"
    using Cons.prems number_range_fits [OF Cons.prems(1)] by auto
  have num: "numbers (number_range st r) (rs @ [r])" by (rule number_range_numbers [OF Cons.prems(1) ok(1)])
  have "rs = map span_range (spans st)" using Cons.prems(1,2) by (simp add: numbers_def)
  moreover have "rs @ [r] = map span_range (spans (number_range st r))" using num ok(2) by (simp add: numbers_def)
  moreover have "length (span_addrs sps) = (\<Sum>r\<leftarrow>map span_range sps. rsize r)" for sps
    by (induction sps) simp_all
  ultimately have "unat (total (number_range st r)) = unat (total st) + rsize r"
    using Cons.prems(1) num unfolding numbers_def by (metis (no_types, lifting) sum_list_append map_append list.map sum_list.Cons sum_list.Nil add_0_right)
  with Cons.IH [OF num ok(2)] Cons.prems show ?case by simp
qed simp

lemma number_range_keeps_v6:
  "(\<forall>x \<in> set (unnumbered st). \<exists>v. x = RangeV6 v) \<Longrightarrow>
   \<forall>x \<in> set (unnumbered (foldl number_range st (map RangeV6 vs))). \<exists>v. x = RangeV6 v"
proof (induction vs arbitrary: st)
  case (Cons v vs)
  have "unnumbered (number_range st (RangeV6 v)) \<in> {unnumbered st, unnumbered st @ [RangeV6 v]}"
    by (auto simp: number_range_def Let_def split: option.split)
  with Cons.prems have "\<forall>x \<in> set (unnumbered (number_range st (RangeV6 v))). \<exists>v. x = RangeV6 v" by auto
  from Cons.IH [OF this] show ?case by simp
qed simp

lemma sum_v4_fits:
  assumes "canonical (map v4_lane.ival_of rs)"
  shows "(\<Sum>r\<leftarrow>map RangeV4 rs. rsize r) < 2 ^ 64"
proof -
  have "v4_lane.points rs \<subseteq> {..<2 ^ 32}"
  proof
    fix x assume "x \<in> v4_lane.points rs"
    then obtain r where "r \<in> set rs" "x \<le> hi4 r" by (auto simp: ivals_set_iff)
    then show "x \<in> {..<2 ^ 32}" using unat_bounds(2) [of "end_addr4 r"] by simp
  qed
  from card_mono [OF _ this] have "card (v4_lane.points rs) \<le> 2 ^ 32" by simp
  then show ?thesis unfolding card_canonical [OF assms] by (simp add: comp_def)
qed

lemma unnumbered_v6:
  assumes "ip_set_inv s"
  shows "\<forall>x \<in> set (unnumbered (positions_of s)). \<exists>v. x = RangeV6 v"
proof -
  let ?t = "eq_merged s"
  let ?init = "\<lparr>spans = [], runs = [], total = 0, unnumbered = [], group = None\<rparr> :: numbering"
  note m = eq_merged_correct [OF assms]
  have "numbers ?init []" by (simp add: numbers_def)
  then have "unnumbered (foldl number_range ?init (map RangeV4 (v4 ?t))) = []"
    using set_ranges_ok [OF m(1)] sum_v4_fits [of "v4 ?t"] m(1,2)
    by (intro foldl_fits) (auto simp: ip_set_inv_def)
  then have "\<forall>x \<in> set (unnumbered (foldl number_range (foldl number_range ?init (map RangeV4 (v4 ?t)))
      (map RangeV6 (v6 ?t)))). \<exists>v. x = RangeV6 v"
    by (intro number_range_keeps_v6) simp
  then show ?thesis by (simp add: positions_of_merged of_canonical_def Let_def)
qed

text \<open>
  The address at a position is the element of the set's enumeration at that index, and
  positions past the numbering have none.
\<close>

theorem address_at_correct:
  assumes "ip_set_inv s"
  shows "address_at (positions_of s) position =
    (if position < total (positions_of s) then Some (set_iter s ! unat position) else None)"
proof -
  have "fst (span_addrs (spans (positions_of s)) ! n) = set_iter s ! n"
    if "n < unat (total (positions_of s))" for n
  proof -
    have "n < length (span_addrs (spans (positions_of s)))"
      using positions_numbers [OF assms] that by (simp add: numbers_def)
    then have "fst (span_addrs (spans (positions_of s)) ! n) = map fst (span_addrs (spans (positions_of s))) ! n"
      by simp
    also have "\<dots> = set_iter s ! n" unfolding numbered_prefix(1) [OF assms] using that by simp
    finally show ?thesis .
  qed
  then show ?thesis
    unfolding address_at_nth [OF positions_numbers [OF assms]] by (simp add: word_less_nat_alt)
qed

theorem address_at_correct_witness:
  "ip_set_inv sample_set \<and> address_at (positions_of sample_set) 33 = Some (set_iter sample_set ! 33)"
proof
  show "ip_set_inv sample_set" by (rule sample_set_inv)
  have "total (positions_of sample_set) = 45" by code_simp
  then show "address_at (positions_of sample_set) 33 = Some (set_iter sample_set ! 33)"
    using address_at_correct [OF sample_set_inv, of 33] by simp
qed

text \<open>
  Looking up an address answers a position exactly when the numbered enumeration holds it
  once, and then that position: an address two interfaces hold has no position.
\<close>

theorem find_position_correct:
  assumes "ip_set_inv s"
  defines "p \<equiv> positions_of s"
  shows "find_position p ip = Some q \<longleftrightarrow>
    q < total p \<and> set_iter s ! unat q = ip \<and> count_list (take (unat (total p)) (set_iter s)) ip = 1"
proof -
  let ?enum = "take (unat (total p)) (set_iter s)"
  note num = positions_numbers [OF assms(1), folded p_def]
  note pre = numbered_prefix [OF assms(1), folded p_def]
  let ?hits = "filter (\<lambda>sp. range_contains (span_range sp) ip) (spans p)"
  have count: "count_list ?enum ip = length ?hits" using count_spans [of "spans p" ip] pre(1) by simp
  have len: "length ?enum = unat (total p)" using pre(2) by simp
  show ?thesis
  proof (cases "\<exists>sp. ?hits = [sp]")
    case True
    then obtain sp where sp: "?hits = [sp]" by blast
    then have "span_holding p ip = Some sp" using span_holding_correct [OF assms(1)] by (simp add: p_def)
    from find_position_hit [OF num sp this] obtain q' where
      q': "find_position p ip = Some q'" "q' < total p" "fst (span_addrs (spans p) ! unat q') = ip" by blast
    have lt: "unat q' < unat (total p)" using q'(2) by (simp add: word_less_nat_alt)
    then have at: "?enum ! unat q' = ip" using q'(3) pre by (metis len length_map nth_map)
    have one: "count_list ?enum ip = 1" using count sp by simp
    have "q = q'" if "q < total p" "set_iter s ! unat q = ip"
      using count_one_nth [OF one, of "unat q" "unat q'"] that at lt len
      by (simp add: word_less_nat_alt word_unat_eq_iff)
    with q' at lt one show ?thesis by auto
  next
    case False
    then have "span_holding p ip = None"
      using span_holding_correct [OF assms(1)] by (auto simp: p_def split: list.splits)
    then have "find_position p ip = None" by (simp add: find_position_def)
    moreover have "count_list ?enum ip \<noteq> 1" using False count by (auto simp: length_Suc_conv)
    ultimately show ?thesis by simp
  qed
qed

theorem find_position_correct_witness:
  "find_position (positions_of sample_set) (V4 0x0a000005) = Some 5
   \<and> set_iter sample_set ! 5 = V4 0x0a000005
   \<and> count_list (take (unat (total (positions_of sample_set))) (set_iter sample_set)) (V4 0x0a000005) = 1"
proof -
  have "find_position (positions_of sample_set) (V4 0x0a000005) = Some 5" by code_simp
  then show ?thesis using find_position_correct [OF sample_set_inv, of "V4 0x0a000005" 5] by simp
qed

text \<open>
  The ranges of a stretch of positions are well formed and enumerate exactly that stretch of
  the set's enumeration, each address on its interface; a stretch reaching past the numbering is
  cut off there.
\<close>

theorem ranges_in_enumerates:
  assumes "ip_set_inv s"
  defines "p \<equiv> positions_of s"
  shows "(\<forall>r \<in> set (ranges_in p a b). range_ok r)
    \<and> concat (map range_scoped (ranges_in p a b))
      = take (min (unat b) (unat (total p)) - unat a) (drop (unat a) (take (unat (total p)) (iter_scoped s)))"
proof -
  note num = positions_numbers [OF assms(1), folded p_def]
  have "unat (total p) = length (span_addrs (spans p))" using num by (simp add: numbers_def)
  then have "take (unat (total p)) (iter_scoped s) = span_addrs (spans p)"
    using enumeration_split [OF assms(1)] by (simp add: p_def)
  then show ?thesis using ranges_in_correct [OF num, of a b] by simp
qed

theorem ranges_in_enumerates_witness:
  "ranges_in (positions_of sample_set) 30 34 =
     [RangeV4 \<lparr>start_addr4 = 0x0a00001e, end_addr4 = 0x0a00001f\<rparr>,
      RangeV6 \<lparr>start_addr6 = 0xfe800000000000000000000000000001,
        end_addr6 = 0xfe800000000000000000000000000002, zone6 = Some 1\<rparr>]
   \<and> concat (map range_scoped (ranges_in (positions_of sample_set) 30 34))
     = take 4 (drop 30 (take 45 (iter_scoped sample_set)))"
proof
  show "ranges_in (positions_of sample_set) 30 34 =
     [RangeV4 \<lparr>start_addr4 = 0x0a00001e, end_addr4 = 0x0a00001f\<rparr>,
      RangeV6 \<lparr>start_addr6 = 0xfe800000000000000000000000000001,
        end_addr6 = 0xfe800000000000000000000000000002, zone6 = Some 1\<rparr>]" by code_simp
  have "total (positions_of sample_set) = 45" by code_simp
  then show "concat (map range_scoped (ranges_in (positions_of sample_set) 30 34))
     = take 4 (drop 30 (take 45 (iter_scoped sample_set)))"
    using ranges_in_enumerates [OF sample_set_inv, of 30 34] by simp
qed

text \<open>
  Numbering loses nothing: the enumeration is the numbered addresses followed by the ranges
  kept unnumbered, and every unnumbered range is an IPv6 one.
\<close>

theorem numbering_complete:
  assumes "ip_set_inv s"
  shows "iter_scoped s = take (unat (total (positions_of s))) (iter_scoped s)
      @ concat (map range_scoped (unnumbered (positions_of s)))
    \<and> (\<forall>r \<in> set (unnumbered (positions_of s)). \<exists>v. r = RangeV6 v)"
proof -
  have "unat (total (positions_of s)) = length (span_addrs (spans (positions_of s)))"
    using positions_numbers [OF assms] by (simp add: numbers_def)
  then show ?thesis using enumeration_split [OF assms] unnumbered_v6 [OF assms] by simp
qed

theorem numbering_complete_witness:
  "unnumbered (positions_of (from_range (RangeV6 \<lparr>start_addr6 = 0, end_addr6 = - 1, zone6 = None\<rparr>)))
     = [RangeV6 \<lparr>start_addr6 = 0, end_addr6 = - 1, zone6 = None\<rparr>]
   \<and> iter_scoped (from_range (RangeV6 \<lparr>start_addr6 = 0, end_addr6 = - 1, zone6 = None\<rparr>))
     = range_scoped (RangeV6 \<lparr>start_addr6 = 0, end_addr6 = - 1, zone6 = None\<rparr>)"
proof -
  let ?r = "RangeV6 \<lparr>start_addr6 = 0, end_addr6 = - 1, zone6 = None\<rparr>"
  let ?s = "from_range ?r"
  have "ip_set_inv ?s"
    by (simp add: from_range_def ip_set_inv_def ip_set_new_def push_v6_range_def ok6_def)
  note c = numbering_complete [OF this]
  have u: "unnumbered (positions_of ?s) = [?r]" by code_simp
  have t: "total (positions_of ?s) = 0" by code_simp
  have "iter_scoped ?s = take (unat (total (positions_of ?s))) (iter_scoped ?s)
      @ concat (map range_scoped (unnumbered (positions_of ?s)))" using c by (rule conjunct1)
  then have "iter_scoped ?s = range_scoped ?r"
    by (simp only: u t unat_0 take_0 list.map concat.simps append_Nil append_Nil2)
  with u show ?thesis by (rule conjI)
qed

end
