(* ===== verification/Rust_Text.thy ===== *)
theory Rust_Text
  imports Rust_Std
begin

text \<open>
  What the sources use of \<open>str\<close>: splitting, trimming, decimal numbers.  Text is a list of
  characters, each a code point below 256; \<open>is_whitespace\<close> is the Unicode class on those, the other
  classes are the ASCII ones.  Where the source reads the bytes of a text, the model is of ASCII
  text, whose bytes are its characters.
\<close>

section \<open>Characters\<close>

definition is_whitespace :: "char \<Rightarrow> bool" where
  "is_whitespace c \<longleftrightarrow> (let n = of_char c :: nat in 9 \<le> n \<and> n \<le> 13 \<or> n = 32 \<or> n = 133 \<or> n = 160)"

definition is_ascii_digit :: "char \<Rightarrow> bool" where
  "is_ascii_digit c \<longleftrightarrow> (let n = of_char c :: nat in 48 \<le> n \<and> n \<le> 57)"

definition is_ascii_upper :: "char \<Rightarrow> bool" where
  "is_ascii_upper c \<longleftrightarrow> (let n = of_char c :: nat in 65 \<le> n \<and> n \<le> 90)"

definition is_ascii_lower :: "char \<Rightarrow> bool" where
  "is_ascii_lower c \<longleftrightarrow> (let n = of_char c :: nat in 97 \<le> n \<and> n \<le> 122)"

definition is_ascii_alphabetic :: "char \<Rightarrow> bool" where
  "is_ascii_alphabetic c \<longleftrightarrow> is_ascii_upper c \<or> is_ascii_lower c"

definition is_ascii_alphanumeric :: "char \<Rightarrow> bool" where
  "is_ascii_alphanumeric c \<longleftrightarrow> is_ascii_alphabetic c \<or> is_ascii_digit c"

definition to_ascii_lowercase :: "char \<Rightarrow> char" where
  "to_ascii_lowercase c = (if is_ascii_upper c then char_of (of_char c + 32 :: nat) else c)"

definition eq_ignore_ascii_case :: "string \<Rightarrow> string \<Rightarrow> bool" where
  "eq_ignore_ascii_case a b \<longleftrightarrow> map to_ascii_lowercase a = map to_ascii_lowercase b"

section \<open>Splitting and joining\<close>

text \<open>\<open>str::split\<close> by a predicate on characters: never empty, and separators are dropped.\<close>

fun split_by :: "(char \<Rightarrow> bool) \<Rightarrow> string \<Rightarrow> string list" where
  "split_by p [] = [[]]"
| "split_by p (c # cs) =
     (if p c then [] # split_by p cs
      else (case split_by p cs of [] \<Rightarrow> [[c]] | w # ws \<Rightarrow> (c # w) # ws))"

abbreviation split_on :: "char \<Rightarrow> string \<Rightarrow> string list" where
  "split_on sep \<equiv> split_by (\<lambda>c. c = sep)"

definition split_whitespace :: "string \<Rightarrow> string list" where
  "split_whitespace s = filter (\<lambda>w. w \<noteq> []) (split_by is_whitespace s)"

definition trim :: "string \<Rightarrow> string" where
  "trim s = rev (dropWhile is_whitespace (rev (dropWhile is_whitespace s)))"

text \<open>\<open>[str]::join\<close>.\<close>

fun join :: "string \<Rightarrow> string list \<Rightarrow> string" where
  "join sep [] = []"
| "join sep [w] = w"
| "join sep (w # ws) = w @ sep @ join sep ws"

definition starts_with :: "string \<Rightarrow> char \<Rightarrow> bool" where
  "starts_with s c \<longleftrightarrow> s \<noteq> [] \<and> hd s = c"

definition ends_with :: "string \<Rightarrow> char \<Rightarrow> bool" where
  "ends_with s c \<longleftrightarrow> s \<noteq> [] \<and> last s = c"

lemma split_by_nonempty [simp]: "split_by p s \<noteq> []"
  by (cases s) (auto split: list.split)

lemma split_by_none: "\<forall>c \<in> set s. \<not> p c \<Longrightarrow> split_by p s = [s]"
  by (induction s) auto

lemma split_by_append:
  "\<forall>c \<in> set w. \<not> p c \<Longrightarrow> p c \<Longrightarrow> split_by p (w @ c # s) = w # split_by p s"
  by (induction w) auto

lemma split_join:
  "ws \<noteq> [] \<Longrightarrow> (\<forall>w \<in> set ws. sep \<notin> set w) \<Longrightarrow> split_on sep (join [sep] ws) = ws"
proof (induction "[sep]" ws rule: join.induct)
  case (2 w)
  then have "\<forall>c \<in> set w. c \<noteq> sep" by auto
  then show ?case by (simp add: split_by_none)
next
  case (3 w v vs)
  then have "\<forall>c \<in> set w. c \<noteq> sep" by auto
  then have "split_on sep (w @ sep # join [sep] (v # vs)) = w # split_on sep (join [sep] (v # vs))"
    by (intro split_by_append) auto
  with 3 show ?case by simp
qed simp

lemma split_whitespace_word:
  "s \<noteq> [] \<Longrightarrow> \<forall>c \<in> set s. \<not> is_whitespace c \<Longrightarrow> split_whitespace s = [s]"
  by (simp add: split_whitespace_def split_by_none)

section \<open>Decimal numbers\<close>

datatype int_error_kind = Empty | InvalidDigit | PosOverflow

definition to_digit :: "char \<Rightarrow> nat option" where
  "to_digit c = (if is_ascii_digit c then Some (of_char c - 48) else None)"

fun digits_loop :: "'a::len word \<Rightarrow> string \<Rightarrow> int_error_kind + 'a word" where
  "digits_loop acc [] = Inr acc"
| "digits_loop acc (c # cs) =
     (case to_digit c of
        None \<Rightarrow> Inl InvalidDigit
      | Some d \<Rightarrow>
          (case checked_mul acc 10 of
             None \<Rightarrow> Inl PosOverflow
           | Some m \<Rightarrow>
               (case checked_add m (of_nat d) of
                  None \<Rightarrow> Inl PosOverflow | Some r \<Rightarrow> digits_loop r cs)))"

text \<open>\<open>FromStr\<close> of an unsigned integer: one leading \<open>+\<close> is accepted.\<close>

definition parse_uint :: "string \<Rightarrow> int_error_kind + 'a::len word" where
  "parse_uint s =
     (if s = [] then Inl Empty
      else if s = ''+'' \<or> s = ''-'' then Inl InvalidDigit
      else if hd s = CHR ''+'' then digits_loop 0 (tl s)
      else digits_loop 0 s)"

text \<open>\<open>Display\<close> of an unsigned integer.\<close>

fun show_nat :: "nat \<Rightarrow> string" where
  "show_nat n =
     (if n < 10 then [char_of (48 + n)] else show_nat (n div 10) @ [char_of (48 + n mod 10)])"

declare show_nat.simps [simp del]

lemma digit_char:
  assumes "d < 10"
  shows "of_char (char_of (48 + d) :: char) = (48 + d :: nat)"
  using assms by simp

lemma to_digit_char: "d < 10 \<Longrightarrow> to_digit (char_of (48 + d)) = Some d"
  by (simp add: to_digit_def is_ascii_digit_def Let_def digit_char)

lemma show_nat_digits: "c \<in> set (show_nat n) \<Longrightarrow> is_ascii_digit c"
proof (induction n rule: show_nat.induct)
  case (1 n)
  then show ?case
    by (subst (asm) show_nat.simps) (auto simp: is_ascii_digit_def Let_def digit_char split: if_splits)
qed

lemma show_nat_nonempty [simp]: "show_nat n \<noteq> []"
  by (subst show_nat.simps) simp

lemma digits_loop_append:
  "digits_loop acc (xs @ ys) =
     (case digits_loop acc xs of Inl e \<Rightarrow> Inl e | Inr r \<Rightarrow> digits_loop r ys)"
  by (induction xs arbitrary: acc) (auto split: option.split)

lemma digits_loop_show_nat:
  assumes "4 \<le> LENGTH('a)"
  shows "n < 2 ^ LENGTH('a) \<Longrightarrow> digits_loop 0 (show_nat n) = Inr (of_nat n :: 'a::len word)"
proof (induction n rule: show_nat.induct)
  case (1 n)
  have "(2 :: nat) ^ 4 \<le> 2 ^ LENGTH('a)" using assms by (intro power_increasing) auto
  then have big: "10 < (2 :: nat) ^ LENGTH('a)" by simp
  have ten: "unat (10 :: 'a word) = 10"
    using unat_of_nat_lt [where 'a = 'a, of 10] big by simp
  have step: "digits_loop (of_nat m :: 'a word) [char_of (48 + d)] = Inr (of_nat (m * 10 + d))"
    if "m * 10 + d < 2 ^ LENGTH('a)" "d < 10" for m d
  proof -
    have m: "unat (of_nat m :: 'a word) = m" using that by (intro unat_of_nat_lt) linarith
    have d: "unat (of_nat d :: 'a word) = d" using that big by (intro unat_of_nat_lt) linarith
    have mul: "checked_mul (of_nat m :: 'a word) 10 = Some (of_nat m * 10)"
      using that unfolding checked_mul_def uint_fits m ten by simp
    have "of_nat m * 10 = (of_nat (m * 10) :: 'a word)" by simp
    then have m10: "unat (of_nat m * 10 :: 'a word) = m * 10"
      using that unat_of_nat_lt [where 'a = 'a, of "m * 10"] by simp
    have "checked_add (of_nat m * 10 :: 'a word) (of_nat d) = Some (of_nat m * 10 + of_nat d)"
      using that unfolding checked_add_def uint_fits m10 d by simp
    with mul show ?thesis using that(2) by (simp add: to_digit_char)
  qed
  show ?case
  proof (cases "n < 10")
    case True
    with step [of 0 n] 1 show ?thesis by (simp add: show_nat.simps [of n])
  next
    case False
    have "n div 10 < 2 ^ LENGTH('a)" using 1(2) by (rule le_less_trans [OF div_le_dividend])
    with False 1(1) have IH: "digits_loop 0 (show_nat (n div 10)) = Inr (of_nat (n div 10) :: 'a word)" by simp
    show ?thesis
      using False step [of "n div 10" "n mod 10"] 1(2) IH
      by (simp add: show_nat.simps [of n] digits_loop_append)
  qed
qed

lemma digit_not_char:
  "is_ascii_digit c \<Longrightarrow> \<not> is_whitespace c"
  "is_ascii_digit c \<Longrightarrow> \<not> is_ascii_alphabetic c"
  "is_ascii_digit c \<Longrightarrow> c \<noteq> CHR '','' \<and> c \<noteq> CHR ''-'' \<and> c \<noteq> CHR ''+'' \<and> c \<noteq> CHR '':''"
  by (auto simp: is_ascii_digit_def is_whitespace_def is_ascii_alphabetic_def is_ascii_upper_def
      is_ascii_lower_def Let_def)

text \<open>Reading back a printed number.\<close>

lemma parse_show:
  assumes "4 \<le> LENGTH('a)"
  shows "parse_uint (show_nat (unat w)) = Inr (w :: 'a::len word)"
proof -
  have digits: "\<forall>c \<in> set (show_nat (unat w)). is_ascii_digit c" using show_nat_digits by blast
  then have "hd (show_nat (unat w)) \<noteq> CHR ''+''"
    using digit_not_char(3) hd_in_set [OF show_nat_nonempty] by blast
  moreover have "show_nat (unat w) \<noteq> ''+''" "show_nat (unat w) \<noteq> ''-''"
    using digits digit_not_char(3) by (metis list.set_intros(1))+
  ultimately show ?thesis
    using digits_loop_show_nat [OF assms, of "unat w"] unat_lt_size [of w]
    by (simp add: parse_uint_def)
qed

end
