(* ===== verification/Port_Set.thy ===== *)
theory Port_Set
  imports Intervals Rust_Text
begin

text \<open>
  Port sets, as in \<open>src/src/model/port/set.rs\<close>, with the transports of \<open>src/src/model/port.rs\<close>.
  A lane is a list of inclusive ranges, and every set the module builds is canonical.
\<close>

section \<open>Transports\<close>

datatype protocol = Tcp | Udp | Sctp

definition ALL_protocols :: "protocol list" where
  "ALL_protocols = [Tcp, Udp, Sctp]"

fun spec_prefix :: "protocol \<Rightarrow> string" where
  "spec_prefix Tcp = ''''"
| "spec_prefix Udp = ''u:''"
| "spec_prefix Sctp = ''s:''"

fun qualifier :: "protocol \<Rightarrow> string" where
  "qualifier Tcp = ''t:''"
| "qualifier p = spec_prefix p"

section \<open>The set\<close>

type_synonym port_range = "u16 \<times> u16"

record port_set =
  tcp :: "port_range list"
  udp :: "port_range list"
  sctp :: "port_range list"

definition port_set_new :: port_set where
  "port_set_new = \<lparr>tcp = [], udp = [], sctp = []\<rparr>"

fun ranges :: "port_set \<Rightarrow> protocol \<Rightarrow> port_range list" where
  "ranges s Tcp = tcp s"
| "ranges s Udp = udp s"
| "ranges s Sctp = sctp s"

text \<open>Writing through \<open>lane_mut\<close>.\<close>

fun lane_mut :: "port_set \<Rightarrow> protocol \<Rightarrow> (port_range list \<Rightarrow> port_range list) \<Rightarrow> port_set" where
  "lane_mut s Tcp f = s\<lparr>tcp := f (tcp s)\<rparr>"
| "lane_mut s Udp f = s\<lparr>udp := f (udp s)\<rparr>"
| "lane_mut s Sctp f = s\<lparr>sctp := f (sctp s)\<rparr>"

definition port_joins :: "port_range \<Rightarrow> port_range \<Rightarrow> bool" where
  "port_joins current following \<longleftrightarrow> fst following \<le> saturating_add (snd current) 1"

definition port_grow :: "port_range \<Rightarrow> port_range \<Rightarrow> port_range" where
  "port_grow current following =
     (if snd following > snd current then (fst current, snd following) else current)"

definition merge_ranges :: "port_range list \<Rightarrow> port_range list" where
  "merge_ranges rs =
     (case sort_key fst rs of
        [] \<Rightarrow> rs | current # rest \<Rightarrow> merge_loop port_joins port_grow current rest)"

definition len_on :: "port_set \<Rightarrow> protocol \<Rightarrow> nat" where
  "len_on s p = (\<Sum>r\<leftarrow>ranges s p. unat (snd r - fst r) + 1)"

definition port_set_len :: "port_set \<Rightarrow> nat" where
  "port_set_len s = (\<Sum>p\<leftarrow>ALL_protocols. len_on s p)"

definition port_set_is_empty :: "port_set \<Rightarrow> bool" where
  "port_set_is_empty s \<longleftrightarrow> list_all (\<lambda>p. ranges s p = []) ALL_protocols"

definition port_set_iter :: "port_set \<Rightarrow> (u16 \<times> protocol) list" where
  "port_set_iter s =
     concat (map (\<lambda>p. concat (map (\<lambda>r. map (\<lambda>port. (port, p)) (range_inclusive (fst r) (snd r)))
                                (ranges s p))) ALL_protocols)"

definition port_union :: "port_set \<Rightarrow> port_set \<Rightarrow> port_set" where
  "port_union s other =
     foldl (\<lambda>merged p. lane_mut merged p (\<lambda>lane. merge_ranges (lane @ ranges s p @ ranges other p)))
       port_set_new ALL_protocols"

text \<open>
  \<open>difference\<close>: the inner loop over the cuts for one range, with \<open>rest\<close> where what is left of the
  range begins.
\<close>

fun cut_ports :: "u16 \<Rightarrow> u16 option \<Rightarrow> port_range list \<Rightarrow> port_range list" where
  "cut_ports stop None cuts = []"
| "cut_ports stop (Some start) [] = [(start, stop)]"
| "cut_ports stop (Some start) ((cut_start, cut_end) # cuts) =
     (if cut_end < start then cut_ports stop (Some start) cuts
      else if cut_start > stop then [(start, stop)]
      else (if cut_start > start then [(start, cut_start - 1)] else [])
        @ cut_ports stop
            (case checked_add cut_end 1 of
               Some following \<Rightarrow> (if following \<le> stop then Some following else None)
             | None \<Rightarrow> None) cuts)"

definition port_difference :: "port_set \<Rightarrow> port_set \<Rightarrow> port_set" where
  "port_difference s other =
     foldl (\<lambda>kept p. lane_mut kept p
              (\<lambda>lane. lane @ concat (map (\<lambda>r. cut_ports (snd r) (Some (fst r)) (ranges other p)) (ranges s p))))
       port_set_new ALL_protocols"

definition port_contains :: "port_set \<Rightarrow> u16 \<Rightarrow> protocol \<Rightarrow> bool" where
  "port_contains s port p \<longleftrightarrow>
     (case binary_search_by
             (\<lambda>r. if port < fst r then Greater else if port > snd r then Less else Equal)
             (ranges s p) of
        Inr _ \<Rightarrow> True | Inl _ \<Rightarrow> False)"

definition has_tcp :: "port_set \<Rightarrow> u16 \<Rightarrow> bool" where
  "has_tcp s port = port_contains s port Tcp"

definition has_udp :: "port_set \<Rightarrow> u16 \<Rightarrow> bool" where
  "has_udp s port = port_contains s port Udp"

definition has_sctp :: "port_set \<Rightarrow> u16 \<Rightarrow> bool" where
  "has_sctp s port = port_contains s port Sctp"

definition merge_lanes :: "port_set \<Rightarrow> port_set" where
  "merge_lanes s = foldl (\<lambda>s p. lane_mut s p merge_ranges) s ALL_protocols"

definition port_set_from_iter :: "(u16 \<times> protocol) list \<Rightarrow> port_set" where
  "port_set_from_iter ps =
     merge_lanes (foldl (\<lambda>s x. lane_mut s (snd x) (\<lambda>lane. lane @ [(fst x, fst x)])) port_set_new ps)"

definition COMMON_DISCOVERY_PORTS :: "u16 list" where
  "COMMON_DISCOVERY_PORTS = [22, 80, 443, 445, 3389]"

definition common_discovery :: port_set where
  "common_discovery = port_set_from_iter (map (\<lambda>port. (port, Tcp)) COMMON_DISCOVERY_PORTS)"

section \<open>Written specifications\<close>

datatype port_set_parse_error =
    InvalidPort string int_error_kind
  | InvalidRange u16 u16
  | MalformedSpec string
  | SpacedRange string
  | ServiceName string
  | NoPorts

definition FIRST_PORT :: u16 where
  "FIRST_PORT = 1"

definition split_qualifier :: "string \<Rightarrow> protocol option \<times> string" where
  "split_qualifier word =
     (case find (\<lambda>p. 2 \<le> length word \<and> eq_ignore_ascii_case (take 2 word) (qualifier p)) ALL_protocols of
        Some p \<Rightarrow> (Some p, drop 2 word) | None \<Rightarrow> (None, word))"

text \<open>The loop of \<open>refuse_spaced_range\<close> from \<open>index\<close> on; \<open>Some\<close> is its error.\<close>

fun spaced_from :: "string list \<Rightarrow> nat \<Rightarrow> string list \<Rightarrow> port_set_parse_error option" where
  "spaced_from words index [] = None"
| "spaced_from words index (word # rest) =
     (let opens_back = starts_with word (CHR ''-'') \<and> index > 0;
          opens_on = ends_with word (CHR ''-'') \<and> index + 1 < length words
      in if opens_back \<or> opens_on
         then let first = (if opens_back then index - 1 else index);
                  final = (if opens_on then index + 1 else index)
              in Some (SpacedRange (join '' '' (take (final + 1 - first) (drop first words))))
         else spaced_from words (index + 1) rest)"

definition refuse_spaced_range :: "string list \<Rightarrow> port_set_parse_error option" where
  "refuse_spaced_range words = spaced_from words 0 words"

definition port_number :: "string \<Rightarrow> string \<Rightarrow> port_set_parse_error + u16" where
  "port_number text whole =
     (case parse_uint text of
        Inr port \<Rightarrow> Inr port
      | Inl source \<Rightarrow>
          (if text \<noteq> [] \<and> is_ascii_alphabetic (hd text)
              \<and> list_all (\<lambda>c. is_ascii_alphanumeric c \<or> c = CHR ''-'' \<or> c = CHR ''_'') text
           then Inl (ServiceName whole) else Inl (InvalidPort whole source)))"

definition read_range :: "string \<Rightarrow> string \<Rightarrow> port_set_parse_error + port_range" where
  "read_range raw_range word =
     (case split_on (CHR ''-'') raw_range of
        [single] \<Rightarrow>
          (case port_number single word of Inl e \<Rightarrow> Inl e | Inr port \<Rightarrow> Inr (port, port))
      | [start_text, end_text] \<Rightarrow>
          (case (if start_text = [] then Inr FIRST_PORT else port_number start_text start_text) of
             Inl e \<Rightarrow> Inl e
           | Inr start \<Rightarrow>
               (case (if end_text = [] then Inr (- 1) else port_number end_text end_text) of
                  Inl e \<Rightarrow> Inl e
                | Inr stop \<Rightarrow> (if start > stop then Inl (InvalidRange start stop) else Inr (start, stop))))
      | _ \<Rightarrow> Inl (MalformedSpec word))"

fun read_words :: "port_set \<Rightarrow> protocol \<Rightarrow> string list \<Rightarrow> port_set_parse_error + (port_set \<times> protocol)" where
  "read_words s p [] = Inr (s, p)"
| "read_words s p (word # words) =
     (let named = fst (split_qualifier word); raw_range = snd (split_qualifier word);
          p' = (case named of Some q \<Rightarrow> q | None \<Rightarrow> p)
      in case read_range raw_range word of
           Inl e \<Rightarrow> Inl e
         | Inr r \<Rightarrow> read_words (lane_mut s p' (\<lambda>lane. lane @ [r])) p' words)"

fun read_parts :: "port_set \<Rightarrow> protocol \<Rightarrow> string list \<Rightarrow> port_set_parse_error + port_set" where
  "read_parts s p [] = Inr s"
| "read_parts s p (part # parts) =
     (let words = split_whitespace part
      in case refuse_spaced_range words of
           Some e \<Rightarrow> Inl e
         | None \<Rightarrow>
             (case read_words s p words of
                Inl e \<Rightarrow> Inl e | Inr (s', p') \<Rightarrow> read_parts s' p' parts))"

definition port_set_try_from :: "string \<Rightarrow> port_set_parse_error + port_set" where
  "port_set_try_from text =
     (case read_parts port_set_new Tcp (split_on (CHR '','') text) of
        Inl e \<Rightarrow> Inl e | Inr s \<Rightarrow> Inr (merge_lanes s))"

definition parse_scan :: "string \<Rightarrow> port_set_parse_error + port_set" where
  "parse_scan spec =
     (case port_set_try_from spec of
        Inl e \<Rightarrow> Inl e | Inr s \<Rightarrow> (if port_set_is_empty s then Inl NoPorts else Inr s))"

section \<open>Rendering\<close>

definition render_range :: "protocol \<Rightarrow> port_range \<Rightarrow> string" where
  "render_range p r =
     spec_prefix p
     @ (if fst r = snd r then show_nat (unat (fst r))
        else show_nat (unat (fst r)) @ ''-'' @ show_nat (unat (snd r)))"

text \<open>The two nested loops of \<open>fmt\<close> over what has been written so far and whether anything has.\<close>

definition write_range :: "string \<times> bool \<Rightarrow> protocol \<times> port_range \<Rightarrow> string \<times> bool" where
  "write_range out x =
     (fst out @ (if snd out then [] else '','') @ render_range (fst x) (snd x), False)"

definition port_set_display :: "port_set \<Rightarrow> string" where
  "port_set_display s =
     fst (foldl write_range ([], True) (concat (map (\<lambda>p. map (\<lambda>r. (p, r)) (ranges s p)) ALL_protocols)))"

end
