(* ===== verification/Port_Set_Correct.thy ===== *)
theory Port_Set_Correct
  imports Port_Set
begin

text \<open>
  The correctness of port sets: every set the module builds is canonical on each transport, so
  equal sets have equal ranges; membership, union and difference are those of sets of ports;
  and the rendering reads back as the set it came from.
\<close>

section \<open>What a set holds\<close>

definition ports :: "port_set \<Rightarrow> (u16 \<times> protocol) set" where
  "ports s = {(port, p). \<exists>r \<in> set (ranges s p). fst r \<le> port \<and> port \<le> snd r}"

interpretation port_lane: range_lane "\<lambda>r :: port_range. fst r \<le> snd r" "\<lambda>r. unat (fst r)"
  "\<lambda>r. unat (snd r)" port_joins port_grow
proof
  show "port_joins a b \<longleftrightarrow> unat (fst b) \<le> Suc (unat (snd a))" for a b
    by (simp add: port_joins_def le_saturating_succ)
qed (auto simp: port_grow_def max_def word_le_nat_alt word_less_nat_alt)

definition lane_ok :: "port_range list \<Rightarrow> bool" where
  "lane_ok rs \<longleftrightarrow> (\<forall>r \<in> set rs. fst r \<le> snd r) \<and> canonical (map port_lane.ival_of rs)"

definition port_set_inv :: "port_set \<Rightarrow> bool" where
  "port_set_inv s \<longleftrightarrow> lane_ok (tcp s) \<and> lane_ok (udp s) \<and> lane_ok (sctp s)"

lemma all_protocols: "(\<forall>p. P p) \<longleftrightarrow> P Tcp \<and> P Udp \<and> P Sctp"
  by (metis protocol.exhaust)

lemma port_set_inv_ranges: "port_set_inv s \<longleftrightarrow> (\<forall>p. lane_ok (ranges s p))"
  by (simp add: port_set_inv_def all_protocols)

lemma lane_points_iff: "unat port \<in> port_lane.points rs \<longleftrightarrow> (\<exists>r \<in> set rs. fst r \<le> port \<and> port \<le> snd r)"
  by (auto simp: ivals_set_iff word_le_nat_alt)

lemma ports_points: "(port, p) \<in> ports s \<longleftrightarrow> unat port \<in> port_lane.points (ranges s p)"
  by (simp add: ports_def lane_points_iff)

lemma merge_ranges_correct:
  assumes "\<forall>r \<in> set rs. fst r \<le> snd r"
  shows "lane_ok (merge_ranges rs) \<and> port_lane.points (merge_ranges rs) = port_lane.points rs"
proof (cases "sort_key fst rs")
  case Nil
  then have "rs = []" by (metis set_empty set_sort)
  then show ?thesis by (simp add: merge_ranges_def lane_ok_def)
next
  case (Cons c rest)
  have set: "set (c # rest) = set rs" by (simp only: set_sort flip: Cons)
  have "sorted (map fst (c # rest))" by (simp only: sorted_sort_key flip: Cons)
  then have sorted: "sorted (map (\<lambda>r. unat (fst r)) (c # rest))"
    unfolding sorted_map by (rule sorted_wrt_mono_rel [rotated]) (simp add: word_le_nat_alt)
  have ok: "\<forall>r \<in> set (c # rest). fst r \<le> snd r" unfolding set by (rule assms)
  have eq: "merge_ranges rs = merge_loop port_joins port_grow c rest" by (simp add: merge_ranges_def Cons)
  have pts: "port_lane.points (c # rest) = port_lane.points rs"
    using set by (simp only: ivals_set_def set_map)
  from port_lane.merge_loop_correct [OF ok sorted] show ?thesis unfolding eq pts lane_ok_def by blast
qed

lemma ranges_union: "ranges (port_union s t) p = merge_ranges (ranges s p @ ranges t p)"
  by (cases p) (simp_all add: port_union_def ALL_protocols_def port_set_new_def)

lemma ranges_difference:
  "ranges (port_difference s t) p
     = concat (map (\<lambda>r. cut_ports (snd r) (Some (fst r)) (ranges t p)) (ranges s p))"
  by (cases p) (simp_all add: port_difference_def ALL_protocols_def port_set_new_def)

lemma ranges_merge_lanes: "ranges (merge_lanes s) p = merge_ranges (ranges s p)"
  by (cases p) (simp_all add: merge_lanes_def ALL_protocols_def)

lemma ranges_lane_mut: "ranges (lane_mut s q f) p = (if p = q then f (ranges s p) else ranges s p)"
  by (cases p; cases q) simp_all

section \<open>Difference\<close>

lemma cut_ports_refines:
  assumes "canonical (map port_lane.ival_of cuts)"
  shows "map port_lane.ival_of (cut_ports stop (Some start) cuts)
    = cut_ival (unat start) (unat stop)
        (dropWhile (\<lambda>c. snd c < unat start) (map port_lane.ival_of cuts))"
  using assms
proof (induction cuts arbitrary: start)
  case (Cons c cuts)
  obtain a b where c: "c = (a, b)" by (cases c)
  have canon: "canonical (map port_lane.ival_of cuts)" using Cons.prems by (simp add: canonical_Cons)
  note IH = Cons.IH [OF canon]
  show ?case
  proof (cases "b < start \<or> a > stop")
    case True
    then show ?thesis using IH c by (auto simp: word_less_nat_alt)
  next
    case False
    then have live: "\<not> unat b < unat start" "unat a \<le> unat stop"
      by (auto simp: word_less_nat_alt)
    have gap: "map port_lane.ival_of (if a > start then [(start, a - 1)] else [])
        = (if unat start < unat a then [(unat start, unat a - 1)] else [])"
      using unat_pred [of start a] by (simp add: word_less_nat_alt)
    show ?thesis
    proof (cases "b < stop")
      case True
      have succ: "unat (b + 1) = Suc (unat b)" by (rule unat_succ [OF True])
      have "unat b + unat (1 :: u16) < 2 ^ LENGTH(16)"
        using True unat_bounds(1) [of stop] by (simp add: word_less_nat_alt)
      then have add: "checked_add b 1 = Some (b + 1)" by (simp only: checked_add_Some)
      have le: "b + 1 \<le> stop" using True succ by (simp add: word_le_nat_alt word_less_nat_alt)
      have "dropWhile (\<lambda>c. snd c < Suc (unat b)) (map port_lane.ival_of cuts) = map port_lane.ival_of cuts"
      proof (cases cuts)
        case (Cons d ds)
        then have "Suc (unat b) < unat (fst d)" "unat (fst d) \<le> unat (snd d)"
          using Cons.prems c by (auto simp: canonical_Cons)
        then show ?thesis using Cons by simp
      qed simp
      with IH [of "b + 1"] have rest: "map port_lane.ival_of (cut_ports stop (Some (b + 1)) cuts)
          = cut_ival (Suc (unat b)) (unat stop) (map port_lane.ival_of cuts)"
        by (simp add: succ)
      have "cut_ports stop (Some start) (c # cuts)
          = (if a > start then [(start, a - 1)] else []) @ cut_ports stop (Some (b + 1)) cuts"
        using False c add le by simp
      then show ?thesis using gap rest live True c by (simp add: word_less_nat_alt)
    next
      case stop: False
      have "(case checked_add b 1 of Some f \<Rightarrow> (if f \<le> stop then Some f else None) | None \<Rightarrow> None) = None"
      proof (cases "checked_add b 1")
        case (Some f)
        then have "unat f = Suc (unat b)" unfolding checked_add_Some by (simp add: unat_add_lt)
        with stop have "\<not> f \<le> stop" by (simp add: word_le_nat_alt word_less_nat_alt)
        with Some show ?thesis by simp
      qed simp
      then have "cut_ports stop (Some start) (c # cuts) = (if a > start then [(start, a - 1)] else [])"
        using False c by simp
      then show ?thesis using gap live stop c by (simp add: word_less_nat_alt)
    qed
  qed
qed simp

text \<open>Cutting every interval of a canonical list.\<close>

lemma cut_ival_live:
  assumes "cursor \<le> stop" and "canonical cuts"
  defines "pieces \<equiv> cut_ival cursor stop (dropWhile (\<lambda>c. snd c < cursor) cuts)"
  shows "canonical pieces \<and> ivals_set pieces = {cursor..stop} - ivals_set cuts
    \<and> (\<forall>p \<in> set pieces. cursor \<le> fst p \<and> fst p \<le> snd p \<and> snd p \<le> stop)"
proof -
  let ?live = "dropWhile (\<lambda>c. snd c < cursor) cuts" and ?dead = "takeWhile (\<lambda>c. snd c < cursor) cuts"
  have split: "cuts = ?dead @ ?live" by simp
  have canon: "canonical ?live" using assms(2) by (metis split canonical_append)
  have "cursor \<le> snd c" if "c \<in> set ?live" for c
  proof (cases ?live)
    case (Cons d ds)
    then have "cursor \<le> snd d" by (metis dropWhile_eq_Cons_conv not_less)
    moreover have "c = d \<or> snd d < snd c" using canon that Cons by (fastforce simp: canonical_Cons canonical_def)
    ultimately show ?thesis by auto
  next
    case Nil
    then show ?thesis using that by (simp only: list.set empty_iff)
  qed
  with cut_ival_correct [OF assms(1) canon]
  have cut: "canonical pieces" "ivals_set pieces = {cursor..stop} - ivals_set ?live"
    "\<forall>p \<in> set pieces. cursor \<le> fst p \<and> fst p \<le> snd p \<and> snd p \<le> stop"
    unfolding pieces_def by auto
  have "x < cursor" if "x \<in> ivals_set ?dead" for x
    using that by (auto simp: ivals_set_iff dest!: set_takeWhileD)
  moreover have "ivals_set cuts = ivals_set ?dead \<union> ivals_set ?live" by (metis split ivals_set_simps(3))
  ultimately have "{cursor..stop} - ivals_set cuts = {cursor..stop} - ivals_set ?live" by fastforce
  with cut show ?thesis by simp
qed

lemma cut_all:
  "canonical rs \<Longrightarrow> canonical cuts \<Longrightarrow>
   canonical (concat (map (\<lambda>r. cut_ival (fst r) (snd r) (dropWhile (\<lambda>c. snd c < fst r) cuts)) rs))
   \<and> ivals_set (concat (map (\<lambda>r. cut_ival (fst r) (snd r) (dropWhile (\<lambda>c. snd c < fst r) cuts)) rs))
     = ivals_set rs - ivals_set cuts
   \<and> (\<forall>p \<in> set (concat (map (\<lambda>r. cut_ival (fst r) (snd r) (dropWhile (\<lambda>c. snd c < fst r) cuts)) rs)).
        \<exists>r \<in> set rs. fst r \<le> fst p \<and> snd p \<le> snd r)"
proof (induction rs)
  case (Cons r rs)
  let ?cut = "\<lambda>r. cut_ival (fst r) (snd r) (dropWhile (\<lambda>c. snd c < fst r) cuts)"
  have r: "fst r \<le> snd r" "canonical rs" "\<forall>x \<in> set rs. Suc (snd r) < fst x"
    using Cons.prems by (auto simp: canonical_Cons)
  note head = cut_ival_live [OF r(1) Cons.prems(2)]
  note IH = Cons.IH [OF r(2) Cons.prems(2)]
  have "Suc (snd p) < fst q" if "p \<in> set (?cut r)" "q \<in> set (concat (map ?cut rs))" for p q
  proof -
    from IH that(2) obtain x where "x \<in> set rs" "fst x \<le> fst q" by blast
    moreover have "snd p \<le> snd r" using head that(1) by blast
    ultimately show ?thesis using r(3) by fastforce
  qed
  then have "canonical (?cut r @ concat (map ?cut rs))"
    using head IH by (auto simp: canonical_append)
  moreover have "ivals_set (?cut r @ concat (map ?cut rs)) = ivals_set (r # rs) - ivals_set cuts"
    using head IH by (simp add: Un_Diff ival_set_def)
  moreover have "\<forall>p \<in> set (?cut r @ concat (map ?cut rs)). \<exists>x \<in> set (r # rs). fst x \<le> fst p \<and> snd p \<le> snd x"
    using head IH by (fastforce simp del: set_concat)
  ultimately show ?case by simp
qed simp

lemma difference_lane:
  assumes "lane_ok rs" and "lane_ok cuts"
  defines "kept \<equiv> concat (map (\<lambda>r. cut_ports (snd r) (Some (fst r)) cuts) rs)"
  shows "lane_ok kept \<and> port_lane.points kept = port_lane.points rs - port_lane.points cuts"
proof -
  have canon: "canonical (map port_lane.ival_of rs)" "canonical (map port_lane.ival_of cuts)"
    using assms by (auto simp: lane_ok_def)
  have "map port_lane.ival_of kept = concat (map (\<lambda>r. map port_lane.ival_of (cut_ports (snd r) (Some (fst r)) cuts)) rs)"
    by (simp add: kept_def map_concat comp_def)
  also have "\<dots> = concat (map (\<lambda>i. cut_ival (fst i) (snd i) (dropWhile (\<lambda>c. snd c < fst i) (map port_lane.ival_of cuts)))
      (map port_lane.ival_of rs))"
    by (simp add: cut_ports_refines [OF canon(2)] comp_def)
  finally have eq: "map port_lane.ival_of kept = concat (map (\<lambda>i. cut_ival (fst i) (snd i)
      (dropWhile (\<lambda>c. snd c < fst i) (map port_lane.ival_of cuts))) (map port_lane.ival_of rs))" .
  have pts: "canonical (map port_lane.ival_of kept)"
    "port_lane.points kept = port_lane.points rs - port_lane.points cuts"
    using cut_all [OF canon] unfolding eq by blast+
  have "\<forall>r \<in> set kept. fst r \<le> snd r" using pts(1) by (auto simp: canonical_def word_le_nat_alt)
  with pts show ?thesis by (simp add: lane_ok_def)
qed

section \<open>Membership and counting\<close>

lemma port_contains_iff:
  assumes "lane_ok (ranges s p)"
  shows "port_contains s port p \<longleftrightarrow> (port, p) \<in> ports s"
proof -
  let ?f = "\<lambda>r. if port < fst r then Greater else if port > snd r then Less else Equal"
  let ?g = "\<lambda>r. if unat port < unat (fst r) then Greater else if unat (snd r) < unat port then Less else Equal"
  have "?f = ?g" by (rule ext) (auto simp: word_less_nat_alt)
  moreover have "(\<exists>k. binary_search_by ?g (ranges s p) = Inr k) \<longleftrightarrow> unat port \<in> port_lane.points (ranges s p)"
    using assms by (intro port_lane.search_iff) (simp add: lane_ok_def)
  ultimately show ?thesis
    by (auto simp: port_contains_def ports_points split: sum.splits)
qed

lemma lane_enum:
  "map unat (concat (map (\<lambda>r. range_inclusive (fst r) (snd r)) rs)) = enum_ivals (map port_lane.ival_of rs)"
  by (induction rs) (simp_all add: map_unat_range_inclusive del: upt_Suc)

lemma lane_distinct:
  assumes "lane_ok rs"
  shows "distinct (concat (map (\<lambda>r. range_inclusive (fst r) (snd r)) rs))"
proof -
  have "distinct (map unat (concat (map (\<lambda>r. range_inclusive (fst r) (snd r)) rs)))"
    unfolding lane_enum using assms by (intro enum_ivals_distinct) (simp add: lane_ok_def)
  then show ?thesis unfolding distinct_map by blast
qed

lemma lane_length:
  assumes "lane_ok rs"
  shows "length (concat (map (\<lambda>r. range_inclusive (fst r) (snd r)) rs)) = (\<Sum>r\<leftarrow>rs. unat (snd r - fst r) + 1)"
proof -
  have "length (concat (map (\<lambda>r. range_inclusive (fst r) (snd r)) rs)) = length (enum_ivals (map port_lane.ival_of rs))"
    by (simp only: lane_enum [symmetric] length_map)
  also have "\<dots> = (\<Sum>r\<leftarrow>rs. Suc (unat (snd r)) - unat (fst r))" by (simp add: length_enum_ivals comp_def)
  also have "\<dots> = (\<Sum>r\<leftarrow>rs. unat (snd r - fst r) + 1)"
  proof (rule arg_cong [where f = sum_list], rule map_cong [OF refl])
    fix r assume "r \<in> set rs"
    then have "fst r \<le> snd r" using assms by (simp add: lane_ok_def)
    then show "Suc (unat (snd r)) - unat (fst r) = unat (snd r - fst r) + 1"
      by (simp add: unat_sub word_le_nat_alt)
  qed
  finally show ?thesis .
qed

abbreviation lane_list :: "port_set \<Rightarrow> protocol \<Rightarrow> (u16 \<times> protocol) list" where
  "lane_list s p \<equiv> map (\<lambda>port. (port, p)) (concat (map (\<lambda>r. range_inclusive (fst r) (snd r)) (ranges s p)))"

lemma iter_lanes: "port_set_iter s = lane_list s Tcp @ lane_list s Udp @ lane_list s Sctp"
  by (simp add: port_set_iter_def ALL_protocols_def map_concat comp_def)

lemma set_lane_list: "set (lane_list s p) = {x \<in> ports s. snd x = p}"
proof -
  have "x \<in> (\<Union>r \<in> set (ranges s p). {fst r..snd r}) \<longleftrightarrow> (x, p) \<in> ports s" for x
    by (simp add: ports_def)
  then show ?thesis by (force simp: set_range_inclusive)
qed

lemma iter_correct_lanes:
  assumes "port_set_inv s"
  shows "distinct (port_set_iter s)" "set (port_set_iter s) = ports s" "length (port_set_iter s) = port_set_len s"
proof -
  have ok: "lane_ok (ranges s p)" for p using assms by (simp add: port_set_inv_ranges)
  have "distinct (lane_list s p)" for p using lane_distinct [OF ok] by (simp add: distinct_map inj_on_def)
  moreover have "set (lane_list s p) \<inter> set (lane_list s q) = {}" if "p \<noteq> q" for p q
    using that by auto
  ultimately show "distinct (port_set_iter s)" unfolding iter_lanes by (simp only: distinct_append set_append) auto
  show "set (port_set_iter s) = ports s"
    unfolding iter_lanes set_append set_lane_list by (auto intro: protocol.exhaust)
  have "length (lane_list s p) = len_on s p" for p by (simp only: length_map lane_length [OF ok] len_on_def)
  then show "length (port_set_iter s) = port_set_len s"
    unfolding iter_lanes by (simp only: length_append) (simp add: port_set_len_def ALL_protocols_def)
qed

lemma lane_unique:
  assumes "lane_ok rs" and "lane_ok ts" and "port_lane.points rs = port_lane.points ts"
  shows "rs = ts"
proof -
  have "map port_lane.ival_of rs = map port_lane.ival_of ts"
    using assms by (intro canonical_unique) (auto simp: lane_ok_def)
  moreover have "inj port_lane.ival_of" by (auto simp: inj_on_def word_unat_eq_iff)
  ultimately show ?thesis by (simp add: inj_map_eq_map)
qed

lemma points_of_ports: "port_lane.points (ranges s p) = unat ` {port. (port, p) \<in> ports s}"
proof
  show "port_lane.points (ranges s p) \<subseteq> unat ` {port. (port, p) \<in> ports s}"
  proof
    fix x assume x: "x \<in> port_lane.points (ranges s p)"
    then obtain r where "r \<in> set (ranges s p)" "x \<le> unat (snd r)" by (auto simp: ivals_set_iff)
    then have "unat (of_nat x :: u16) = x"
      using unat_lt_size [of "snd r"] by (intro unat_of_nat_lt) linarith
    with x show "x \<in> unat ` {port. (port, p) \<in> ports s}"
      by (intro image_eqI [of _ _ "of_nat x"]) (simp_all add: ports_points)
  qed
qed (auto simp: ports_points)

lemma from_iter_lanes:
  "ranges (foldl (\<lambda>s x. lane_mut s (snd x) (\<lambda>lane. lane @ [(fst x, fst x)])) s ps) p
     = ranges s p @ map (\<lambda>x. (fst x, fst x)) (filter (\<lambda>x. snd x = p) ps)"
  by (induction ps arbitrary: s) (simp_all add: ranges_lane_mut)

section \<open>Reading a specification\<close>

definition ordered :: "port_set \<Rightarrow> bool" where
  "ordered s \<longleftrightarrow> (\<forall>p. \<forall>r \<in> set (ranges s p). fst r \<le> snd r)"

lemma read_range_ordered: "read_range raw word = Inr r \<Longrightarrow> fst r \<le> snd r"
  by (auto simp: read_range_def split: list.splits sum.splits if_splits)

lemma read_words_ordered:
  "read_words s p ws = Inr (s', p') \<Longrightarrow> ordered s \<Longrightarrow> ordered s'"
proof (induction s p ws rule: read_words.induct)
  case (2 s p word words)
  then obtain r where r: "read_range (snd (split_qualifier word)) word = Inr r"
    by (auto simp: Let_def split: sum.splits)
  let ?q = "case fst (split_qualifier word) of Some q \<Rightarrow> q | None \<Rightarrow> p"
  have "ordered (lane_mut s ?q (\<lambda>lane. lane @ [r]))"
    using 2(3) read_range_ordered [OF r] by (auto simp: ordered_def ranges_lane_mut)
  with 2(1,2) r show ?case by (simp add: Let_def)
qed simp

lemma read_parts_ordered: "read_parts s p parts = Inr s' \<Longrightarrow> ordered s \<Longrightarrow> ordered s'"
  by (induction s p parts rule: read_parts.induct)
    (auto simp: Let_def split: option.splits sum.splits dest: read_words_ordered)

lemma merge_lanes_correct:
  assumes "ordered s"
  shows "port_set_inv (merge_lanes s) \<and> ports (merge_lanes s) = ports s"
proof -
  have "lane_ok (ranges (merge_lanes s) p)
      \<and> port_lane.points (ranges (merge_lanes s) p) = port_lane.points (ranges s p)" for p
    unfolding ranges_merge_lanes using assms by (intro merge_ranges_correct) (simp add: ordered_def)
  then show ?thesis by (auto simp: port_set_inv_ranges ports_points)
qed

lemma ranges_new: "ranges port_set_new p = []"
  by (cases p) (simp_all add: port_set_new_def)

lemma ordered_new: "ordered port_set_new"
  by (simp add: ordered_def all_protocols port_set_new_def)

section \<open>Rendering and reading back\<close>

lemma digits_no: "c \<in> set (show_nat n) \<Longrightarrow> \<not> is_whitespace c \<and> c \<noteq> CHR '','' \<and> c \<noteq> CHR ''-''"
  using show_nat_digits digit_not_char by blast

lemma split_qualifier_render:
  "split_qualifier (spec_prefix q @ show_nat n @ rest) = (if q = Tcp then None else Some q, show_nat n @ rest)"
proof (cases q)
  case Tcp
  let ?w = "show_nat n @ rest"
  have hd: "is_ascii_digit (hd ?w)" using show_nat_digits [of "hd (show_nat n)" n] by simp
  have no: "\<not> eq_ignore_ascii_case (take 2 ?w) (qualifier p)" for p
  proof -
    have "take 2 ?w = hd ?w # take 1 (tl ?w)"
      by (cases "show_nat n") (simp_all add: numeral_2_eq_2)
    moreover have "to_ascii_lowercase (hd ?w) = hd ?w"
      using hd digit_not_char(2) by (auto simp: to_ascii_lowercase_def is_ascii_alphabetic_def)
    moreover have "hd ?w \<noteq> CHR ''t''" "hd ?w \<noteq> CHR ''u''" "hd ?w \<noteq> CHR ''s''"
      using hd by (auto simp: is_ascii_digit_def Let_def)
    moreover have "to_ascii_lowercase (CHR ''t'') = CHR ''t''" "to_ascii_lowercase (CHR ''u'') = CHR ''u''"
      "to_ascii_lowercase (CHR ''s'') = CHR ''s''"
      by (simp_all add: to_ascii_lowercase_def is_ascii_upper_def)
    ultimately show ?thesis by (cases p) (auto simp: eq_ignore_ascii_case_def)
  qed
  then show ?thesis using Tcp by (simp add: split_qualifier_def ALL_protocols_def)
next
  case Udp
  then show ?thesis
    by (simp add: split_qualifier_def ALL_protocols_def eq_ignore_ascii_case_def to_ascii_lowercase_def
        is_ascii_upper_def)
next
  case Sctp
  then show ?thesis
    by (simp add: split_qualifier_def ALL_protocols_def eq_ignore_ascii_case_def to_ascii_lowercase_def
        is_ascii_upper_def)
qed

lemma port_number_show: "port_number (show_nat (unat port)) whole = Inr port"
  using parse_show [where 'a = 16, of port] by (simp add: port_number_def)

lemma split_show: "split_on (CHR ''-'') (show_nat n) = [show_nat n]"
  using digits_no by (intro split_by_none) blast

lemma read_range_render:
  assumes "fst r \<le> snd r"
  shows "read_range (if fst r = snd r then show_nat (unat (fst r))
      else show_nat (unat (fst r)) @ ''-'' @ show_nat (unat (snd r))) word = Inr r"
proof (cases "fst r = snd r")
  case True
  then show ?thesis by (simp add: read_range_def split_show port_number_show prod_eq_iff)
next
  case False
  have "split_on (CHR ''-'') (show_nat (unat (fst r)) @ CHR ''-'' # show_nat (unat (snd r)))
      = [show_nat (unat (fst r)), show_nat (unat (snd r))]"
    using digits_no by (subst split_by_append) (auto simp: split_show)
  with False assms show ?thesis by (simp add: read_range_def port_number_show)
qed

lemma render_word:
  "render_range q r \<noteq> []" "c \<in> set (render_range q r) \<Longrightarrow> \<not> is_whitespace c \<and> c \<noteq> CHR '',''"
proof -
  show "render_range q r \<noteq> []" by (simp add: render_range_def)
  have "\<not> is_whitespace (CHR ''-'')" "\<not> is_whitespace (CHR ''u'')" "\<not> is_whitespace (CHR ''s'')"
    "\<not> is_whitespace (CHR '':'')"
    by (simp_all add: is_whitespace_def)
  then show "c \<in> set (render_range q r) \<Longrightarrow> \<not> is_whitespace c \<and> c \<noteq> CHR '',''"
    by (cases q) (auto simp: render_range_def digits_no split: if_splits dest: digits_no)
qed

lemma read_words_render:
  assumes "fst r \<le> snd r" and "q = Tcp \<longrightarrow> p = Tcp"
  shows "read_words s p [render_range q r] = Inr (lane_mut s q (\<lambda>lane. lane @ [r]), q)"
proof -
  let ?raw = "if fst r = snd r then show_nat (unat (fst r))
      else show_nat (unat (fst r)) @ ''-'' @ show_nat (unat (snd r))"
  have "split_qualifier (render_range q r) = (if q = Tcp then None else Some q, ?raw)"
    using split_qualifier_render [of q "unat (fst r)" "[]"]
      split_qualifier_render [of q "unat (fst r)" "CHR ''-'' # show_nat (unat (snd r))"]
    by (cases "fst r = snd r") (simp_all add: render_range_def)
  then show ?thesis using assms(2) read_range_render [OF assms(1)] by (simp add: Let_def)
qed

lemma lane_mut_comp: "lane_mut (lane_mut s q f) q g = lane_mut s q (\<lambda>lane. g (f lane))"
  by (cases q) simp_all

lemma lane_mut_id: "lane_mut s q (\<lambda>lane. lane) = s"
  by (cases q) simp_all

lemma read_parts_render:
  "\<forall>r \<in> set rs. fst r \<le> snd r \<Longrightarrow> q = Tcp \<longrightarrow> p = Tcp \<Longrightarrow>
   read_parts s p (map (render_range q) rs @ parts)
     = read_parts (lane_mut s q (\<lambda>lane. lane @ rs)) (if rs = [] then p else q) parts"
proof (induction rs arbitrary: s p)
  case (Cons r rs)
  have "split_whitespace (render_range q r) = [render_range q r]"
    using render_word by (intro split_whitespace_word) blast+
  moreover have "refuse_spaced_range [render_range q r] = None" by (simp add: refuse_spaced_range_def)
  moreover have "read_words s p [render_range q r] = Inr (lane_mut s q (\<lambda>lane. lane @ [r]), q)"
    using Cons.prems by (intro read_words_render) auto
  ultimately have "read_parts s p (map (render_range q) (r # rs) @ parts)
      = read_parts (lane_mut s q (\<lambda>lane. lane @ [r])) q (map (render_range q) rs @ parts)"
    by (simp add: Let_def)
  then show ?case using Cons by (simp add: lane_mut_comp)
qed (simp add: lane_mut_id)

lemma foldl_write_range:
  "fst (foldl write_range (acc, False) xs) = acc @ concat (map (\<lambda>x. '','' @ render_range (fst x) (snd x)) xs)"
  by (induction xs arbitrary: acc) (simp_all add: write_range_def)

lemma join_concat: "join sep (w # ws) = w @ concat (map (\<lambda>v. sep @ v) ws)"
  by (induction ws arbitrary: w) auto

abbreviation items :: "port_set \<Rightarrow> (protocol \<times> port_range) list" where
  "items s \<equiv> map (Pair Tcp) (tcp s) @ map (Pair Udp) (udp s) @ map (Pair Sctp) (sctp s)"

lemma display_join:
  "port_set_display s = join '','' (map (\<lambda>x. render_range (fst x) (snd x)) (items s))"
proof -
  have eq: "fst (foldl write_range ([], True) xs) = join '','' (map (\<lambda>x. render_range (fst x) (snd x)) xs)" for xs
  proof (cases xs)
    case (Cons x xs')
    then show ?thesis
      using foldl_write_range [of "render_range (fst x) (snd x)" xs']
      by (simp add: write_range_def join_concat comp_def)
  qed simp
  show ?thesis unfolding port_set_display_def eq by (simp add: ALL_protocols_def)
qed

lemma merge_ranges_idle: "lane_ok rs \<Longrightarrow> merge_ranges rs = rs"
  using merge_ranges_correct [of rs] by (intro lane_unique) (auto simp: lane_ok_def)

lemma merge_lanes_idle: "port_set_inv s \<Longrightarrow> merge_lanes s = s"
  by (simp add: merge_lanes_def ALL_protocols_def port_set_inv_def merge_ranges_idle)

section \<open>The contract of a port set\<close>

definition sample_ports :: port_set where
  "sample_ports = \<lparr>tcp = [(80, 80), (1000, 1005)], udp = [(53, 53)], sctp = [(2905, 2905)]\<rparr>"

lemma sample_ports_inv: "port_set_inv sample_ports"
  by (simp add: port_set_inv_def sample_ports_def lane_ok_def canonical_def)

text \<open>
  Membership by binary search answers exactly the ports a canonical set holds, and the
  enumeration lists each of them once, as many as the length says.
\<close>

theorem port_contains_correct:
  assumes "port_set_inv s"
  shows "(port_contains s port p \<longleftrightarrow> (port, p) \<in> ports s)
    \<and> distinct (port_set_iter s) \<and> set (port_set_iter s) = ports s
    \<and> port_set_len s = card (ports s)"
proof -
  have "port_set_len s = card (ports s)"
    using iter_correct_lanes [OF assms] by (metis distinct_card)
  then show ?thesis
    using assms iter_correct_lanes [OF assms] port_contains_iff [of s p port]
    by (simp add: port_set_inv_ranges)
qed

theorem port_contains_correct_witness:
  "(1003, Tcp) \<in> ports sample_ports \<and> (1003, Udp) \<notin> ports sample_ports \<and> card (ports sample_ports) = 9"
proof -
  have "port_contains sample_ports 1003 Tcp" "\<not> port_contains sample_ports 1003 Udp"
    "port_set_len sample_ports = 9"
    by code_simp+
  then show ?thesis using port_contains_correct [OF sample_ports_inv] by metis
qed

text \<open>
  Union and difference of canonical sets are canonical and hold exactly the union and the
  difference of the ports; no arithmetic on a port wraps.
\<close>

theorem port_arithmetic_correct:
  assumes "port_set_inv s" and "port_set_inv t"
  shows "port_set_inv (port_union s t) \<and> ports (port_union s t) = ports s \<union> ports t
    \<and> port_set_inv (port_difference s t) \<and> ports (port_difference s t) = ports s - ports t"
proof -
  have ok: "lane_ok (ranges s p)" "lane_ok (ranges t p)" for p
    using assms by (simp_all add: port_set_inv_ranges)
  have u: "lane_ok (ranges (port_union s t) p)
      \<and> port_lane.points (ranges (port_union s t) p)
        = port_lane.points (ranges s p) \<union> port_lane.points (ranges t p)" for p
    using merge_ranges_correct [of "ranges s p @ ranges t p"] ok [of p]
    by (auto simp: ranges_union lane_ok_def)
  have d: "lane_ok (ranges (port_difference s t) p)
      \<and> port_lane.points (ranges (port_difference s t) p)
        = port_lane.points (ranges s p) - port_lane.points (ranges t p)" for p
    unfolding ranges_difference by (rule difference_lane [OF ok])
  have "x \<in> ports (port_union s t) \<longleftrightarrow> x \<in> ports s \<union> ports t"
    "x \<in> ports (port_difference s t) \<longleftrightarrow> x \<in> ports s - ports t" for x
    using u d by (cases x; simp add: ports_points)+
  then have "ports (port_union s t) = ports s \<union> ports t" "ports (port_difference s t) = ports s - ports t"
    by blast+
  with u d show ?thesis by (simp add: port_set_inv_ranges)
qed

theorem port_arithmetic_correct_witness:
  "port_difference sample_ports \<lparr>tcp = [(1002, 65535)], udp = [], sctp = []\<rparr>
     = \<lparr>tcp = [(80, 80), (1000, 1001)], udp = [(53, 53)], sctp = [(2905, 2905)]\<rparr>
   \<and> ports (port_difference sample_ports \<lparr>tcp = [(1002, 65535)], udp = [], sctp = []\<rparr>)
     = ports sample_ports - ports \<lparr>tcp = [(1002, 65535)], udp = [], sctp = []\<rparr>"
proof
  let ?t = "\<lparr>tcp = [(1002, 65535)], udp = [], sctp = []\<rparr>"
  show "port_difference sample_ports ?t
     = \<lparr>tcp = [(80, 80), (1000, 1001)], udp = [(53, 53)], sctp = [(2905, 2905)]\<rparr>" by code_simp
  have "port_set_inv ?t" by (simp add: port_set_inv_def lane_ok_def canonical_def)
  then show "ports (port_difference sample_ports ?t) = ports sample_ports - ports ?t"
    using port_arithmetic_correct [OF sample_ports_inv] by blast
qed

text \<open>
  A canonical port set is determined by its ports, so structural equality is equality of
  what the sets hold.
\<close>

theorem port_set_unique:
  assumes "port_set_inv s" and "port_set_inv t"
  shows "s = t \<longleftrightarrow> ports s = ports t"
proof
  assume eq: "ports s = ports t"
  have "ranges s p = ranges t p" for p
    using assms by (intro lane_unique) (simp_all add: port_set_inv_ranges points_of_ports eq)
  then have "tcp s = tcp t" "udp s = udp t" "sctp s = sctp t" by (metis ranges.simps)+
  then show "s = t" by simp
qed simp

theorem port_set_unique_witness:
  "port_set_from_iter [(443, Tcp), (53, Udp), (444, Tcp)]
     = \<lparr>tcp = [(443, 444)], udp = [(53, 53)], sctp = []\<rparr>
   \<and> ports (port_set_from_iter [(443, Tcp), (53, Udp), (444, Tcp)])
     = ports \<lparr>tcp = [(443, 444)], udp = [(53, 53)], sctp = []\<rparr>"
proof -
  let ?s = "port_set_from_iter [(443, Tcp), (53, Udp), (444, Tcp)]"
  let ?t = "\<lparr>tcp = [(443, 444)], udp = [(53, 53)], sctp = []\<rparr>"
  have eq: "?s = ?t" by code_simp
  have "port_set_inv ?t" by (simp add: port_set_inv_def lane_ok_def canonical_def)
  then show ?thesis using port_set_unique [of ?s ?t] eq by simp
qed

text \<open>
  Every specification that reads yields a canonical set, collecting port and protocol pairs
  yields exactly those, and a scan's specification never reads as a set that names no port.
\<close>

theorem reading_is_canonical:
  "(case port_set_try_from text of Inr s \<Rightarrow> port_set_inv s | Inl e \<Rightarrow> True)
   \<and> (case parse_scan text of
        Inr s \<Rightarrow> port_set_try_from text = Inr s \<and> ports s \<noteq> {}
      | Inl NoPorts \<Rightarrow> port_set_try_from text = Inr port_set_new \<or> port_set_try_from text = Inl NoPorts
      | Inl e \<Rightarrow> port_set_try_from text = Inl e)
   \<and> port_set_inv (port_set_from_iter ps) \<and> ports (port_set_from_iter ps) = set ps"
proof (intro conjI)
  have ok: "port_set_inv s" if "port_set_try_from text = Inr s" for s
    using that read_parts_ordered [OF _ ordered_new] merge_lanes_correct
    by (auto simp: port_set_try_from_def split: sum.splits)
  then show "case port_set_try_from text of Inr s \<Rightarrow> port_set_inv s | Inl e \<Rightarrow> True"
    by (simp split: sum.split)
  have empty: "port_set_is_empty s \<longleftrightarrow> s = port_set_new" for s
    by (auto simp: port_set_is_empty_def ALL_protocols_def port_set_new_def)
  have some: "ports s \<noteq> {}" if s: "port_set_try_from text = Inr s" "\<not> port_set_is_empty s" for s
  proof -
    have "\<exists>p. ranges s p \<noteq> []" using s(2) by (auto simp: port_set_is_empty_def list_all_iff)
    then obtain p r where r: "r \<in> set (ranges s p)" by (meson list.set_sel(1))
    then have "fst r \<le> snd r" using ok [OF s(1)] by (simp add: port_set_inv_ranges lane_ok_def)
    with r have "(fst r, p) \<in> ports s" unfolding ports_def by blast
    then show ?thesis by blast
  qed
  show "case parse_scan text of
        Inr s \<Rightarrow> port_set_try_from text = Inr s \<and> ports s \<noteq> {}
      | Inl NoPorts \<Rightarrow> port_set_try_from text = Inr port_set_new \<or> port_set_try_from text = Inl NoPorts
      | Inl e \<Rightarrow> port_set_try_from text = Inl e"
    using some by (auto simp: parse_scan_def empty split: sum.splits port_set_parse_error.splits)
  have lanes: "ranges (foldl (\<lambda>s x. lane_mut s (snd x) (\<lambda>lane. lane @ [(fst x, fst x)])) port_set_new ps) p
      = map (\<lambda>x. (fst x, fst x)) (filter (\<lambda>x. snd x = p) ps)" for p
    unfolding from_iter_lanes by (cases p) (simp_all add: port_set_new_def)
  have "ordered (foldl (\<lambda>s x. lane_mut s (snd x) (\<lambda>lane. lane @ [(fst x, fst x)])) port_set_new ps)"
    unfolding ordered_def lanes by simp
  note merged = merge_lanes_correct [OF this]
  show "port_set_inv (port_set_from_iter ps)" using merged by (simp add: port_set_from_iter_def)
  have "(port, p) \<in> ports (port_set_from_iter ps) \<longleftrightarrow> (port, p) \<in> set ps" for port p
    using merged by (force simp: port_set_from_iter_def ports_def lanes)
  then show "ports (port_set_from_iter ps) = set ps" by auto
qed

text \<open>
  C40. Rendering a canonical set and reading the text back gives the same set.
\<close>

theorem display_round_trip:
  assumes "port_set_inv s"
  shows "port_set_try_from (port_set_display s) = Inr s"
proof -
  have ok: "\<forall>r \<in> set (ranges s p). fst r \<le> snd r" for p
    using assms by (simp add: port_set_inv_ranges lane_ok_def)
  have ordered: "\<forall>r \<in> set (tcp s). fst r \<le> snd r" "\<forall>r \<in> set (udp s). fst r \<le> snd r"
    "\<forall>r \<in> set (sctp s). fst r \<le> snd r"
    using ok [of Tcp] ok [of Udp] ok [of Sctp] by simp_all
  let ?words = "map (render_range Tcp) (tcp s) @ map (render_range Udp) (udp s) @ map (render_range Sctp) (sctp s) @ []"
  have words: "map (\<lambda>x. render_range (fst x) (snd x)) (items s) = ?words" by simp
  have "read_parts port_set_new Tcp ?words = read_parts (lane_mut port_set_new Tcp (\<lambda>lane. lane @ tcp s))
      (if tcp s = [] then Tcp else Tcp) (map (render_range Udp) (udp s) @ map (render_range Sctp) (sctp s) @ [])"
    by (rule read_parts_render [OF ordered(1)]) simp
  also have "\<dots> = read_parts (lane_mut (lane_mut port_set_new Tcp (\<lambda>lane. lane @ tcp s)) Udp (\<lambda>lane. lane @ udp s))
      (if udp s = [] then (if tcp s = [] then Tcp else Tcp) else Udp) (map (render_range Sctp) (sctp s) @ [])"
    by (rule read_parts_render [OF ordered(2)]) simp
  also have "\<dots> = read_parts (lane_mut (lane_mut (lane_mut port_set_new Tcp (\<lambda>lane. lane @ tcp s)) Udp
      (\<lambda>lane. lane @ udp s)) Sctp (\<lambda>lane. lane @ sctp s))
      (if sctp s = [] then (if udp s = [] then (if tcp s = [] then Tcp else Tcp) else Udp) else Sctp) []"
    by (rule read_parts_render [OF ordered(3)]) simp
  finally have read: "read_parts port_set_new Tcp ?words = Inr s" by (simp add: port_set_new_def)
  have "read_parts port_set_new Tcp (split_on (CHR '','') (port_set_display s)) = Inr s"
  proof (cases "?words = []")
    case True
    then have "port_set_display s = []" unfolding display_join words by (simp only: join.simps)
    moreover from True have "s = port_set_new" by (simp add: port_set_new_def)
    ultimately show ?thesis
      by (simp add: split_whitespace_def refuse_spaced_range_def Let_def)
  next
    case False
    have "split_on (CHR '','') (join '','' ?words) = ?words"
      using False render_word(2) by (intro split_join) auto
    then show ?thesis unfolding display_join words using read by (simp only:)
  qed
  then show ?thesis using merge_lanes_idle [OF assms] by (simp add: port_set_try_from_def)
qed

theorem display_round_trip_witness:
  "port_set_display sample_ports = ''80,1000-1005,u:53,s:2905''
   \<and> port_set_try_from ''80,1000-1005,u:53,s:2905'' = Inr sample_ports"
proof -
  have "port_set_display sample_ports = ''80,1000-1005,u:53,s:2905''"
    by (simp add: port_set_display_def ALL_protocols_def sample_ports_def write_range_def render_range_def
        show_nat.simps char_of_def bit_0)
  then show ?thesis using display_round_trip [OF sample_ports_inv] by simp
qed

end
