(* ===== verification/Scoped.thy ===== *)
theory Scoped
  imports Ip_Set Rust_Text
begin

text \<open>
  Addresses with the interface they are valid on, and the map from a scan's link-local ranges
  to their interfaces, as in \<open>src/src/model/ip/scoped.rs\<close>.
\<close>

section \<open>Zones\<close>

record zone =
  zone_index :: "u32 option"
  zone_name :: string

definition zone_unresolved :: "string \<Rightarrow> zone" where
  "zone_unresolved name = \<lparr>zone_index = None, zone_name = name\<rparr>"

definition zone_new :: "u32 \<Rightarrow> string \<Rightarrow> zone" where
  "zone_new index name =
     (if index = 0 then zone_unresolved name else \<lparr>zone_index = Some index, zone_name = name\<rparr>)"

definition identity :: "zone \<Rightarrow> u32 option \<times> string option" where
  "identity z =
     (case zone_index z of Some index \<Rightarrow> (Some index, None) | None \<Rightarrow> (None, Some (zone_name z)))"

definition zone_eq :: "zone \<Rightarrow> zone \<Rightarrow> bool" where
  "zone_eq a b \<longleftrightarrow> identity a = identity b"

section \<open>Scoped addresses\<close>

record scoped_ip =
  scoped_addr :: ip_addr
  scoped_zone :: "zone option"

text \<open>\<open>Ipv6Addr::is_unicast_link_local\<close>: the first ten bits are those of \<open>fe80::/10\<close>.\<close>

definition is_unicast_link_local :: "ipv6_addr \<Rightarrow> bool" where
  "is_unicast_link_local a \<longleftrightarrow> drop_bit 112 a AND 0xffc0 = 0xfe80"

fun needs_zone :: "ip_addr \<Rightarrow> bool" where
  "needs_zone (V4 _) = False"
| "needs_zone (V6 a) = is_unicast_link_local a"

definition unscoped :: "ip_addr \<Rightarrow> scoped_ip" where
  "unscoped addr = \<lparr>scoped_addr = addr, scoped_zone = None\<rparr>"

definition scoped :: "ip_addr \<Rightarrow> zone \<Rightarrow> scoped_ip" where
  "scoped addr z = \<lparr>scoped_addr = addr, scoped_zone = (if needs_zone addr then Some z else None)\<rparr>"

definition resolved_index :: "scoped_ip \<Rightarrow> u32 option" where
  "resolved_index s = (case scoped_zone s of None \<Rightarrow> None | Some z \<Rightarrow> zone_index z)"

definition is_unusable :: "scoped_ip \<Rightarrow> bool" where
  "is_unusable s \<longleftrightarrow> needs_zone (scoped_addr s) \<and> resolved_index s = None"

text \<open>\<open>SocketAddr\<close>: an address, a port, and for IPv6 the scope id.\<close>

datatype socket_addr = SocketV4 ipv4_addr u16 | SocketV6 ipv6_addr u16 u32

fun socket_addr_new :: "ip_addr \<Rightarrow> u16 \<Rightarrow> socket_addr" where
  "socket_addr_new (V4 a) port = SocketV4 a port"
| "socket_addr_new (V6 a) port = SocketV6 a port 0"

definition to_socket_addr :: "scoped_ip \<Rightarrow> u16 \<Rightarrow> socket_addr option" where
  "to_socket_addr s port =
     (if is_unusable s then None
      else case (scoped_addr s, resolved_index s) of
             (V6 a, Some scope_id) \<Rightarrow> Some (SocketV6 a port scope_id)
           | (addr, _) \<Rightarrow> Some (socket_addr_new addr port))"

section \<open>The zones of a scan\<close>

type_synonym zone_map = "(ipv6_range \<times> zone) list"

definition zone_map_insert :: "zone_map \<Rightarrow> ipv6_range \<Rightarrow> (u32 \<times> string) list \<Rightarrow> zone_map" where
  "zone_map_insert m r interfaces =
     (case zone6 r of
        None \<Rightarrow> m
      | Some index \<Rightarrow>
          (let name = (case find (\<lambda>i. fst i = index) interfaces of
                         None \<Rightarrow> show_nat (unat index) | Some i \<Rightarrow> snd i)
           in m @ [(r, zone_new index name)]))"

fun zone_search :: "zone option \<Rightarrow> zone list \<Rightarrow> zone option" where
  "zone_search found [] = found"
| "zone_search None (z # zs) = zone_search (Some z) zs"
| "zone_search (Some held) (z # zs) = (if zone_eq held z then zone_search (Some held) zs else None)"

fun zone_for :: "zone_map \<Rightarrow> ip_addr \<Rightarrow> zone option" where
  "zone_for m (V4 _) = None"
| "zone_for m (V6 a) = zone_search None (map snd (filter (\<lambda>x. ipv6_contains (fst x) a) m))"

definition zone_of :: "zone_map \<Rightarrow> ip_addr \<Rightarrow> u32 option" where
  "zone_of m ip = (case zone_for m ip of None \<Rightarrow> None | Some z \<Rightarrow> zone_index z)"

definition zone_map_key :: "zone_map \<Rightarrow> ip_addr \<Rightarrow> scoped_ip" where
  "zone_map_key m ip = (case zone_for m ip of Some z \<Rightarrow> scoped ip z | None \<Rightarrow> unscoped ip)"

definition contests :: "zone_map \<Rightarrow> ipv6_range \<Rightarrow> bool" where
  "contests m r \<longleftrightarrow> list_ex (\<lambda>x. zone6 (fst x) \<noteq> zone6 r \<and> ipv6_overlaps (fst x) r) m"

definition endpoint :: "zone_map \<Rightarrow> ip_addr \<Rightarrow> u16 \<Rightarrow> socket_addr" where
  "endpoint m ip port =
     (case (ip, zone_of m ip) of
        (V6 a, Some z) \<Rightarrow> SocketV6 a port z
      | _ \<Rightarrow> socket_addr_new ip port)"

end
