(* ===== verification/Target.thy ===== *)
theory Target
  imports Positions Port_Set Scoped
begin

text \<open>
  What a scan was asked to cover, as in \<open>src/src/model/target.rs\<close>: targets, sets of addresses
  paired with ports, maps of several such sets, and the index that addresses the targets of a
  map by position.
\<close>

datatype target_error = CapacityOverflow

record target =
  target_ip :: ip_addr
  target_port :: u16
  target_protocol :: protocol

record planned_target =
  planned_position :: u64
  planned_target :: target

section \<open>Target sets\<close>

record target_set =
  set_ips :: ip_set
  set_ports :: port_set

definition target_set_new :: "ip_set \<Rightarrow> port_set \<Rightarrow> target_set" where
  "target_set_new ips ports = \<lparr>set_ips = canonicalize ips, set_ports = ports\<rparr>"

definition ip_count :: "target_set \<Rightarrow> u128" where
  "ip_count t = set_len (set_ips t)"

definition port_count :: "target_set \<Rightarrow> nat" where
  "port_count t = port_set_len (set_ports t)"

definition total_targets :: "target_set \<Rightarrow> target_error + u128" where
  "total_targets t =
     (case checked_mul (set_len (set_ips t)) (of_nat (port_set_len (set_ports t))) of
        Some n \<Rightarrow> Inr n | None \<Rightarrow> Inl CapacityOverflow)"

definition target_set_iter :: "target_set \<Rightarrow> target list" where
  "target_set_iter t =
     concat (map (\<lambda>ip. map (\<lambda>x. \<lparr>target_ip = ip, target_port = fst x, target_protocol = snd x\<rparr>)
                        (port_set_iter (set_ports t)))
               (set_iter (set_ips t)))"

definition target_set_is_empty :: "target_set \<Rightarrow> bool" where
  "target_set_is_empty t \<longleftrightarrow> is_empty (set_ips t) \<or> port_set_is_empty (set_ports t)"

section \<open>Target maps\<close>

text \<open>A map is its units, in the order they were added.\<close>

record target_map =
  units :: "target_set list"

definition add_unit :: "target_map \<Rightarrow> target_set \<Rightarrow> target_map" where
  "add_unit m t = m\<lparr>units := units m @ [t]\<rparr>"

definition names :: "target_map \<Rightarrow> protocol \<Rightarrow> bool" where
  "names m p \<longleftrightarrow> list_ex (\<lambda>t. ranges (set_ports t) p \<noteq> []) (units m)"

fun gross_targets_loop :: "u128 \<Rightarrow> target_set list \<Rightarrow> target_error + u128" where
  "gross_targets_loop acc [] = Inr acc"
| "gross_targets_loop acc (t # ts) =
     (case total_targets t of
        Inl e \<Rightarrow> Inl e
      | Inr n \<Rightarrow>
          (case checked_add acc n of
             None \<Rightarrow> Inl CapacityOverflow | Some acc' \<Rightarrow> gross_targets_loop acc' ts))"

definition gross_targets :: "target_map \<Rightarrow> target_error + u128" where
  "gross_targets m = gross_targets_loop 0 (units m)"

fun gross_ips_loop :: "u128 \<Rightarrow> target_set list \<Rightarrow> target_error + u128" where
  "gross_ips_loop acc [] = Inr acc"
| "gross_ips_loop acc (t # ts) =
     (case checked_add acc (ip_count t) of
        None \<Rightarrow> Inl CapacityOverflow | Some acc' \<Rightarrow> gross_ips_loop acc' ts)"

definition gross_ips :: "target_map \<Rightarrow> target_error + u128" where
  "gross_ips m = gross_ips_loop 0 (units m)"

definition target_map_is_empty :: "target_map \<Rightarrow> bool" where
  "target_map_is_empty m \<longleftrightarrow> units m = [] \<or> list_all target_set_is_empty (units m)"

definition target_map_iter :: "target_map \<Rightarrow> target list" where
  "target_map_iter m = concat (map target_set_iter (units m))"

definition withhold_ports :: "target_map \<Rightarrow> port_set \<Rightarrow> target_map" where
  "withhold_ports m excluded =
     (if port_set_is_empty excluded then m
      else m\<lparr>units := List.map_filter
              (\<lambda>t. let kept = port_difference (set_ports t) excluded
                   in if port_set_is_empty kept then None else Some (target_set_new (set_ips t) kept))
              (units m)\<rparr>)"

definition keep_unit :: "(ipv6_range \<Rightarrow> bool) \<Rightarrow> target_set \<Rightarrow> target_set option" where
  "keep_unit keep t =
     (let left4 = foldl push_v4_range ip_set_new (v4 (set_ips t));
          left6 = foldl (\<lambda>s r. if keep r then push_v6_range s r else s) left4 (v6 (set_ips t));
          left = canonicalize left6
      in if is_empty left then None else Some (target_set_new left (set_ports t)))"

definition keep_v6 :: "target_map \<Rightarrow> (ipv6_range \<Rightarrow> bool) \<Rightarrow> target_map" where
  "keep_v6 m keep = m\<lparr>units := List.map_filter (keep_unit keep) (units m)\<rparr>"

record unprobeable =
  zones :: zone_map
  unscoped_ranges :: "ipv6_range list"
  contested :: "ipv6_range list"
  unwalkable :: "ipv6_range list"

text \<open>The loop over the map's IPv6 ranges that sorts out which cannot be probed.\<close>

definition sort_out :: "(u32 \<times> string) list \<Rightarrow> unprobeable \<Rightarrow> ipv6_range \<Rightarrow> unprobeable" where
  "sort_out interfaces u r =
     (if is_ambiguous r then u\<lparr>unscoped_ranges := unscoped_ranges u @ [r]\<rparr>
      else if contests (zones u) r then u\<lparr>contested := contested u @ [r]\<rparr>
      else u\<lparr>zones := zone_map_insert (zones u) r interfaces\<rparr>)"

definition map_v6 :: "target_map \<Rightarrow> ipv6_range list" where
  "map_v6 m = concat (map (\<lambda>t. v6 (set_ips t)) (units m))"

text \<open>
  \<open>take_unprobeable\<close>.  \<open>sort_unstable_by_key\<close> leaves the order of ranges with equal starts open;
  the model takes the stable one.  \<open>remdups_adj\<close> is \<open>dedup\<close>.
\<close>

definition take_unprobeable ::
  "target_map \<Rightarrow> (u32 \<times> string) list \<Rightarrow> (ipv6_range \<Rightarrow> bool) \<Rightarrow> target_map \<times> unprobeable" where
  "take_unprobeable m interfaces walkable =
     (let u = foldl (sort_out interfaces)
                \<lparr>zones = [], unscoped_ranges = [], contested = [], unwalkable = []\<rparr> (map_v6 m);
          m1 = keep_v6 m (\<lambda>r. r \<notin> set (unscoped_ranges u) \<and> r \<notin> set (contested u));
          wide = filter (\<lambda>r. \<not> walkable r) (map_v6 m1);
          m2 = (if wide \<noteq> [] then keep_v6 m1 walkable else m1)
      in (m2, u\<lparr>unscoped_ranges := remdups_adj (sort_key start_addr6 (unscoped_ranges u)),
                unwalkable := remdups_adj (sort_key start_addr6 wide)\<rparr>))"

section \<open>The index of a map\<close>

record unit_index =
  unit_addresses :: positions
  unit_ports :: "(u16 \<times> protocol) list"
  unit_start :: u64
  unit_len :: u64
  unit_first_host :: u64

record target_index =
  index_units :: "unit_index list"
  index_total :: u64
  index_hosts :: u64
  index_complete :: bool
  index_unnumbered :: "ip_range list"

definition left_out :: "target_set list \<Rightarrow> ip_range list" where
  "left_out ts =
     concat (map (\<lambda>t. map RangeV4 (v4 (set_ips t)) @ map RangeV6 (v6 (set_ips t)))
               (filter (\<lambda>t. \<not> port_set_is_empty (set_ports t)) ts))"

definition try_from_usize :: "nat \<Rightarrow> u64 option" where
  "try_from_usize n = (if int n < 2 ^ 64 then Some (of_nat n) else None)"

definition counted :: "u64 \<Rightarrow> positions \<Rightarrow> nat \<Rightarrow> u64 option" where
  "counted held addresses n =
     (case try_from_usize n of
        None \<Rightarrow> None
      | Some n' \<Rightarrow>
          (case checked_mul (Positions.total addresses) n' of
             None \<Rightarrow> None
           | Some len \<Rightarrow>
               (if unnumbered addresses = [] \<and> checked_add held len \<noteq> None then Some len else None)))"

fun index_loop :: "target_index \<Rightarrow> target_set list \<Rightarrow> target_index" where
  "index_loop ix [] = ix"
| "index_loop ix (t # ts) =
     (let addresses = positions_of (set_ips t); ports = port_set_iter (set_ports t)
      in if ports = [] then index_loop ix ts
         else case counted (index_total ix) addresses (length ports) of
                None \<Rightarrow> ix\<lparr>index_complete := False, index_unnumbered := index_unnumbered ix @ left_out (t # ts)\<rparr>
              | Some len \<Rightarrow>
                  index_loop
                    (ix\<lparr>index_hosts := index_hosts ix + Positions.total addresses,
                        index_units := index_units ix @
                          [\<lparr>unit_addresses = addresses, unit_ports = ports, unit_start = index_total ix,
                            unit_len = len, unit_first_host = index_hosts ix\<rparr>],
                        index_total := index_total ix + len\<rparr>) ts)"

definition index_of :: "target_map \<Rightarrow> target_index" where
  "index_of m =
     index_loop \<lparr>index_units = [], index_total = 0, index_hosts = 0, index_complete = True,
       index_unnumbered = []\<rparr> (units m)"

definition unit_at :: "target_index \<Rightarrow> u64 \<Rightarrow> unit_index option" where
  "unit_at ix position =
     (if position \<ge> index_total ix then None
      else let holder = (case binary_search_by (\<lambda>u. cmp (unit_start u) position) (index_units ix) of
                           Inr i \<Rightarrow> Some i
                         | Inl i \<Rightarrow> (if i = 0 then None else Some (i - 1)))
           in case holder of
                None \<Rightarrow> None
              | Some i \<Rightarrow>
                  (if i < length (index_units ix)
                      \<and> position < unit_start (index_units ix ! i) + unit_len (index_units ix ! i)
                   then Some (index_units ix ! i) else None))"

definition ports_len :: "unit_index \<Rightarrow> u64" where
  "ports_len u = of_nat (length (unit_ports u))"

definition target_at :: "target_index \<Rightarrow> u64 \<Rightarrow> target option" where
  "target_at ix position =
     (case unit_at ix position of
        None \<Rightarrow> None
      | Some u \<Rightarrow>
          (let local = position - unit_start u;
               x = unit_ports u ! unat (local mod ports_len u)
           in case address_at (unit_addresses u) (local div ports_len u) of
                None \<Rightarrow> None
              | Some ip \<Rightarrow> Some \<lparr>target_ip = ip, target_port = fst x, target_protocol = snd x\<rparr>))"

text \<open>The loop of \<open>addresses_in\<close> over the units from the first that ends past the span's start.\<close>

fun addresses_loop :: "u64 \<Rightarrow> u64 \<Rightarrow> unit_index list \<Rightarrow> ip_range list" where
  "addresses_loop first stop [] = []"
| "addresses_loop first stop (u # us) =
     (if unit_start u \<ge> stop then []
      else let from_pos = max first (unit_start u) - unit_start u;
               to_pos = min stop (unit_start u + unit_len u) - unit_start u
           in if from_pos \<ge> to_pos then addresses_loop first stop us
              else ranges_in (unit_addresses u) (from_pos div ports_len u)
                     ((to_pos - 1) div ports_len u + 1)
                   @ addresses_loop first stop us)"

definition addresses_in :: "target_index \<Rightarrow> u64 \<Rightarrow> u64 \<Rightarrow> ip_range list" where
  "addresses_in ix first past =
     (let stop = min past (index_total ix);
          skip = partition_point (\<lambda>u. unit_start u + unit_len u \<le> first) (index_units ix)
      in addresses_loop first stop (drop skip (index_units ix)))"

definition runs_at :: "target_index \<Rightarrow> ip_addr \<Rightarrow> (u64 \<times> u64) list" where
  "runs_at ix ip =
     List.map_filter
       (\<lambda>u. case find_position (unit_addresses u) ip of
              None \<Rightarrow> None
            | Some at \<Rightarrow>
                (let start = unit_start u + at * ports_len u in Some (start, start + ports_len u)))
       (index_units ix)"

definition host_run :: "target_index \<Rightarrow> u64 \<Rightarrow> u64 \<times> u64" where
  "host_run ix host =
     (let at = partition_point (\<lambda>u. unit_first_host u + Positions.total (unit_addresses u) \<le> host)
                 (index_units ix)
      in if at < length (index_units ix)
         then let u = index_units ix ! at;
                  start = unit_start u + (host - unit_first_host u) * ports_len u
              in (start, start + ports_len u)
         else (index_total ix, index_total ix))"

definition host_of :: "target_index \<Rightarrow> u64 \<Rightarrow> u64" where
  "host_of ix position =
     (case unit_at ix position of
        Some u \<Rightarrow> unit_first_host u + (position - unit_start u) div ports_len u
      | None \<Rightarrow> index_hosts ix)"

end
