(* ===== verification/Target_Index.thy ===== *)
theory Target_Index
  imports Positions_Correct Port_Set_Correct Target
begin

text \<open>
  The index of a target map: built from the map's units, it lays them end to end, finds the unit
  a position falls in, and splits the positions into hosts and address spans.
\<close>

section \<open>Searching for the last element not greater\<close>

lemma binary_search_holder:
  assumes sorted: "cmp_sorted f xs" and j: "j < length xs" "f (xs ! j) \<noteq> Greater"
    and above: "\<And>i. j < i \<Longrightarrow> i < length xs \<Longrightarrow> f (xs ! i) = Greater"
  shows "(case binary_search_by f xs of Inr i \<Rightarrow> Some i | Inl i \<Rightarrow> if i = 0 then None else Some (i - 1)) = Some j"
proof -
  define r where "r = search_loop f xs 0 (length xs)"
  have "xs \<noteq> []" using j by auto
  have bound: "r < length xs" using search_loop_bound [of "length xs" f xs 0] \<open>xs \<noteq> []\<close> by (simp add: r_def)
  have "(r = 0 \<or> f (xs ! r) \<noteq> Greater) \<and> (Suc r = length xs \<or> f (xs ! Suc r) = Greater)"
    unfolding r_def using j by (intro search_loop_split [OF sorted]) auto
  then have split: "r = 0 \<or> f (xs ! r) \<noteq> Greater" "Suc r < length xs \<Longrightarrow> f (xs ! Suc r) = Greater" by auto
  have "\<not> r < j"
  proof
    assume "r < j"
    then have "f (xs ! Suc r) = Greater" using split(2) j by simp
    then have "f (xs ! j) = Greater" using cmp_sorted_nth [OF sorted, of "Suc r" j] \<open>r < j\<close> j by simp
    with j show False by simp
  qed
  moreover have "\<not> j < r" using above [of r] split(1) bound by auto
  ultimately have "r = j" by simp
  then show ?thesis
    using \<open>xs \<noteq> []\<close> j(2) by (cases "f (xs ! j)") (simp_all add: binary_search_by_def Let_def flip: r_def)
qed

section \<open>Enumerations in blocks\<close>

lemma length_blocks: "length (concat (map (\<lambda>a. map (g a) xs) ys)) = length ys * length xs"
  by (induction ys) auto

lemma nth_blocks:
  "n < length ys * length xs \<Longrightarrow>
   concat (map (\<lambda>a. map (g a) xs) ys) ! n = g (ys ! (n div length xs)) (xs ! (n mod length xs))"
proof (induction ys arbitrary: n)
  case (Cons y ys)
  show ?case
  proof (cases "n < length xs")
    case True
    then show ?thesis by (simp add: nth_append)
  next
    case False
    moreover have "0 < length xs" using Cons.prems by (cases xs) auto
    ultimately have d: "n div length xs = Suc ((n - length xs) div length xs)"
      "n mod length xs = (n - length xs) mod length xs"
      by (simp_all add: le_div_geq le_mod_geq)
    show ?thesis using False Cons by (auto simp: nth_append d)
  qed
qed simp

definition target_of :: "ip_addr \<Rightarrow> u16 \<times> protocol \<Rightarrow> target" where
  "target_of ip x = \<lparr>target_ip = ip, target_port = fst x, target_protocol = snd x\<rparr>"

lemma target_set_iter_blocks:
  "target_set_iter t = concat (map (\<lambda>ip. map (target_of ip) (port_set_iter (set_ports t))) (set_iter (set_ips t)))"
  by (simp add: target_set_iter_def target_of_def [abs_def])

section \<open>Well-formed maps\<close>

definition target_set_inv :: "target_set \<Rightarrow> bool" where
  "target_set_inv t \<longleftrightarrow>
     ip_set_inv (set_ips t) \<and> \<not> v4_dirty (set_ips t) \<and> \<not> v6_dirty (set_ips t) \<and> port_set_inv (set_ports t)"

definition target_map_inv :: "target_map \<Rightarrow> bool" where
  "target_map_inv m \<longleftrightarrow> (\<forall>t \<in> set (units m). target_set_inv t)"

section \<open>The units of an index\<close>

definition unit_ips :: "unit_index \<Rightarrow> ip_addr list" where
  "unit_ips u = map fst (span_addrs (spans (unit_addresses u)))"

definition unit_targets :: "unit_index \<Rightarrow> target list" where
  "unit_targets u = concat (map (\<lambda>ip. map (target_of ip) (unit_ports u)) (unit_ips u))"

definition unit_ok :: "unit_index \<Rightarrow> bool" where
  "unit_ok u \<longleftrightarrow>
     (\<exists>rs. numbers (unit_addresses u) rs) \<and> unit_ports u \<noteq> [] \<and> length (unit_ports u) < 2 ^ 64
     \<and> unat (unit_len u) = length (unit_targets u)"

lemma length_unit_targets: "length (unit_targets u) = length (unit_ips u) * length (unit_ports u)"
  unfolding unit_targets_def by (rule length_blocks)

lemma unit_total: "unit_ok u \<Longrightarrow> unat (total (unit_addresses u)) = length (unit_ips u)"
  by (auto simp: unit_ok_def numbers_def unit_ips_def)

lemma unat_ports_len: "unit_ok u \<Longrightarrow> unat (ports_len u) = length (unit_ports u)"
  by (simp add: unit_ok_def ports_len_def unat_of_nat_lt)

text \<open>Units laid end to end: the first starts at position \<open>k\<close> and host \<open>h\<close>.\<close>

fun laid :: "nat \<Rightarrow> nat \<Rightarrow> unit_index list \<Rightarrow> bool" where
  "laid k h [] \<longleftrightarrow> True"
| "laid k h (u # us) \<longleftrightarrow>
     unit_ok u \<and> unat (unit_start u) = k \<and> unat (unit_first_host u) = h
     \<and> laid (k + length (unit_targets u)) (h + length (unit_ips u)) us"

abbreviation all_targets :: "unit_index list \<Rightarrow> target list" where
  "all_targets us \<equiv> concat (map unit_targets us)"

abbreviation all_ips :: "unit_index list \<Rightarrow> ip_addr list" where
  "all_ips us \<equiv> concat (map unit_ips us)"

lemma laid_append:
  "laid k h (us @ vs) \<longleftrightarrow> laid k h us \<and> laid (k + length (all_targets us)) (h + length (all_ips us)) vs"
  by (induction us arbitrary: k h) (auto simp: add.assoc)

lemma laid_nth:
  assumes "laid k h us" and "i < length us"
  shows "unit_ok (us ! i)" "unat (unit_start (us ! i)) = k + length (all_targets (take i us))"
    "unat (unit_first_host (us ! i)) = h + length (all_ips (take i us))"
proof -
  have "us = take i us @ us ! i # drop (Suc i) us" using assms(2) by (simp add: id_take_nth_drop)
  then have "laid k h (take i us @ us ! i # drop (Suc i) us)" using assms(1) by simp
  then show "unit_ok (us ! i)" "unat (unit_start (us ! i)) = k + length (all_targets (take i us))"
    "unat (unit_first_host (us ! i)) = h + length (all_ips (take i us))" unfolding laid_append by auto
qed

definition index_ok :: "target_index \<Rightarrow> bool" where
  "index_ok ix \<longleftrightarrow>
     laid 0 0 (index_units ix) \<and> unat (index_total ix) = length (all_targets (index_units ix))
     \<and> unat (index_hosts ix) = length (all_ips (index_units ix))"

section \<open>Building the index\<close>

lemma whole_numbered:
  assumes "ip_set_inv s" and "unnumbered (positions_of s) = []"
  shows "map fst (span_addrs (spans (positions_of s))) = set_iter s"
proof -
  have "set_iter s = map fst (iter_scoped s)"
    by (simp add: set_iter_lists [OF assms(1)] iter_scoped_lists map_fst_scoped_list)
  then show ?thesis using enumeration_split [OF assms(1)] assms(2) by simp
qed

lemma checked_mul_Some:
  "checked_mul a b = Some c \<longleftrightarrow> unat a * unat b < 2 ^ LENGTH('a) \<and> c = a * b"
  for a b c :: "'a::len word"
  by (auto simp: checked_mul_def uint_fits)

lemma try_from_usize: "try_from_usize n = (if n < 2 ^ 64 then Some (of_nat n) else None)"
proof -
  have "int n < 2 ^ 64 \<longleftrightarrow> n < 2 ^ 64" by simp
  then show ?thesis by (simp only: try_from_usize_def)
qed

lemma counted_Some:
  assumes "counted held addresses n = Some len"
  shows "n < 2 ^ 64" "unnumbered addresses = []" "unat len = unat (total addresses) * n" "unat held + unat len < 2 ^ 64"
proof -
  from assms have n: "n < 2 ^ 64" and "unnumbered addresses = []"
    and len: "checked_mul (total addresses) (of_nat n) = Some len" and add: "checked_add held len \<noteq> None"
    by (auto simp: counted_def try_from_usize split: if_splits option.splits)
  then show "n < 2 ^ 64" "unnumbered addresses = []" by auto
  show "unat len = unat (total addresses) * n"
    using len n by (auto simp: checked_mul_Some unat_of_nat_lt unat_mult_lt)
  from add show "unat held + unat len < 2 ^ 64" by (auto simp: checked_add_Some)
qed

lemma index_step:
  assumes ix: "index_ok ix" and inv: "target_set_inv t" and ports: "port_set_iter (set_ports t) \<noteq> []"
    and len: "counted (index_total ix) (positions_of (set_ips t)) (length (port_set_iter (set_ports t))) = Some len"
  defines "u \<equiv> \<lparr>unit_addresses = positions_of (set_ips t), unit_ports = port_set_iter (set_ports t),
    unit_start = index_total ix, unit_len = len, unit_first_host = index_hosts ix\<rparr>"
  shows "unit_targets u = target_set_iter t"
    and "index_ok (ix\<lparr>index_hosts := index_hosts ix + total (positions_of (set_ips t)),
           index_units := index_units ix @ [u], index_total := index_total ix + len\<rparr>)"
proof -
  let ?p = "positions_of (set_ips t)" and ?n = "length (port_set_iter (set_ports t))"
  note c = counted_Some [OF len]
  have nums: "numbers ?p (set_ranges (eq_merged (set_ips t)))"
    using inv positions_numbers by (simp add: target_set_inv_def)
  have ips: "unit_ips u = set_iter (set_ips t)"
    unfolding unit_ips_def u_def using inv c(2) by (simp add: target_set_inv_def whole_numbered)
  then show targets: "unit_targets u = target_set_iter t"
    by (simp add: unit_targets_def target_set_iter_blocks u_def)
  have tot: "unat (total ?p) = length (unit_ips u)" using nums by (simp add: numbers_def unit_ips_def u_def)
  have n: "length (unit_targets u) = unat len"
    using c(3) by (simp add: length_unit_targets tot) (simp add: u_def)
  have ok: "unit_ok u" using nums ports c(1) n unfolding unit_ok_def by (auto simp: u_def)
  have "?n \<ge> 1" using ports by (cases "port_set_iter (set_ports t)") auto
  then have "unat (total ?p) \<le> unat len" using c(3) by simp
  moreover have "length (all_ips us) \<le> length (all_targets us)" if "laid 0 0 us" for us
  proof -
    have "unit_ok v \<Longrightarrow> length (unit_ips v) \<le> length (unit_targets v)" for v
      by (cases "unit_ports v") (auto simp: unit_ok_def length_unit_targets)
    moreover have "laid k h us \<Longrightarrow> \<forall>v \<in> set us. unit_ok v" for k h by (induction us arbitrary: k h) auto
    ultimately have "\<forall>v \<in> set us. length (unit_ips v) \<le> length (unit_targets v)" using that by blast
    then show ?thesis by (induction us) auto
  qed
  ultimately have "unat (index_hosts ix) + unat (total ?p) < 2 ^ 64"
    using c(4) ix by (fastforce simp: index_ok_def)
  then have "unat (index_hosts ix + total ?p) = unat (index_hosts ix) + unat (total ?p)"
    by (intro unat_add_lt) simp
  moreover have "unat (index_total ix + len) = unat (index_total ix) + unat len"
    using c(4) by (intro unat_add_lt) simp
  moreover have "unat (unit_start u) = unat (index_total ix)" "unat (unit_first_host u) = unat (index_hosts ix)"
    by (simp_all add: u_def)
  ultimately show "index_ok (ix\<lparr>index_hosts := index_hosts ix + total ?p,
      index_units := index_units ix @ [u], index_total := index_total ix + len\<rparr>)"
    using ix ok n tot by (simp add: index_ok_def laid_append)
qed

lemma no_ports_no_targets: "port_set_iter (set_ports t) = [] \<Longrightarrow> target_set_iter t = []"
  by (simp add: target_set_iter_blocks)

lemma index_loop_correct:
  assumes "index_ok ix" and "\<forall>t \<in> set ts. target_set_inv t"
  shows "index_ok (index_loop ix ts)
    \<and> (\<exists>rest. all_targets (index_units ix) @ concat (map target_set_iter ts)
              = all_targets (index_units (index_loop ix ts)) @ rest
            \<and> (index_complete (index_loop ix ts) \<longrightarrow> rest = []))"
  using assms
proof (induction ts arbitrary: ix)
  case (Cons t ts)
  let ?p = "positions_of (set_ips t)" and ?ports = "port_set_iter (set_ports t)"
  show ?case
  proof (cases "?ports = []")
    case True
    then show ?thesis using Cons by (simp add: no_ports_no_targets)
  next
    case False
    show ?thesis
    proof (cases "counted (index_total ix) ?p (length ?ports)")
      case None
      then show ?thesis using False Cons.prems by (simp add: index_ok_def)
    next
      case (Some len)
      let ?u = "\<lparr>unit_addresses = ?p, unit_ports = ?ports, unit_start = index_total ix, unit_len = len,
        unit_first_host = index_hosts ix\<rparr>"
      let ?ix = "ix\<lparr>index_hosts := index_hosts ix + total ?p, index_units := index_units ix @ [?u],
        index_total := index_total ix + len\<rparr>"
      have "target_set_inv t" using Cons.prems by simp
      note step = index_step [OF Cons.prems(1) this False Some]
      have "index_loop ix (t # ts) = index_loop ?ix ts" using False Some by (simp add: Let_def)
      then show ?thesis using Cons.IH [OF step(2)] Cons.prems(2) step(1) by simp
    qed
  qed
qed simp

lemma index_of_correct:
  assumes "target_map_inv m"
  shows "index_ok (index_of m)"
    and "\<exists>rest. target_map_iter m = all_targets (index_units (index_of m)) @ rest
      \<and> (index_complete (index_of m) \<longrightarrow> rest = [])"
proof -
  let ?init = "\<lparr>index_units = [], index_total = 0, index_hosts = 0, index_complete = True, index_unnumbered = []\<rparr>"
  have "index_ok ?init" by (simp add: index_ok_def)
  from index_loop_correct [OF this] assms
  show "index_ok (index_of m)"
    "\<exists>rest. target_map_iter m = all_targets (index_units (index_of m)) @ rest
      \<and> (index_complete (index_of m) \<longrightarrow> rest = [])"
    by (simp_all add: index_of_def target_map_iter_def target_map_inv_def)
qed

section \<open>Looking positions up\<close>

lemma blocks_disjoint:
  assumes "i < j" and "j < length xss"
  shows "length (concat (take i xss)) + length (xss ! i) \<le> length (concat (take j xss))"
proof -
  have "take j xss = take (Suc i) xss @ take (j - Suc i) (drop (Suc i) xss)"
    using assms take_add [of "Suc i" "j - Suc i" xss] by simp
  then show ?thesis using assms by (simp add: take_Suc_conv_app_nth)
qed

lemma length_take_blocks: "length (concat (map f (take n xs))) \<le> length (concat (map f xs))"
proof -
  have "concat (map f xs) = concat (map f (take n xs)) @ concat (map f (drop n xs))"
    by (simp flip: concat_append map_append)
  then show ?thesis by simp
qed

lemma unit_at_correct:
  assumes ix: "index_ok ix" and p: "position < index_total ix"
  shows "\<exists>i < length (index_units ix). unit_at ix position = Some (index_units ix ! i)
    \<and> length (all_targets (take i (index_units ix))) \<le> unat position
    \<and> unat position < length (all_targets (take i (index_units ix))) + length (unit_targets (index_units ix ! i))"
proof -
  let ?us = "index_units ix" and ?f = "\<lambda>u. cmp (unit_start u) position"
  have laid: "laid 0 0 ?us" and tot: "unat (index_total ix) = length (all_targets ?us)"
    using ix by (auto simp: index_ok_def)
  note nth = laid_nth [OF laid]
  have start: "unat (unit_start (?us ! i)) = length (all_targets (take i ?us))" if "i < length ?us" for i
    using nth(2) [OF that] by simp
  have "unat position < length (concat (map unit_targets ?us))" using p tot by (simp add: word_less_nat_alt)
  from find_span [OF this] obtain i where i: "i < length ?us"
    "length (all_targets (take i ?us)) \<le> unat position"
    "unat position < length (all_targets (take i ?us)) + length (unit_targets (?us ! i))"
    by (auto simp: take_map)
  have ends: "length (all_targets (take a ?us)) + length (unit_targets (?us ! a)) \<le> length (all_targets (take b ?us))"
    if "a < b" "b < length ?us" for a b
    using blocks_disjoint [of a b "map unit_targets ?us"] that by (simp add: take_map)
  have sorted: "cmp_sorted ?f ?us"
    unfolding cmp_sorted_def sorted_wrt_iff_nth_less
  proof (intro allI impI)
    fix a b assume ab: "a < b" "b < length ?us"
    then have "unit_start (?us ! a) \<le> unit_start (?us ! b)"
      using ends [OF ab] by (simp add: word_le_nat_alt start)
    then show "(?f (?us ! b) = Less \<longrightarrow> ?f (?us ! a) = Less) \<and> (?f (?us ! a) = Greater \<longrightarrow> ?f (?us ! b) = Greater)"
      by (auto simp: cmp_def split: if_splits)
  qed
  have "(case binary_search_by ?f ?us of Inr i \<Rightarrow> Some i | Inl i \<Rightarrow> if i = 0 then None else Some (i - 1)) = Some i"
  proof (rule binary_search_holder [OF sorted i(1)])
    have "unit_start (?us ! i) \<le> position" using i by (simp add: word_le_nat_alt start)
    then show "?f (?us ! i) \<noteq> Greater" by (auto simp: cmp_def)
    fix j assume "i < j" "j < length ?us"
    then have "unat position < unat (unit_start (?us ! j))" using ends [of i j] i(3) by (simp add: start)
    then show "?f (?us ! j) = Greater" by (auto simp: cmp_def word_less_nat_alt)
  qed
  moreover have "position < unit_start (?us ! i) + unit_len (?us ! i)"
  proof -
    have len: "unat (unit_len (?us ! i)) = length (unit_targets (?us ! i))" using nth(1) [OF i(1)] by (simp add: unit_ok_def)
    have "length (all_targets (take (Suc i) ?us)) \<le> length (all_targets ?us)"
      by (rule length_take_blocks)
    then have "unat (unit_start (?us ! i)) + unat (unit_len (?us ! i)) < 2 ^ 64"
      using unat_bounds(3) [of "index_total ix"] i(1) by (simp add: start len tot take_Suc_conv_app_nth)
    then have "unat (unit_start (?us ! i) + unit_len (?us ! i)) = unat (unit_start (?us ! i)) + unat (unit_len (?us ! i))"
      by (intro unat_add_lt) simp
    then show ?thesis using i(3) by (simp add: word_less_nat_alt start [OF i(1)] len)
  qed
  ultimately have "unit_at ix position = Some (?us ! i)" using p i(1) by (simp add: unit_at_def Let_def)
  with i show ?thesis by blast
qed

lemma unit_at_past: "\<not> position < index_total ix \<Longrightarrow> unit_at ix position = None"
  by (simp add: unit_at_def not_less)

lemma target_at_nth:
  assumes ix: "index_ok ix"
  shows "target_at ix position =
    (if position < index_total ix then Some (all_targets (index_units ix) ! unat position) else None)"
proof (cases "position < index_total ix")
  case True
  let ?us = "index_units ix"
  from unit_at_correct [OF ix True] obtain i where i: "i < length ?us" "unit_at ix position = Some (?us ! i)"
    "length (all_targets (take i ?us)) \<le> unat position"
    "unat position < length (all_targets (take i ?us)) + length (unit_targets (?us ! i))" by blast
  let ?u = "?us ! i" and ?n = "unat position - length (all_targets (take i ?us))"
  have laid: "laid 0 0 ?us" using ix by (simp add: index_ok_def)
  note u = laid_nth [OF laid i(1)]
  have "unit_start ?u \<le> position" using i(3) u(2) by (simp add: word_le_nat_alt)
  then have loc: "unat (position - unit_start ?u) = ?n" using u(2) by (simp add: unat_sub)
  have n: "?n < length (unit_ips ?u) * length (unit_ports ?u)" using i(3,4) by (simp add: length_unit_targets)
  have "all_targets ?us ! unat position = unit_targets ?u ! ?n"
    using concat_take_nth [of i "map unit_targets ?us" ?n] i by (simp add: take_map)
  also have "\<dots> = target_of (unit_ips ?u ! (?n div length (unit_ports ?u))) (unit_ports ?u ! (?n mod length (unit_ports ?u)))"
    unfolding unit_targets_def [of ?u] by (rule nth_blocks [OF n])
  finally have want: "all_targets ?us ! unat position = \<dots>" .
  have q: "unat ((position - unit_start ?u) div ports_len ?u) = ?n div length (unit_ports ?u)"
    "unat ((position - unit_start ?u) mod ports_len ?u) = ?n mod length (unit_ports ?u)"
    by (simp_all add: unat_div_distrib unat_mod_distrib loc unat_ports_len [OF u(1)])
  have "?n div length (unit_ports ?u) < length (unit_ips ?u)" using n by (simp add: less_mult_imp_div_less)
  moreover obtain rs where "numbers (unit_addresses ?u) rs" using u(1) by (auto simp: unit_ok_def)
  ultimately have "address_at (unit_addresses ?u) ((position - unit_start ?u) div ports_len ?u)
      = Some (unit_ips ?u ! (?n div length (unit_ports ?u)))"
    by (simp add: address_at_nth word_less_nat_alt q unit_total [OF u(1)] unit_ips_def)
  then show ?thesis using True i(2) by (simp add: target_at_def Let_def q want target_of_def)
next
  case False
  then show ?thesis by (simp add: target_at_def unit_at_past)
qed

section \<open>Hosts\<close>

lemma laid_ok: "laid k h us \<Longrightarrow> \<forall>u \<in> set us. unit_ok u"
  by (induction us arbitrary: k h) auto

lemma host_of_nth:
  assumes ix: "index_ok ix" and i: "i < length (index_units ix)"
    and p: "length (all_targets (take i (index_units ix))) \<le> unat position"
      "unat position < length (all_targets (take i (index_units ix))) + length (unit_targets (index_units ix ! i))"
    and at: "unit_at ix position = Some (index_units ix ! i)"
  defines "n \<equiv> (unat position - length (all_targets (take i (index_units ix)))) div length (unit_ports (index_units ix ! i))"
  shows "unat (host_of ix position) = length (all_ips (take i (index_units ix))) + n"
    and "n < length (unit_ips (index_units ix ! i))"
proof -
  let ?us = "index_units ix" and ?u = "index_units ix ! i"
  have laid: "laid 0 0 ?us" and hosts: "unat (index_hosts ix) = length (all_ips ?us)" using ix by (simp_all add: index_ok_def)
  note u = laid_nth [OF laid i]
  show n: "n < length (unit_ips ?u)"
    using p unfolding n_def by (intro less_mult_imp_div_less) (simp add: length_unit_targets)
  have "unit_start ?u \<le> position" using p(1) u(2) by (simp add: word_le_nat_alt)
  then have "unat ((position - unit_start ?u) div ports_len ?u) = n"
    by (simp add: unat_div_distrib unat_sub u(2) unat_ports_len [OF u(1)] n_def)
  moreover have "length (all_ips (take (Suc i) ?us)) \<le> length (all_ips ?us)" by (rule length_take_blocks)
  then have "length (all_ips (take i ?us)) + n < 2 ^ 64"
    using n unat_bounds(3) [of "index_hosts ix"] i by (simp add: hosts take_Suc_conv_app_nth)
  ultimately show "unat (host_of ix position) = length (all_ips (take i ?us)) + n"
    by (simp add: host_of_def at) (subst unat_add_lt, simp_all add: u(3))
qed

lemma host_run_nth:
  assumes ix: "index_ok ix" and i: "i < length (index_units ix)"
    and h: "length (all_ips (take i (index_units ix))) \<le> unat host"
      "unat host < length (all_ips (take i (index_units ix))) + length (unit_ips (index_units ix ! i))"
  defines "start \<equiv> length (all_targets (take i (index_units ix)))
    + (unat host - length (all_ips (take i (index_units ix)))) * length (unit_ports (index_units ix ! i))"
  shows "unat (fst (host_run ix host)) = start"
    and "unat (snd (host_run ix host)) = start + length (unit_ports (index_units ix ! i))"
    and "start + length (unit_ports (index_units ix ! i)) \<le> length (all_targets (take (Suc i) (index_units ix)))"
proof -
  let ?us = "index_units ix" and ?u = "index_units ix ! i" and ?P = "\<lambda>u. unit_first_host u + total (unit_addresses u) \<le> host"
  have laid: "laid 0 0 ?us" and hosts: "unat (index_hosts ix) = length (all_ips ?us)"
    and tot: "unat (index_total ix) = length (all_targets ?us)" using ix by (simp_all add: index_ok_def)
  note nth = laid_nth [OF laid]
  note u = nth [OF i]
  have stop: "?P (?us ! j) \<longleftrightarrow> length (all_ips (take (Suc j) ?us)) \<le> unat host" if j: "j < length ?us" for j
  proof -
    have "length (all_ips (take (Suc j) ?us)) \<le> length (all_ips ?us)" by (rule length_take_blocks)
    then have "unat (unit_first_host (?us ! j)) + unat (total (unit_addresses (?us ! j))) < 2 ^ LENGTH(64)"
      using unat_bounds(3) [of "index_hosts ix"] j
      by (simp add: nth(3) [OF j] unit_total [OF nth(1) [OF j]] hosts take_Suc_conv_app_nth)
    from unat_add_lt [OF this] show ?thesis
      by (simp add: word_le_nat_alt nth(3) [OF j] unit_total [OF nth(1) [OF j]] take_Suc_conv_app_nth j)
  qed
  have mono: "length (all_ips (take a ?us)) \<le> length (all_ips (take b ?us))" if "a \<le> b" for a b
    using length_take_blocks [of unit_ips a "take b ?us"] that by (simp add: min_def)
  have "sorted_wrt (\<lambda>x y. ?P y \<longrightarrow> ?P x) ?us"
    unfolding sorted_wrt_iff_nth_less
  proof (intro allI impI)
    fix a b assume "a < b" "b < length ?us" "?P (?us ! b)"
    then show "?P (?us ! a)" using stop [of a] stop [of b] mono [of "Suc a" "Suc b"] by simp
  qed
  from partition_point_takeWhile [OF this] have "partition_point ?P ?us = length (takeWhile ?P ?us)" .
  also have "\<dots> = i"
  proof -
    have "\<not> ?P ?u" unfolding stop [OF i] using h(2) i by (simp add: take_Suc_conv_app_nth)
    moreover have "?P (?us ! j)" if "j < i" for j
      using stop [of j] that i h(1) mono [of "Suc j" i] by simp
    ultimately have "takeWhile ?P ?us = take i ?us" by (intro takeWhile_eq_take_P_nth) auto
    then show ?thesis using i by simp
  qed
  finally have at: "partition_point ?P ?us = i" .
  let ?k = "unat host - length (all_ips (take i ?us))"
  have "unit_first_host ?u \<le> host" using h(1) u(3) by (simp add: word_le_nat_alt)
  then have k: "unat (host - unit_first_host ?u) = ?k" by (simp add: unat_sub u(3))
  have "?k < length (unit_ips ?u)" using h by simp
  then have "Suc ?k * length (unit_ports ?u) \<le> length (unit_ips ?u) * length (unit_ports ?u)"
    by (intro mult_le_mono) simp_all
  then show bound: "start + length (unit_ports ?u) \<le> length (all_targets (take (Suc i) ?us))"
    using i by (simp add: start_def take_Suc_conv_app_nth length_unit_targets)
  also have "\<dots> \<le> length (all_targets ?us)" by (rule length_take_blocks)
  finally have fits: "start + length (unit_ports ?u) < 2 ^ LENGTH(64)"
    using unat_bounds(3) [of "index_total ix"] by (simp add: tot)
  have mul: "unat ((host - unit_first_host ?u) * ports_len ?u) = ?k * length (unit_ports ?u)"
    using fits by (subst unat_mult_lt) (simp_all add: k unat_ports_len [OF u(1)] start_def)
  have st: "unat (unit_start ?u + (host - unit_first_host ?u) * ports_len ?u) = start"
    using fits by (subst unat_add_lt) (simp_all add: u(2) mul start_def)
  then show "unat (fst (host_run ix host)) = start" by (simp add: host_run_def at i Let_def)
  show "unat (snd (host_run ix host)) = start + length (unit_ports ?u)"
    using fits by (simp add: host_run_def at i Let_def) (subst unat_add_lt, simp_all add: st unat_ports_len [OF u(1)])
qed

lemma block_unique:
  assumes "i < length xss" "length (concat (take i xss)) \<le> n" "n < length (concat (take i xss)) + length (xss ! i)"
    and "j < length xss" "length (concat (take j xss)) \<le> n" "n < length (concat (take j xss)) + length (xss ! j)"
  shows "i = j"
  using blocks_disjoint [of i j xss] blocks_disjoint [of j i xss] assms by (cases i j rule: linorder_cases) auto

lemma divided:
  assumes "0 < (m :: nat)"
  shows "n div m = k \<longleftrightarrow> k * m \<le> n \<and> n < k * m + m"
proof
  assume "n div m = k"
  then show "k * m \<le> n \<and> n < k * m + m" using dividend_less_div_times [OF assms, of n] by (auto simp: add.commute)
next
  assume "k * m \<le> n \<and> n < k * m + m"
  then show "n div m = k" by (intro div_nat_eqI) (simp_all add: mult.commute add.commute)
qed

lemma host_partition:
  assumes ix: "index_ok ix"
  shows "position < index_total ix \<Longrightarrow> host_of ix position < index_hosts ix"
    and "host < index_hosts ix \<Longrightarrow>
      fst (host_run ix host) \<le> position \<and> position < snd (host_run ix host)
      \<longleftrightarrow> position < index_total ix \<and> host_of ix position = host"
proof -
  let ?us = "index_units ix"
  have laid: "laid 0 0 ?us" and hosts: "unat (index_hosts ix) = length (all_ips ?us)"
    and tot: "unat (index_total ix) = length (all_targets ?us)" using ix by (simp_all add: index_ok_def)
  show "host_of ix position < index_hosts ix" if "position < index_total ix" for position
  proof -
    from unit_at_correct [OF ix that] obtain i where i: "i < length ?us" "unit_at ix position = Some (?us ! i)"
      "length (all_targets (take i ?us)) \<le> unat position"
      "unat position < length (all_targets (take i ?us)) + length (unit_targets (?us ! i))" by blast
    have "length (all_ips (take (Suc i) ?us)) \<le> length (all_ips ?us)" by (rule length_take_blocks)
    then show ?thesis using host_of_nth [OF ix i(1,3,4,2)] i(1)
      by (simp add: word_less_nat_alt hosts take_Suc_conv_app_nth)
  qed
  show "fst (host_run ix host) \<le> position \<and> position < snd (host_run ix host)
      \<longleftrightarrow> position < index_total ix \<and> host_of ix position = host" if host: "host < index_hosts ix"
  proof -
    have "unat host < length (concat (map unit_ips ?us))" using host hosts by (simp add: word_less_nat_alt)
    from find_span [OF this] obtain i where i: "i < length ?us" "length (all_ips (take i ?us)) \<le> unat host"
      "unat host < length (all_ips (take i ?us)) + length (unit_ips (?us ! i))" by (auto simp: take_map)
    let ?u = "?us ! i" and ?s = "length (all_targets (take i ?us))" and ?k = "unat host - length (all_ips (take i ?us))"
    note run = host_run_nth [OF ix i]
    have m: "0 < length (unit_ports ?u)" using laid_nth(1) [OF laid i(1)] by (simp add: unit_ok_def)
    have upto: "length (all_targets (take (Suc i) ?us)) \<le> length (all_targets ?us)" by (rule length_take_blocks)
    have here: "?s \<le> unat position \<and> (unat position - ?s) div length (unit_ports ?u) = ?k
      \<longleftrightarrow> fst (host_run ix host) \<le> position \<and> position < snd (host_run ix host)"
      unfolding divided [OF m] word_le_nat_alt word_less_nat_alt run(1,2) by auto
    show ?thesis
    proof
      assume inr: "fst (host_run ix host) \<le> position \<and> position < snd (host_run ix host)"
      then have "unat position < length (all_targets (take (Suc i) ?us))"
        using run by (simp add: word_less_nat_alt)
      then have p: "position < index_total ix" "?s \<le> unat position" "unat position < ?s + length (unit_targets ?u)"
        using upto here inr i(1) by (simp_all add: word_less_nat_alt tot take_Suc_conv_app_nth)
      from unit_at_correct [OF ix p(1)] obtain j where j: "j < length ?us" "unit_at ix position = Some (?us ! j)"
        "length (all_targets (take j ?us)) \<le> unat position"
        "unat position < length (all_targets (take j ?us)) + length (unit_targets (?us ! j))" by blast
      have "i = j" using block_unique [of i "map unit_targets ?us" "unat position" j] i(1) p j by (simp add: take_map)
      then have "unat (host_of ix position) = length (all_ips (take i ?us)) + ?k"
        using host_of_nth(1) [OF ix j(1,3,4,2)] here inr by simp
      then show "position < index_total ix \<and> host_of ix position = host"
        using p(1) i(2) by (simp add: word_unat_eq_iff)
    next
      assume "position < index_total ix \<and> host_of ix position = host"
      then have p: "position < index_total ix" and h: "host_of ix position = host" by auto
      from unit_at_correct [OF ix p] obtain j where j: "j < length ?us" "unit_at ix position = Some (?us ! j)"
        "length (all_targets (take j ?us)) \<le> unat position"
        "unat position < length (all_targets (take j ?us)) + length (unit_targets (?us ! j))" by blast
      note ho = host_of_nth [OF ix j(1,3,4,2)]
      have "i = j"
        using block_unique [of i "map unit_ips ?us" "unat host" j] i j(1) ho h by (simp add: take_map)
      then have "?s \<le> unat position \<and> (unat position - ?s) div length (unit_ports ?u) = ?k"
        using ho(1) h j(3) by simp
      then show "fst (host_run ix host) \<le> position \<and> position < snd (host_run ix host)" using here by blast
    qed
  qed
qed

section \<open>The addresses of a span of positions\<close>

definition range_ips :: "ip_range list \<Rightarrow> ip_addr set" where
  "range_ips rs = {ip. \<exists>r \<in> set rs. range_contains r ip}"

lemma range_ips_scoped: "range_ips rs = set (map fst (concat (map range_scoped rs)))"
proof -
  have "range_ips rs = (\<Union>r \<in> set rs. set (map fst (range_scoped r)))"
    by (auto simp: range_ips_def simp flip: set_fst_range_scoped)
  also have "\<dots> = set (map fst (concat (map range_scoped rs)))" by (simp add: image_UN)
  finally show ?thesis .
qed

lemma range_ips_append: "range_ips (xs @ ys) = range_ips xs \<union> range_ips ys"
  by (auto simp: range_ips_def)

lemma set_slice: "b \<le> length xs \<Longrightarrow> set (take (b - a) (drop a xs)) = {xs ! i | i. a \<le> i \<and> i < b}"
proof
  assume b: "b \<le> length xs"
  show "set (take (b - a) (drop a xs)) \<subseteq> {xs ! i | i. a \<le> i \<and> i < b}"
    using b by (force simp: in_set_conv_nth)
  show "{xs ! i | i. a \<le> i \<and> i < b} \<subseteq> set (take (b - a) (drop a xs))"
  proof (clarify)
    fix i assume "a \<le> i" "i < b"
    then have "take (b - a) (drop a xs) ! (i - a) = xs ! i" "i - a < length (take (b - a) (drop a xs))" using b by auto
    then show "xs ! i \<in> set (take (b - a) (drop a xs))" by (metis nth_mem)
  qed
qed

lemma div_between:
  assumes "0 < (m :: nat)" and "i < j"
  shows "{f (q div m) | q. i \<le> q \<and> q < j} = {f a | a. i div m \<le> a \<and> a < (j - 1) div m + 1}" (is "?L = ?R")
proof
  show "?L \<subseteq> ?R"
  proof clarify
    fix q assume "i \<le> q" "q < j"
    then have "i div m \<le> q div m \<and> q div m < (j - 1) div m + 1" by (simp add: div_le_mono less_Suc_eq_le)
    then show "\<exists>a. f (q div m) = f a \<and> i div m \<le> a \<and> a < (j - 1) div m + 1" by blast
  qed
  show "?R \<subseteq> ?L"
  proof clarify
    fix a assume a: "i div m \<le> a" "a < (j - 1) div m + 1"
    define q where "q = max i (a * m)"
    have "a * m \<le> j - 1" using a(2) assms(1) by (simp add: less_Suc_eq_le less_eq_div_iff_mult_less_eq)
    then have "i \<le> q \<and> q < j" using assms(2) by (auto simp: q_def)
    moreover have "q div m = a"
    proof (cases "i \<le> a * m")
      case True
      then show ?thesis using assms(1) by (simp add: q_def max_def)
    next
      case False
      then have "a \<le> i div m" using assms(1) by (simp add: less_eq_div_iff_mult_less_eq)
      with a(1) False show ?thesis by (simp add: q_def)
    qed
    ultimately show "\<exists>q. f a = f (q div m) \<and> i \<le> q \<and> q < j" by blast
  qed
qed

lemma unit_slice:
  assumes u: "unit_ok u" and fromto: "unat i < unat j" "unat j \<le> length (unit_targets u)"
  shows "range_ips (ranges_in (unit_addresses u) (i div ports_len u) ((j - 1) div ports_len u + 1))
    = {target_ip (unit_targets u ! q) | q. unat i \<le> q \<and> q < unat j}"
proof -
  let ?m = "length (unit_ports u)"
  have m: "0 < ?m" using u by (simp add: unit_ok_def)
  obtain rs where rs: "numbers (unit_addresses u) rs" using u by (auto simp: unit_ok_def)
  have j1: "unat (j - 1) = unat j - 1" using fromto by (intro unat_pred [of 0]) (auto simp: word_less_nat_alt)
  have "(unat j - 1) div ?m + 1 \<le> unat j" using fromto div_le_dividend [of "unat j - 1" ?m] by linarith
  then have "unat ((j - 1) div ports_len u) + unat (1 :: u64) < 2 ^ LENGTH(64)"
    using unat_bounds(3) [of j] by (simp add: unat_div_distrib j1 unat_ports_len [OF u])
  from unat_add_lt [OF this]
  have top: "unat ((j - 1) div ports_len u + 1) = (unat j - 1) div ?m + 1"
    by (simp add: unat_div_distrib j1 unat_ports_len [OF u])
  have fits: "(unat j - 1) div ?m + 1 \<le> length (unit_ips u)"
  proof -
    have "unat j - 1 < length (unit_ips u) * ?m" using fromto by (simp add: length_unit_targets)
    then have "(unat j - 1) div ?m < length (unit_ips u)" by (rule less_mult_imp_div_less)
    then show ?thesis by simp
  qed
  have "range_ips (ranges_in (unit_addresses u) (i div ports_len u) ((j - 1) div ports_len u + 1))
    = set (take ((unat j - 1) div ?m + 1 - unat i div ?m) (drop (unat i div ?m) (unit_ips u)))"
    unfolding range_ips_scoped
    using ranges_in_correct [OF rs, of "i div ports_len u" "(j - 1) div ports_len u + 1"] fits
    by (simp add: top unit_total [OF u] unat_div_distrib unat_ports_len [OF u] unit_ips_def take_map drop_map min_def)
  also have "\<dots> = {unit_ips u ! a | a. unat i div ?m \<le> a \<and> a < (unat j - 1) div ?m + 1}"
    using fits by (rule set_slice)
  also have "\<dots> = {unit_ips u ! (q div ?m) | q. unat i \<le> q \<and> q < unat j}"
    using div_between [OF m fromto(1), of "\<lambda>a. unit_ips u ! a"] by simp
  also have "\<dots> = {target_ip (unit_targets u ! q) | q. unat i \<le> q \<and> q < unat j}"
  proof -
    have "target_ip (unit_targets u ! q) = unit_ips u ! (q div ?m)" if "q < unat j" for q
      using that fromto(2) by (simp add: unit_targets_def length_blocks nth_blocks target_of_def)
    then have "x = unit_ips u ! (q div ?m) \<and> unat i \<le> q \<and> q < unat j
      \<longleftrightarrow> x = target_ip (unit_targets u ! q) \<and> unat i \<le> q \<and> q < unat j" for x q by auto
    then show ?thesis by simp
  qed
  finally show ?thesis .
qed

abbreviation span_ips :: "nat \<Rightarrow> nat \<Rightarrow> nat \<Rightarrow> target list \<Rightarrow> ip_addr set" where
  "span_ips k i j ts \<equiv> {target_ip (ts ! (q - k)) | q. k \<le> q \<and> i \<le> q \<and> q < j}"

lemma span_ips_append:
  "span_ips k i j (xs @ ys) = span_ips k i (min j (k + length xs)) xs \<union> span_ips (k + length xs) i j ys"
    (is "?L = ?A \<union> ?B")
proof -
  have "x \<in> ?L \<longleftrightarrow> x \<in> ?A \<union> ?B" for x
  proof -
    have "x \<in> ?L \<longleftrightarrow> (\<exists>q. (q < k + length xs \<or> k + length xs \<le> q) \<and> x = target_ip ((xs @ ys) ! (q - k)) \<and> k \<le> q \<and> i \<le> q \<and> q < j)"
      using linorder_not_less by auto
    also have "\<dots> \<longleftrightarrow> (\<exists>q. q < k + length xs \<and> x = target_ip ((xs @ ys) ! (q - k)) \<and> k \<le> q \<and> i \<le> q \<and> q < j)
        \<or> (\<exists>q. k + length xs \<le> q \<and> x = target_ip ((xs @ ys) ! (q - k)) \<and> k \<le> q \<and> i \<le> q \<and> q < j)" by blast
    also have "(\<exists>q. q < k + length xs \<and> x = target_ip ((xs @ ys) ! (q - k)) \<and> k \<le> q \<and> i \<le> q \<and> q < j) \<longleftrightarrow> x \<in> ?A"
      by (rule iffI; clarsimp) (metis add.commute less_diff_conv2 nth_append)+
    also have "(\<exists>q. k + length xs \<le> q \<and> x = target_ip ((xs @ ys) ! (q - k)) \<and> k \<le> q \<and> i \<le> q \<and> q < j) \<longleftrightarrow> x \<in> ?B"
    proof -
      have "(xs @ ys) ! (q - k) = ys ! (q - (k + length xs))" if "k + length xs \<le> q" for q
        using that by (simp add: nth_append)
      then have "(k + length xs \<le> q \<and> x = target_ip ((xs @ ys) ! (q - k)) \<and> k \<le> q \<and> i \<le> q \<and> q < j)
          \<longleftrightarrow> x = target_ip (ys ! (q - (k + length xs))) \<and> k + length xs \<le> q \<and> i \<le> q \<and> q < j" for q
        by auto
      then show ?thesis by simp
    qed
    finally show ?thesis by simp
  qed
  then show ?thesis by blast
qed

lemma unit_span_ips:
  fixes first stop :: u64
  assumes u: "unit_ok u" and start: "unat (unit_start u) = k"
    and fits: "k + length (unit_targets u) < 2 ^ 64" and stop: "k < unat stop"
  defines "i \<equiv> max first (unit_start u) - unit_start u" and "j \<equiv> min stop (unit_start u + unit_len u) - unit_start u"
  shows "range_ips (if j \<le> i then [] else ranges_in (unit_addresses u) (i div ports_len u) ((j - 1) div ports_len u + 1))
    = span_ips k (unat first) (min (unat stop) (k + length (unit_targets u))) (unit_targets u)"
proof -
  let ?n = "length (unit_targets u)"
  have len: "unat (unit_len u) = ?n" using u by (simp add: unit_ok_def)
  have "unat (unit_start u + unit_len u) = k + ?n" using fits by (subst unat_add_lt) (simp_all add: start len)
  then have stop': "unat (min stop (unit_start u + unit_len u)) = min (unat stop) (k + ?n)"
    by (simp add: min_def word_le_nat_alt)
  have "unit_start u \<le> min stop (unit_start u + unit_len u)" using stop by (simp add: word_le_nat_alt stop' start)
  then have j: "unat j = min (unat stop) (k + ?n) - k" by (simp add: j_def unat_sub stop' start)
  have i: "unat i = max (unat first) k - k" by (simp add: i_def unat_sub start) (simp add: max_def word_le_nat_alt start)
  have shift: "{target_ip (unit_targets u ! q) | q. unat i \<le> q \<and> q < unat j}
    = span_ips k (unat first) (min (unat stop) (k + ?n)) (unit_targets u)" (is "?L = ?R")
  proof
    show "?L \<subseteq> ?R"
    proof clarify
      fix q assume "unat i \<le> q" "q < unat j"
      then have "q = (k + q) - k \<and> k \<le> k + q \<and> unat first \<le> k + q \<and> k + q < min (unat stop) (k + ?n)"
        unfolding i j by auto
      then show "\<exists>qa. target_ip (unit_targets u ! q) = target_ip (unit_targets u ! (qa - k))
          \<and> k \<le> qa \<and> unat first \<le> qa \<and> qa < min (unat stop) (k + ?n)" by metis
    qed
    show "?R \<subseteq> ?L"
    proof clarify
      fix q assume "k \<le> q" "unat first \<le> q" "q < min (unat stop) (k + ?n)"
      then have "unat i \<le> q - k \<and> q - k < unat j" unfolding i j by auto
      then show "\<exists>qa. target_ip (unit_targets u ! (q - k)) = target_ip (unit_targets u ! qa) \<and> unat i \<le> qa \<and> qa < unat j"
        by blast
    qed
  qed
  show ?thesis
  proof (cases "j \<le> i")
    case True
    then have "{target_ip (unit_targets u ! q) | q. unat i \<le> q \<and> q < unat j} = {}" by (auto simp: word_le_nat_alt)
    then show ?thesis using True by (simp add: range_ips_def shift)
  next
    case False
    then have "unat i < unat j" "unat j \<le> ?n" by (auto simp: word_le_nat_alt j)
    from unit_slice [OF u this] False show ?thesis by (simp add: shift)
  qed
qed

lemma addresses_loop_correct:
  "laid k h us \<Longrightarrow> k + length (all_targets us) < 2 ^ 64 \<Longrightarrow> unat stop \<le> k + length (all_targets us) \<Longrightarrow>
   range_ips (addresses_loop first stop us) = span_ips k (unat first) (unat stop) (all_targets us)"
proof (induction us arbitrary: k h)
  case Nil
  then show ?case by (auto simp: range_ips_def)
next
  case (Cons u us)
  let ?n = "length (unit_targets u)"
  have u: "unit_ok u" "unat (unit_start u) = k" and rest: "laid (k + ?n) (h + length (unit_ips u)) us"
    using Cons.prems by auto
  show ?case
  proof (cases "stop \<le> unit_start u")
    case True
    then show ?thesis using u(2) by (auto simp: range_ips_def word_le_nat_alt)
  next
    case False
    then have lt: "k < unat stop" using u(2) by (simp add: word_le_nat_alt)
    have "range_ips (addresses_loop first stop us) = span_ips (k + ?n) (unat first) (unat stop) (all_targets us)"
      using Cons.IH [OF rest] Cons.prems by (simp add: add.assoc)
    moreover have "k + ?n < 2 ^ 64" using Cons.prems(2) by simp
    note unit_span_ips [OF u this lt, of first]
    moreover have "addresses_loop first stop (u # us) =
        (let i = max first (unit_start u) - unit_start u; j = min stop (unit_start u + unit_len u) - unit_start u
         in if j \<le> i then [] else ranges_in (unit_addresses u) (i div ports_len u) ((j - 1) div ports_len u + 1))
        @ addresses_loop first stop us"
      using False by (simp add: Let_def)
    ultimately show ?thesis unfolding list.map concat.simps span_ips_append by (simp only: range_ips_append Let_def)
  qed
qed

lemma addresses_in_span:
  assumes ix: "index_ok ix"
  shows "range_ips (addresses_in ix first past)
    = span_ips 0 (unat first) (min (unat past) (unat (index_total ix))) (all_targets (index_units ix))"
proof -
  let ?us = "index_units ix" and ?P = "\<lambda>u. unit_start u + unit_len u \<le> first"
  have laid: "laid 0 0 ?us" and tot: "unat (index_total ix) = length (all_targets ?us)" using ix by (simp_all add: index_ok_def)
  note nth = laid_nth [OF laid]
  have P: "?P (?us ! j) \<longleftrightarrow> length (all_targets (take (Suc j) ?us)) \<le> unat first" if j: "j < length ?us" for j
  proof -
    have len: "unat (unit_len (?us ! j)) = length (unit_targets (?us ! j))" using nth(1) [OF j] by (simp add: unit_ok_def)
    have "length (all_targets (take (Suc j) ?us)) \<le> length (all_targets ?us)" by (rule length_take_blocks)
    then have "unat (unit_start (?us ! j)) + unat (unit_len (?us ! j)) < 2 ^ LENGTH(64)"
      using unat_bounds(3) [of "index_total ix"] j by (simp add: nth(2) [OF j] len tot take_Suc_conv_app_nth)
    from unat_add_lt [OF this] show ?thesis
      by (simp add: word_le_nat_alt nth(2) [OF j] len take_Suc_conv_app_nth j)
  qed
  have mono: "length (all_targets (take a ?us)) \<le> length (all_targets (take b ?us))" if "a \<le> b" for a b
    using length_take_blocks [of unit_targets a "take b ?us"] that by (simp add: min_def)
  have "sorted_wrt (\<lambda>x y. ?P y \<longrightarrow> ?P x) ?us"
    unfolding sorted_wrt_iff_nth_less
  proof (intro allI impI)
    fix a b assume "a < b" "b < length ?us" "?P (?us ! b)"
    then show "?P (?us ! a)" using P [of a] P [of b] mono [of "Suc a" "Suc b"] by simp
  qed
  note part = partition_point_prefix [OF this]
  define n where "n = partition_point ?P ?us"
  let ?xs = "take n ?us" and ?ys = "drop n ?us" and ?j = "min (unat past) (unat (index_total ix))"
  have n: "n \<le> length ?us" "\<And>i. i < n \<Longrightarrow> ?P (?us ! i)" using part by (auto simp: n_def)
  have skipped: "length (all_targets ?xs) \<le> unat first \<or> ?xs = []"
    using n(1) n(2) [of "n - 1"] P [of "n - 1"] by (cases n) auto
  have us: "all_targets ?us = all_targets ?xs @ all_targets ?ys"
    by (simp flip: concat_append map_append)
  have "laid 0 0 (?xs @ ?ys)" using laid by simp
  then have "laid (length (all_targets ?xs)) (length (all_ips ?xs)) ?ys" unfolding laid_append by simp
  moreover have "length (all_targets ?xs) + length (all_targets ?ys) = unat (index_total ix)" by (simp add: tot us)
  ultimately have "range_ips (addresses_loop first (min past (index_total ix)) ?ys)
      = span_ips (length (all_targets ?xs)) (unat first) ?j (all_targets ?ys)"
    using addresses_loop_correct [of "length (all_targets ?xs)" "length (all_ips ?xs)" ?ys "min past (index_total ix)" first]
      unat_bounds(3) [of "index_total ix"]
    by (simp add: min_def word_le_nat_alt)
  moreover have "span_ips 0 (unat first) (min ?j (0 + length (all_targets ?xs))) (all_targets ?xs) = {}"
    using skipped by auto
  ultimately show ?thesis
    unfolding us span_ips_append by (simp only: addresses_in_def Let_def add_0 Un_empty_left flip: n_def)
qed

section \<open>What the numbering leaves out\<close>

lemma ranges_of_addresses: "ip_set_inv s \<Longrightarrow> \<not> v4_dirty s \<Longrightarrow> \<not> v6_dirty s \<Longrightarrow> v4 s = [] \<Longrightarrow> v6 s = [] \<Longrightarrow>
  unnumbered (positions_of s) = [] \<and> total (positions_of s) = 0"
  by (simp add: positions_of_def of_canonical_def)

lemma port_iter_empty: "port_set_inv s \<Longrightarrow> port_set_iter s = [] \<longleftrightarrow> port_set_is_empty s"
proof -
  assume s: "port_set_inv s"
  have "lane_list s p = [] \<longleftrightarrow> ranges s p = []" for p
  proof -
    have "\<forall>r \<in> set (ranges s p). fst r \<le> snd r" using s by (simp add: port_set_inv_ranges lane_ok_def)
    then show ?thesis by (cases "ranges s p") (auto simp: range_inclusive_def word_le_nat_alt simp del: upt_Suc)
  qed
  from this [of Tcp] this [of Udp] this [of Sctp] show ?thesis
    unfolding iter_lanes append_is_Nil_conv by (simp add: port_set_is_empty_def ALL_protocols_def)
qed

lemma port_count_bound: "port_set_inv s \<Longrightarrow> length (port_set_iter s) \<le> 196608"
proof -
  assume "port_set_inv s"
  then have "card (set (port_set_iter s)) = length (port_set_iter s)"
    by (intro distinct_card) (simp add: iter_correct_lanes)
  moreover have "set (port_set_iter s) \<subseteq> (UNIV :: u16 set) \<times> {Tcp, Udp, Sctp}"
    using protocol.exhaust by auto
  then have "card (set (port_set_iter s)) \<le> card ((UNIV :: u16 set) \<times> {Tcp, Udp, Sctp})"
    by (intro card_mono) auto
  ultimately show ?thesis by (simp add: card_cartesian_product card_word)
qed

lemma uncounted:
  assumes inv: "target_set_inv t" and ports: "port_set_iter (set_ports t) \<noteq> []"
    and none: "counted held (positions_of (set_ips t)) (length (port_set_iter (set_ports t))) = None"
  shows "left_out (t # ts) \<noteq> []"
proof -
  have "\<not> (v4 (set_ips t) = [] \<and> v6 (set_ips t) = [])"
  proof
    assume "v4 (set_ips t) = [] \<and> v6 (set_ips t) = []"
    then have e: "unnumbered (positions_of (set_ips t)) = []" "total (positions_of (set_ips t)) = 0"
      using ranges_of_addresses inv by (simp_all add: target_set_inv_def)
    have "length (port_set_iter (set_ports t)) < 2 ^ 64"
      using port_count_bound inv by (fastforce simp: target_set_inv_def)
    moreover have "checked_mul (0 :: u64) n = Some 0" "checked_add held 0 = Some held" for n
      using unat_bounds(3) [of held] by (simp_all add: checked_mul_Some checked_add_Some)
    ultimately show False using none e by (simp add: counted_def try_from_usize)
  qed
  then show ?thesis
    using ports inv by (auto simp: left_out_def target_set_inv_def port_iter_empty)
qed

lemma index_loop_complete:
  "\<forall>t \<in> set ts. target_set_inv t \<Longrightarrow> index_complete ix = (index_unnumbered ix = []) \<Longrightarrow>
   index_complete (index_loop ix ts) = (index_unnumbered (index_loop ix ts) = [])"
proof (induction ts arbitrary: ix)
  case (Cons t ts)
  then show ?case
    using uncounted [of t "index_total ix" ts] by (simp add: Let_def split: option.split)
qed simp

end
