(* ===== verification/Target_Correct.thy ===== *)
theory Target_Correct
  imports Target_Index
begin

text \<open>
  Correctness of the target model: the index of a map agrees with the map's own enumeration,
  hosts partition the positions, withholding ports filters the enumeration, and the zones a
  scan keeps answer for every address it kept.
\<close>

section \<open>Withholding ports\<close>

abbreviation lane_ports :: "port_range list \<Rightarrow> u16 list" where
  "lane_ports rs \<equiv> concat (map (\<lambda>r. range_inclusive (fst r) (snd r)) rs)"

lemma lane_ports_set: "set (lane_ports rs) = {x. unat x \<in> port_lane.points rs}"
  unfolding lane_points_iff by (force simp: set_range_inclusive)

lemma lane_ports_sorted: "lane_ok rs \<Longrightarrow> sorted (lane_ports rs) \<and> distinct (lane_ports rs)"
proof -
  assume ok: "lane_ok rs"
  then have "sorted_wrt (<) (map unat (lane_ports rs))"
    unfolding lane_enum by (intro enum_ivals_sorted) (simp add: lane_ok_def)
  then have "sorted_wrt (<) (lane_ports rs)" unfolding sorted_wrt_map by (simp flip: word_less_nat_alt)
  then show ?thesis using strict_sorted_iff by blast
qed

lemma difference_lane_list:
  assumes "port_set_inv s" and "port_set_inv t"
  shows "lane_list (port_difference s t) p = filter (\<lambda>x. x \<notin> ports t) (lane_list s p)"
proof -
  have ok: "lane_ok (ranges s p)" "lane_ok (ranges t p)" using assms by (simp_all add: port_set_inv_ranges)
  note d = difference_lane [OF ok, folded ranges_difference]
  have "lane_ports (ranges (port_difference s t) p) = filter (\<lambda>x. (x, p) \<notin> ports t) (lane_ports (ranges s p))"
  proof (rule sorted_distinct_set_unique)
    show "set (lane_ports (ranges (port_difference s t) p)) = set (filter (\<lambda>x. (x, p) \<notin> ports t) (lane_ports (ranges s p)))"
      unfolding set_filter lane_ports_set ports_points using d by auto
  qed (use lane_ports_sorted d ok in \<open>auto intro: sorted_wrt_filter\<close>)
  then show ?thesis by (simp only: filter_map comp_def)
qed

lemma port_difference_iter:
  assumes "port_set_inv s" and "port_set_inv t"
  shows "port_set_iter (port_difference s t) = filter (\<lambda>x. x \<notin> ports t) (port_set_iter s)"
  unfolding iter_lanes filter_append difference_lane_list [OF assms] ..

lemma port_difference_inv:
  assumes "port_set_inv s" and "port_set_inv t"
  shows "port_set_inv (port_difference s t)"
  using difference_lane assms by (simp add: port_set_inv_ranges ranges_difference)

lemma empty_ports: "port_set_is_empty s \<Longrightarrow> ports s = {}"
  by (auto simp: port_set_is_empty_def ports_def ALL_protocols_def all_protocols)

lemma iter_canonical: "target_set_inv t \<Longrightarrow> set_iter (canonicalize (set_ips t)) = set_iter (set_ips t)"
  by (simp add: target_set_inv_def canonicalize_idle)

lemma filter_blocks:
  "filter (\<lambda>t. (target_port t, target_protocol t) \<notin> X) (concat (map (\<lambda>ip. map (target_of ip) xs) ips))
     = concat (map (\<lambda>ip. map (target_of ip) (filter (\<lambda>x. x \<notin> X) xs)) ips)"
  by (induction ips) (simp_all add: filter_map comp_def target_of_def)

lemma withhold_unit:
  assumes "target_set_inv t" and "port_set_inv ex"
  defines "kept \<equiv> port_difference (set_ports t) ex"
  shows "target_set_iter (target_set_new (set_ips t) kept)
      = filter (\<lambda>x. (target_port x, target_protocol x) \<notin> ports ex) (target_set_iter t)"
    and "target_set_inv (target_set_new (set_ips t) kept)"
    and "port_set_is_empty kept \<Longrightarrow> filter (\<lambda>x. (target_port x, target_protocol x) \<notin> ports ex) (target_set_iter t) = []"
proof -
  have inv: "port_set_inv (set_ports t)" using assms(1) by (simp add: target_set_inv_def)
  show all: "target_set_iter (target_set_new (set_ips t) kept)
      = filter (\<lambda>x. (target_port x, target_protocol x) \<notin> ports ex) (target_set_iter t)"
    unfolding target_set_iter_blocks filter_blocks
    by (simp add: target_set_new_def iter_canonical [OF assms(1)] kept_def port_difference_iter [OF inv assms(2)])
  show "target_set_inv (target_set_new (set_ips t) kept)"
    using assms(1) port_difference_inv [OF inv assms(2)]
    by (simp add: target_set_inv_def target_set_new_def kept_def canonicalize_idle)
  assume "port_set_is_empty kept"
  then have "port_set_iter kept = []"
    using port_iter_empty port_difference_inv [OF inv assms(2)] by (simp add: kept_def)
  then show "filter (\<lambda>x. (target_port x, target_protocol x) \<notin> ports ex) (target_set_iter t) = []"
    unfolding all [symmetric] by (simp add: target_set_iter_blocks target_set_new_def)
qed

lemma withhold_units:
  assumes "\<forall>t \<in> set ts. target_set_inv t" and "port_set_inv ex"
  defines "f \<equiv> \<lambda>t. let kept = port_difference (set_ports t) ex
                 in if port_set_is_empty kept then None else Some (target_set_new (set_ips t) kept)"
  shows "concat (map target_set_iter (List.map_filter f ts))
      = filter (\<lambda>x. (target_port x, target_protocol x) \<notin> ports ex) (concat (map target_set_iter ts))
    \<and> (\<forall>t \<in> set (List.map_filter f ts). target_set_inv t)"
  using assms(1)
proof (induction ts)
  case (Cons t ts)
  then have "target_set_inv t" by simp
  note t = withhold_unit [OF this assms(2)]
  show ?case using Cons t by (simp add: f_def Let_def List.map_filter_simps)
qed (simp add: List.map_filter_simps)

section \<open>Targets that cannot be probed\<close>

definition map_addrs :: "target_map \<Rightarrow> (ip_addr \<times> u32 option) set" where
  "map_addrs m = (\<Union>t \<in> set (units m). scoped_addrs (set_ips t))"

lemma push_ranges:
  "v4 (foldl push_v4_range s rs) = v4 s @ rs" "v6 (foldl push_v4_range s rs) = v6 s"
  "v6 (foldl (\<lambda>s r. if keep r then push_v6_range s r else s) s qs) = v6 s @ filter keep qs"
  "v4 (foldl (\<lambda>s r. if keep r then push_v6_range s r else s) s qs) = v4 s"
  by (induction rs arbitrary: s; simp add: push_v4_range_def)+
    (induction qs arbitrary: s; simp add: push_v6_range_def)+

lemma push_dirty:
  "v4_dirty (foldl push_v4_range s rs) \<longleftrightarrow> v4_dirty s \<or> rs \<noteq> []"
  "v6_dirty (foldl push_v4_range s rs) = v6_dirty s"
  "v6_dirty (foldl (\<lambda>s r. if keep r then push_v6_range s r else s) s qs) \<longleftrightarrow> v6_dirty s \<or> filter keep qs \<noteq> []"
  "v4_dirty (foldl (\<lambda>s r. if keep r then push_v6_range s r else s) s qs) = v4_dirty s"
  by (induction rs arbitrary: s; simp add: push_v4_range_def)+
    (induction qs arbitrary: s; simp add: push_v6_range_def)+

lemma is_empty_addrs: "ip_set_inv s \<Longrightarrow> is_empty s \<longleftrightarrow> scoped_addrs s = {}"
proof -
  assume inv: "ip_set_inv s"
  have "r \<in> set (v4 s) \<Longrightarrow> (V4 (start_addr4 r), None) \<in> scoped_addrs s" for r
    using inv by (auto simp: ip_set_inv_def scoped_addrs_def scoped4_def ipv4_contains_def ok4_def intro!: bexI)
  moreover have "r \<in> set (v6 s) \<Longrightarrow> (V6 (start_addr6 r), zone6 r) \<in> scoped_addrs s" for r
    using inv by (auto simp: ip_set_inv_def scoped_addrs_def scoped6_def ipv6_contains_def ok6_def intro!: bexI)
  ultimately have "v4 s \<noteq> [] \<or> v6 s \<noteq> [] \<Longrightarrow> scoped_addrs s \<noteq> {}"
    by (metis empty_iff list.set_intros(1) neq_Nil_conv)
  moreover have "v4 s = [] \<and> v6 s = [] \<Longrightarrow> scoped_addrs s = {}"
    by (simp add: scoped_addrs_def scoped4_def scoped6_def)
  ultimately show ?thesis by (auto simp: is_empty_def)
qed

lemma keep_unit_correct:
  fixes keep :: "ipv6_range \<Rightarrow> bool"
  assumes "target_set_inv t"
  defines "kept \<equiv> scoped4 (v4 (set_ips t)) \<union> scoped6 (filter keep (v6 (set_ips t)))"
  shows "case keep_unit keep t of
      None \<Rightarrow> kept = {}
    | Some t' \<Rightarrow> target_set_inv t' \<and> set_ports t' = set_ports t \<and> scoped_addrs (set_ips t') = kept"
proof -
  let ?left6 = "foldl (\<lambda>s r. if keep r then push_v6_range s r else s)
    (foldl push_v4_range ip_set_new (v4 (set_ips t))) (v6 (set_ips t))"
  have "ip_set_inv ?left6" and addrs: "scoped_addrs ?left6 = kept"
    using assms by (auto simp: ip_set_inv_def push_ranges push_dirty ip_set_new_def target_set_inv_def
        scoped_addrs_def canonical_def)
  note c = canonicalize_correct [OF this(1)]
  have "keep_unit keep t = (if kept = {} then None
      else Some \<lparr>set_ips = canonicalize ?left6, set_ports = set_ports t\<rparr>)"
    using is_empty_addrs [OF c(1)] c addrs canonicalize_idle [OF c(2,3)]
    by (simp add: keep_unit_def Let_def target_set_new_def)
  then show ?thesis using c addrs assms(1) by (simp add: target_set_inv_def)
qed

lemma keep_v6_correct:
  assumes "target_map_inv m"
  shows "target_map_inv (keep_v6 m keep)"
    "map_addrs (keep_v6 m keep) = (\<Union>t \<in> set (units m). scoped4 (v4 (set_ips t)) \<union> scoped6 (filter keep (v6 (set_ips t))))"
proof -
  have "(\<forall>t \<in> set (List.map_filter (keep_unit keep) ts). target_set_inv t)
      \<and> (\<Union>t \<in> set (List.map_filter (keep_unit keep) ts). scoped_addrs (set_ips t))
        = (\<Union>t \<in> set ts. scoped4 (v4 (set_ips t)) \<union> scoped6 (filter keep (v6 (set_ips t))))"
    if "\<forall>t \<in> set ts. target_set_inv t" for ts
    using that
  proof (induction ts)
    case (Cons t ts)
    then show ?case using keep_unit_correct [of t keep]
      by (auto simp: List.map_filter_simps split: option.splits)
  qed (simp add: List.map_filter_simps)
  from this [of "units m"] assms show "target_map_inv (keep_v6 m keep)"
    "map_addrs (keep_v6 m keep) = (\<Union>t \<in> set (units m). scoped4 (v4 (set_ips t)) \<union> scoped6 (filter keep (v6 (set_ips t))))"
    by (simp_all add: target_map_inv_def keep_v6_def map_addrs_def)
qed

lemma scoped6_map: "(\<Union>t \<in> set (units m). scoped6 (filter P (v6 (set_ips t)))) = scoped6 (filter P (map_v6 m))"
  by (auto simp: scoped6_def map_v6_def)

lemma scoped6_split: "scoped6 (filter P rs) \<union> scoped6 (filter (\<lambda>r. \<not> P r) rs) = scoped6 rs"
  unfolding scoped6_def by fastforce

lemma keep_v6_split:
  assumes "target_map_inv m"
  shows "map_addrs m = map_addrs (keep_v6 m keep) \<union> scoped6 (filter (\<lambda>r. \<not> keep r) (map_v6 m))"
proof -
  have "map_addrs m = (\<Union>t \<in> set (units m). scoped4 (v4 (set_ips t))) \<union> scoped6 (map_v6 m)"
    by (auto simp: map_addrs_def scoped_addrs_def scoped6_def map_v6_def)
  moreover have "map_addrs (keep_v6 m keep)
      = (\<Union>t \<in> set (units m). scoped4 (v4 (set_ips t))) \<union> scoped6 (filter keep (map_v6 m))"
    unfolding keep_v6_correct(2) [OF assms] scoped6_map [symmetric] by blast
  ultimately show ?thesis using scoped6_split [of keep "map_v6 m"] by blast
qed

text \<open>The name a zone is recorded under: the interface table's, or the index itself.\<close>

definition interface_name :: "(u32 \<times> string) list \<Rightarrow> u32 \<Rightarrow> string" where
  "interface_name interfaces z =
     (case find (\<lambda>i. fst i = z) interfaces of None \<Rightarrow> show_nat (unat z) | Some i \<Rightarrow> snd i)"

definition zones_ok :: "(u32 \<times> string) list \<Rightarrow> zone_map \<Rightarrow> bool" where
  "zones_ok interfaces m \<longleftrightarrow>
     (\<forall>x \<in> set m. \<exists>z. zone6 (fst x) = Some z \<and> snd x = zone_new z (interface_name interfaces z))
     \<and> (\<forall>x \<in> set m. \<forall>y \<in> set m. ipv6_overlaps (fst x) (fst y) \<longrightarrow> zone6 (fst x) = zone6 (fst y))"

definition sorted_out :: "(u32 \<times> string) list \<Rightarrow> ipv6_range list \<Rightarrow> unprobeable \<Rightarrow> bool" where
  "sorted_out interfaces rs u \<longleftrightarrow>
     zones_ok interfaces (zones u) \<and> set (unscoped_ranges u) \<union> set (contested u) \<subseteq> set rs
     \<and> (\<forall>r \<in> set rs. r \<in> set (unscoped_ranges u) \<or> r \<in> set (contested u)
          \<or> \<not> is_ambiguous r \<and> (zone6 r \<noteq> None \<longrightarrow> r \<in> fst ` set (zones u)))"

lemma ipv6_overlaps_sym: "ipv6_overlaps a b = ipv6_overlaps b a"
  by (auto simp: ipv6_overlaps_def)

lemma zones_ok_snoc:
  assumes ok: "zones_ok interfaces m" and r: "zone6 r = Some z"
    and free: "\<And>x. x \<in> set m \<Longrightarrow> ipv6_overlaps (fst x) r \<Longrightarrow> zone6 (fst x) = zone6 r"
  shows "zones_ok interfaces (m @ [(r, zone_new z (interface_name interfaces z))])"
proof -
  have "zone6 (fst x) = zone6 (fst y)"
    if "x \<in> insert (r, zone_new z (interface_name interfaces z)) (set m)"
      "y \<in> insert (r, zone_new z (interface_name interfaces z)) (set m)" "ipv6_overlaps (fst x) (fst y)" for x y
  proof -
    have "x \<in> set m \<Longrightarrow> y \<in> set m \<Longrightarrow> ?thesis" using ok that(3) by (simp add: zones_ok_def)
    moreover have "fst x = r \<Longrightarrow> y \<in> set m \<Longrightarrow> ?thesis" using free [of y] that(3) ipv6_overlaps_sym [of r] by simp
    moreover have "x \<in> set m \<Longrightarrow> fst y = r \<Longrightarrow> ?thesis" using free [of x] that(3) by simp
    ultimately show ?thesis using that(1,2) by fastforce
  qed
  moreover have "\<forall>x \<in> set m. \<exists>z. zone6 (fst x) = Some z \<and> snd x = zone_new z (interface_name interfaces z)"
    using ok unfolding zones_ok_def by blast
  ultimately show ?thesis using r unfolding zones_ok_def by simp
qed

lemma sorted_outI:
  assumes old: "sorted_out interfaces rs u" and "zones_ok interfaces (zones u')"
    and "fst ` set (zones u) \<subseteq> fst ` set (zones u')"
    and "set (unscoped_ranges u) \<subseteq> set (unscoped_ranges u')" "set (contested u) \<subseteq> set (contested u')"
    and "set (unscoped_ranges u') \<union> set (contested u') \<subseteq> insert r (set rs)"
    and "r \<in> set (unscoped_ranges u') \<or> r \<in> set (contested u')
      \<or> \<not> is_ambiguous r \<and> (zone6 r \<noteq> None \<longrightarrow> r \<in> fst ` set (zones u'))"
  shows "sorted_out interfaces (rs @ [r]) u'"
proof -
  have "q \<in> set (unscoped_ranges u') \<or> q \<in> set (contested u')
      \<or> \<not> is_ambiguous q \<and> (zone6 q \<noteq> None \<longrightarrow> q \<in> fst ` set (zones u'))" if "q \<in> set rs" for q
    using old that assms(3-5) unfolding sorted_out_def by blast
  then show ?thesis using assms(2,6,7) unfolding sorted_out_def by simp
qed

lemma sort_out_step:
  assumes "sorted_out interfaces rs u"
  shows "sorted_out interfaces (rs @ [r]) (sort_out interfaces u r)"
proof -
  have ok: "zones_ok interfaces (zones u)" and sub: "set (unscoped_ranges u) \<subseteq> set rs" "set (contested u) \<subseteq> set rs"
    using assms by (auto simp: sorted_out_def)
  consider (ambiguous) "is_ambiguous r" | (contested) "\<not> is_ambiguous r" "contests (zones u) r"
    | (none) "\<not> is_ambiguous r" "\<not> contests (zones u) r" "zone6 r = None"
    | (kept) z where "\<not> is_ambiguous r" "\<not> contests (zones u) r" "zone6 r = Some z" by fastforce
  then show ?thesis
  proof cases
    case (kept z)
    have "zone_map_insert (zones u) r interfaces = zones u @ [(r, zone_new z (interface_name interfaces z))]"
      using kept(3) by (simp add: zone_map_insert_def interface_name_def)
    then have u': "sort_out interfaces u r = u\<lparr>zones := zones u @ [(r, zone_new z (interface_name interfaces z))]\<rparr>"
      using kept by (simp add: sort_out_def)
    have "zone6 (fst x) = zone6 r" if "x \<in> set (zones u)" "ipv6_overlaps (fst x) r" for x
      using kept(2) that by (auto simp: contests_def list_ex_iff)
    from zones_ok_snoc [OF ok kept(3) this] show ?thesis
      unfolding u' by (intro sorted_outI [OF assms]) (use sub kept in auto)
  next
    case none
    then have u': "sort_out interfaces u r = u" by (simp add: sort_out_def zone_map_insert_def)
    show ?thesis unfolding u' by (intro sorted_outI [OF assms ok]) (use sub none in auto)
  next
    case ambiguous
    then show ?thesis by (intro sorted_outI [OF assms]) (use ok sub in \<open>auto simp: sort_out_def\<close>)
  next
    case contested
    then show ?thesis by (intro sorted_outI [OF assms]) (use ok sub in \<open>auto simp: sort_out_def\<close>)
  qed
qed

lemma sort_out_foldl:
  "sorted_out interfaces rs u \<Longrightarrow> sorted_out interfaces (rs @ rs') (foldl (sort_out interfaces) u rs')"
proof (induction rs' arbitrary: rs u)
  case (Cons r rs')
  from Cons.IH [OF sort_out_step [OF Cons.prems]] show ?case by simp
qed simp

lemma zone_search_same: "\<forall>z \<in> set zs. zone_eq held z \<Longrightarrow> zone_search (Some held) zs = Some held"
  by (induction zs) auto

lemma zone_of_held:
  assumes ok: "zones_ok interfaces m" and r: "r \<in> fst ` set m" and z: "zone6 r = Some z" and "ipv6_contains r a" and "z \<noteq> 0"
  shows "zone_of m (V6 a) = Some z"
proof -
  let ?hits = "filter (\<lambda>x. ipv6_contains (fst x) a) m" and ?zone = "zone_new z (interface_name interfaces z)"
  have "x \<in> set ?hits \<Longrightarrow> snd x = ?zone" for x
  proof -
    assume x: "x \<in> set ?hits"
    then have "ipv6_overlaps (fst x) r" using assms(4) by (auto simp: ipv6_contains_def ipv6_overlaps_def)
    moreover obtain y where "y \<in> set m" "fst y = r" using r by blast
    ultimately have "zone6 (fst x) = Some z" using ok x z unfolding zones_ok_def by auto
    then show "snd x = ?zone" using ok x by (auto simp: zones_ok_def)
  qed
  then have same: "set (map snd ?hits) \<subseteq> {?zone}" by auto
  have "?hits \<noteq> []" using r assms(4) by (auto simp: filter_empty_conv)
  then obtain y ys where hits: "map snd ?hits = y # ys" by (cases ?hits) auto
  with same have "y = ?zone" "\<forall>x \<in> set ys. x = ?zone" by auto
  then have "zone_search None (map snd ?hits) = Some ?zone" using hits by (simp add: zone_search_same zone_eq_def)
  then show ?thesis using \<open>z \<noteq> 0\<close> by (simp add: zone_of_def zone_new_def)
qed

lemma link_local_bounds:
  assumes "is_unicast_link_local a"
  shows "LINK_LOCAL_FIRST \<le> a \<and> a \<le> LINK_LOCAL_LAST"
proof -
  have "drop_bit 6 (drop_bit 112 a AND 0xffc0) = drop_bit 6 (0xfe80 :: u128)"
    using assms by (simp only: is_unicast_link_local_def)
  moreover have "drop_bit 6 (drop_bit 112 a AND 0xffc0) = drop_bit 118 a AND (0x3ff :: u128)"
    unfolding drop_bit_and by (simp add: drop_bit_drop_bit)
  moreover have "drop_bit 118 a AND 0x3ff = drop_bit 118 a"
  proof -
    have "drop_bit 118 a AND mask 10 = drop_bit 118 a"
      by (rule bit_word_eqI) (auto simp: bit_simps dest: bit_imp_le_length)
    then show ?thesis by (simp add: mask_eq_exp_minus_1)
  qed
  ultimately have "drop_bit 118 a = 0x3fa" by simp
  then have "unat (drop_bit 118 a) = 0x3fa" by simp
  then have "unat a div 2 ^ 118 = 0x3fa" by (simp add: drop_bit_eq_div unat_div_distrib)
  then have "0x3fa * 2 ^ 118 \<le> unat a" "unat a < 0x3fb * 2 ^ 118"
    using div_times_less_eq_dividend [of "unat a" "2 ^ 118"] dividend_less_div_times [of "2 ^ 118" "unat a"] by simp_all
  moreover have "unat LINK_LOCAL_FIRST = 0x3fa * 2 ^ 118" "unat LINK_LOCAL_LAST = 0x3fb * 2 ^ 118 - 1"
    by (simp_all add: LINK_LOCAL_FIRST_def LINK_LOCAL_LAST_def)
  ultimately show ?thesis by (simp add: word_le_nat_alt)
qed

lemma set_tidied: "set (remdups_adj (sort_key f xs)) = set xs"
  by simp

lemma take_unprobeable_correct:
  fixes interfaces :: "(u32 \<times> string) list" and walkable :: "ipv6_range \<Rightarrow> bool"
  assumes inv: "target_map_inv m"
  defines "u \<equiv> snd (take_unprobeable m interfaces walkable)" and "m' \<equiv> fst (take_unprobeable m interfaces walkable)"
  shows "target_map_inv m'"
    and "map_addrs m = map_addrs m' \<union> scoped6 (unscoped_ranges u @ contested u @ unwalkable u)"
    and "(V6 a, Some z) \<in> map_addrs m' \<Longrightarrow> z \<noteq> 0 \<Longrightarrow> zone_of (zones u) (V6 a) = Some z"
    and "(V6 a, None) \<in> map_addrs m' \<Longrightarrow> \<not> is_unicast_link_local a"
proof -
  let ?u = "foldl (sort_out interfaces) \<lparr>zones = [], unscoped_ranges = [], contested = [], unwalkable = []\<rparr> (map_v6 m)"
  define keep where "keep = (\<lambda>r. r \<notin> set (unscoped_ranges ?u) \<and> r \<notin> set (contested ?u))"
  define m1 where "m1 = keep_v6 m keep"
  define wide where "wide = filter (\<lambda>r. \<not> walkable r) (map_v6 m1)"
  have take: "take_unprobeable m interfaces walkable = (if wide \<noteq> [] then keep_v6 m1 walkable else m1,
      ?u\<lparr>unscoped_ranges := remdups_adj (sort_key start_addr6 (unscoped_ranges ?u)),
         unwalkable := remdups_adj (sort_key start_addr6 wide)\<rparr>)"
    unfolding take_unprobeable_def Let_def keep_def [symmetric] m1_def [symmetric] wide_def [symmetric] ..
  have m': "m' = (if wide \<noteq> [] then keep_v6 m1 walkable else m1)" by (simp add: m'_def take)
  have u: "zones u = zones ?u" "set (unscoped_ranges u) = set (unscoped_ranges ?u)" "contested u = contested ?u"
    "set (unwalkable u) = set wide" by (simp_all add: u_def take)
  have "sorted_out interfaces [] \<lparr>zones = [], unscoped_ranges = [], contested = [], unwalkable = []\<rparr>"
    by (simp add: sorted_out_def zones_ok_def)
  from sort_out_foldl [OF this, of "map_v6 m"] have out: "sorted_out interfaces (map_v6 m) ?u" by simp
  have inv1: "target_map_inv m1" unfolding m1_def by (rule keep_v6_correct(1) [OF inv])
  show "target_map_inv m'" unfolding m' using inv1 keep_v6_correct(1) [OF inv1] by simp
  have split1: "map_addrs m = map_addrs m1 \<union> scoped6 (filter (\<lambda>r. \<not> keep r) (map_v6 m))"
    unfolding m1_def by (rule keep_v6_split [OF inv])
  have split2: "map_addrs m1 = map_addrs m' \<union> scoped6 wide"
    unfolding m' wide_def using keep_v6_split [OF inv1, of walkable] by (auto simp: scoped6_def)
  have "set (filter (\<lambda>r. \<not> keep r) (map_v6 m)) = set (unscoped_ranges u @ contested u)"
    using out unfolding sorted_out_def by (auto simp: keep_def u)
  then have "scoped6 (filter (\<lambda>r. \<not> keep r) (map_v6 m)) = scoped6 (unscoped_ranges u @ contested u)"
    by (simp only: scoped6_def)
  moreover have "scoped6 (unscoped_ranges u @ contested u @ unwalkable u) = scoped6 (unscoped_ranges u @ contested u) \<union> scoped6 wide"
    by (auto simp: scoped6_def u)
  ultimately show "map_addrs m = map_addrs m' \<union> scoped6 (unscoped_ranges u @ contested u @ unwalkable u)"
    using split1 split2 by blast
  have kept: "\<exists>r \<in> set (map_v6 m). keep r \<and> zone6 r = z \<and> ipv6_contains r a" if "(V6 a, z) \<in> map_addrs m'" for a z
  proof -
    have "(V6 a, z) \<in> map_addrs m1" using that split2 by blast
    then have "(V6 a, z) \<in> (\<Union>t \<in> set (units m). scoped6 (filter keep (v6 (set_ips t))))"
      unfolding m1_def keep_v6_correct(2) [OF inv] by (auto simp: scoped4_def)
    then show ?thesis unfolding scoped6_map by (auto simp: scoped6_def)
  qed
  show "zone_of (zones u) (V6 a) = Some z" if "(V6 a, Some z) \<in> map_addrs m'" "z \<noteq> 0"
  proof -
    from kept [OF that(1)] obtain r where r: "r \<in> set (map_v6 m)" "keep r" "zone6 r = Some z" "ipv6_contains r a" by blast
    then have "zones_ok interfaces (zones u)" "r \<in> fst ` set (zones u)"
      using out unfolding sorted_out_def keep_def u by blast+
    then show ?thesis using r that(2) by (blast intro: zone_of_held)
  qed
  show "\<not> is_unicast_link_local a" if "(V6 a, None) \<in> map_addrs m'"
  proof
    assume "is_unicast_link_local a"
    then have "LINK_LOCAL_FIRST \<le> a" "a \<le> LINK_LOCAL_LAST" using link_local_bounds by blast+
    moreover from kept [OF that] obtain r where r: "r \<in> set (map_v6 m)" "keep r" "zone6 r = None" "ipv6_contains r a" by blast
    ultimately have "is_ambiguous r" by (auto simp: is_ambiguous_def covers_link_local_def ipv6_contains_def)
    then show False using out r unfolding sorted_out_def keep_def by blast
  qed
qed

section \<open>Counting\<close>

lemma checked_None:
  "checked_add a b = None \<longleftrightarrow> 2 ^ LENGTH('a) \<le> unat a + unat b"
  "checked_mul a b = None \<longleftrightarrow> 2 ^ LENGTH('a) \<le> unat a * unat b"
  for a b :: "'a::len word"
  by (auto simp: checked_add_def checked_mul_def uint_fits not_less)

lemma length_target_set_iter:
  "port_set_inv (set_ports t) \<Longrightarrow> length (target_set_iter t) = length (set_iter (set_ips t)) * port_set_len (set_ports t)"
  unfolding target_set_iter_blocks length_blocks by (simp add: iter_correct_lanes)

lemma unat_set_len: "ip_set_inv s \<Longrightarrow> unat (set_len s) = min (length (set_iter s)) (2 ^ 128 - 1)"
proof -
  assume s: "ip_set_inv s"
  note m = eq_merged_correct [OF s]
  have "length (set_iter s) = length (iter_scoped s)"
    by (simp add: set_iter_lists [OF s] iter_scoped_lists flip: map_fst_scoped_list)
  also have "\<dots> = (\<Sum>r\<leftarrow>v4 (eq_merged s). Suc (hi4 r) - lo4 r) + (\<Sum>r\<leftarrow>v6 (eq_merged s). Suc (hi6 r) - lo6 r)"
    by (simp add: iter_scoped_ranges length_concat comp_def lo6_def hi6_def)
  finally show ?thesis using unat_len_gross [OF m(1)] by (simp add: set_len_canonical)
qed

lemma total_targets_correct:
  assumes "target_set_inv t"
  shows "case total_targets t of
      Inl e \<Rightarrow> e = CapacityOverflow \<and> 2 ^ 128 \<le> length (target_set_iter t)
    | Inr n \<Rightarrow> unat n \<le> length (target_set_iter t)
        \<and> (length (set_iter (set_ips t)) < 2 ^ 128 \<longrightarrow> unat n = length (target_set_iter t))"
proof -
  let ?n = "port_set_len (set_ports t)"
  have len: "length (target_set_iter t) = length (set_iter (set_ips t)) * ?n"
    using assms length_target_set_iter by (simp add: target_set_inv_def)
  have set_len: "unat (set_len (set_ips t)) = min (length (set_iter (set_ips t))) (2 ^ 128 - 1)"
    using assms unat_set_len by (simp add: target_set_inv_def)
  have "length (port_set_iter (set_ports t)) < 2 ^ 128"
    using port_count_bound [of "set_ports t"] assms by (simp add: target_set_inv_def)
  then have n: "unat (of_nat ?n :: u128) = ?n"
    using assms by (simp add: target_set_inv_def iter_correct_lanes unat_of_nat_lt)
  have le: "unat (set_len (set_ips t)) * ?n \<le> length (target_set_iter t)" unfolding len set_len by (intro mult_le_mono1) simp
  show ?thesis
  proof (cases "checked_mul (set_len (set_ips t)) (of_nat ?n)")
    case None
    then have "2 ^ 128 \<le> unat (set_len (set_ips t)) * ?n" by (simp add: checked_None n)
    then show ?thesis using le None by (simp add: total_targets_def)
  next
    case (Some k)
    then have "unat (set_len (set_ips t)) * ?n < 2 ^ 128" "k = set_len (set_ips t) * of_nat ?n"
      by (simp_all add: checked_mul_Some n)
    then have "unat k = unat (set_len (set_ips t)) * ?n" using n unat_mult_lt [of "set_len (set_ips t)" "of_nat ?n"] by simp
    then show ?thesis using le Some by (auto simp: total_targets_def len set_len)
  qed
qed

lemma gross_targets_loop_correct:
  "\<forall>t \<in> set ts. target_set_inv t \<Longrightarrow>
   case gross_targets_loop acc ts of
     Inl e \<Rightarrow> e = CapacityOverflow \<and> 2 ^ 128 \<le> unat acc + length (concat (map target_set_iter ts))
   | Inr n \<Rightarrow> unat n \<le> unat acc + length (concat (map target_set_iter ts))
       \<and> ((\<forall>t \<in> set ts. length (set_iter (set_ips t)) < 2 ^ 128)
           \<longrightarrow> unat n = unat acc + length (concat (map target_set_iter ts)))"
proof (induction ts arbitrary: acc)
  case (Cons t ts)
  have t: "target_set_inv t" and ts: "\<forall>t \<in> set ts. target_set_inv t" using Cons.prems by auto
  note tt = total_targets_correct [OF t]
  show ?case
  proof (cases "total_targets t")
    case (Inl e)
    then show ?thesis using tt by simp
  next
    case (Inr n)
    show ?thesis
    proof (cases "checked_add acc n")
      case None
      then have "2 ^ 128 \<le> unat acc + unat n" by (simp add: checked_None)
      then show ?thesis using Inr tt None by simp
    next
      case (Some k)
      then have "unat k = unat acc + unat n" by (auto simp: checked_add_Some unat_add_lt)
      moreover have "gross_targets_loop acc (t # ts) = gross_targets_loop k ts" using Inr Some by simp
      ultimately show ?thesis using Cons.IH [OF ts, of k] tt Inr by (auto split: sum.split)
    qed
  qed
qed simp

section \<open>Properties\<close>

definition sample_map :: target_map where
  "sample_map = \<lparr>units =
     [target_set_new \<lparr>v4 = [\<lparr>start_addr4 = 0xc0000201, end_addr4 = 0xc0000203\<rparr>], v6 = [],
         v4_dirty = False, v6_dirty = False\<rparr> \<lparr>tcp = [(22, 22), (80, 81)], udp = [], sctp = []\<rparr>,
      target_set_new \<lparr>v4 = [], v6 = [\<lparr>start_addr6 = 0xfe800000000000000000000000000001,
           end_addr6 = 0xfe800000000000000000000000000002, zone6 = Some 7\<rparr>],
         v4_dirty = False, v6_dirty = False\<rparr> \<lparr>tcp = [], udp = [(53, 53), (161, 161)], sctp = []\<rparr>]\<rparr>"

lemma sample_map_inv: "target_map_inv sample_map"
  by (simp add: target_map_inv_def sample_map_def target_set_new_def target_set_inv_def canonicalize_idle
      ip_set_inv_def canonical_def ok4_def ok6_def lo6_def hi6_def port_set_inv_def lane_ok_def)

text \<open>
  C28. The target an index finds at a position is the one the map's own enumeration yields there,
  and past the numbering it finds none.
\<close>

theorem target_at_correct:
  assumes "target_map_inv m"
  shows "target_at (index_of m) position =
    (if position < index_total (index_of m) then Some (target_map_iter m ! unat position) else None)"
proof -
  note ix = index_of_correct [OF assms]
  have "unat position < length (all_targets (index_units (index_of m)))" if "position < index_total (index_of m)"
    using that ix(1) by (simp add: index_ok_def word_less_nat_alt)
  with ix show ?thesis by (auto simp: target_at_nth nth_append)
qed

theorem target_at_correct_witness:
  "target_map_iter sample_map ! 10
     = \<lparr>target_ip = V6 0xfe800000000000000000000000000001, target_port = 161, target_protocol = Udp\<rparr>"
proof -
  have "target_at (index_of sample_map) 10
     = Some \<lparr>target_ip = V6 0xfe800000000000000000000000000001, target_port = 161, target_protocol = Udp\<rparr>"
    "10 < index_total (index_of sample_map)" by code_simp+
  then show ?thesis using target_at_correct [OF sample_map_inv, of 10] by simp
qed

text \<open>
  The numbering covers a prefix of the enumeration, all of it when it says it is complete,
  and it names addresses it left out exactly when it is not.
\<close>

theorem index_covers:
  assumes "target_map_inv m"
  shows "unat (index_total (index_of m)) \<le> length (target_map_iter m)
    \<and> (index_complete (index_of m) \<longrightarrow> unat (index_total (index_of m)) = length (target_map_iter m))
    \<and> (index_complete (index_of m) \<longleftrightarrow> index_unnumbered (index_of m) = [])"
proof -
  note ix = index_of_correct [OF assms]
  have "index_complete (index_of m) \<longleftrightarrow> index_unnumbered (index_of m) = []"
    unfolding index_of_def using assms by (intro index_loop_complete) (simp_all add: target_map_inv_def)
  with ix show ?thesis by (auto simp: index_ok_def)
qed

theorem index_covers_witness:
  "length (target_map_iter sample_map) = 13"
proof -
  have "index_complete (index_of sample_map)" "index_total (index_of sample_map) = 13" by code_simp+
  then show ?thesis using index_covers [OF sample_map_inv] by simp
qed

text \<open>
  C29. Hosts partition the numbered positions: every position belongs to a host below the host
  count, and the run of a host holds exactly the positions that belong to it.
\<close>

theorem hosts_partition:
  assumes "target_map_inv m"
  shows "(position < index_total (index_of m) \<longrightarrow> host_of (index_of m) position < index_hosts (index_of m))
    \<and> (host < index_hosts (index_of m) \<longrightarrow>
        (fst (host_run (index_of m) host) \<le> position \<and> position < snd (host_run (index_of m) host)
         \<longleftrightarrow> position < index_total (index_of m) \<and> host_of (index_of m) position = host))"
  using host_partition [OF index_of_correct(1) [OF assms]] by blast

theorem hosts_partition_witness:
  "host_of (index_of sample_map) 10 = 3 \<and> host_run (index_of sample_map) 3 = (9, 11)"
proof -
  have run: "host_run (index_of sample_map) 3 = (9, 11)" and "index_hosts (index_of sample_map) = 5" by code_simp+
  then have "host_of (index_of sample_map) 10 = 3"
    using hosts_partition [OF sample_map_inv, of 10 3] by simp
  with run show ?thesis by simp
qed

text \<open>
  The ranges an index returns for a span of positions hold exactly the addresses of the
  targets at those positions.
\<close>

theorem addresses_in_correct:
  assumes "target_map_inv m"
  shows "{ip. \<exists>r \<in> set (addresses_in (index_of m) first past). range_contains r ip}
    = {target_ip (target_map_iter m ! q) | q.
        unat first \<le> q \<and> q < min (unat past) (unat (index_total (index_of m)))}"
proof -
  note ix = index_of_correct [OF assms]
  let ?ts = "all_targets (index_units (index_of m))"
  from ix(2) obtain rest where rest: "target_map_iter m = ?ts @ rest" by blast
  have "x = target_ip (?ts ! (q - 0)) \<and> 0 \<le> q \<and> unat first \<le> q \<and> q < min (unat past) (unat (index_total (index_of m)))
    \<longleftrightarrow> x = target_ip (target_map_iter m ! q) \<and> unat first \<le> q \<and> q < min (unat past) (unat (index_total (index_of m)))" for x q
    using ix(1) by (auto simp: rest nth_append index_ok_def)
  then show ?thesis using addresses_in_span [OF ix(1), of first past] unfolding range_ips_def by simp
qed

theorem addresses_in_correct_witness:
  "V6 0xfe800000000000000000000000000001 \<in> {target_ip (target_map_iter sample_map ! q) | q. 8 \<le> q \<and> q < 10}
   \<and> addresses_in (index_of sample_map) 8 10
     = [RangeV4 \<lparr>start_addr4 = 0xc0000203, end_addr4 = 0xc0000203\<rparr>,
        RangeV6 \<lparr>start_addr6 = 0xfe800000000000000000000000000001,
          end_addr6 = 0xfe800000000000000000000000000001, zone6 = Some 7\<rparr>]"
proof -
  have at: "addresses_in (index_of sample_map) 8 10
     = [RangeV4 \<lparr>start_addr4 = 0xc0000203, end_addr4 = 0xc0000203\<rparr>,
        RangeV6 \<lparr>start_addr6 = 0xfe800000000000000000000000000001,
          end_addr6 = 0xfe800000000000000000000000000001, zone6 = Some 7\<rparr>]"
    and "index_total (index_of sample_map) = 13" by code_simp+
  then show ?thesis using addresses_in_correct [OF sample_map_inv, of 8 10] by (auto simp: ipv6_contains_def)
qed

text \<open>
  C30. Withholding ports leaves exactly the targets whose port is not excluded, in the same
  order, and keeps the map well formed.
\<close>

theorem withhold_ports_correct:
  assumes "target_map_inv m" and "port_set_inv excluded"
  shows "target_map_inv (withhold_ports m excluded)
    \<and> target_map_iter (withhold_ports m excluded)
      = filter (\<lambda>t. (target_port t, target_protocol t) \<notin> ports excluded) (target_map_iter m)"
proof (cases "port_set_is_empty excluded")
  case True
  then show ?thesis using assms(1) by (simp add: withhold_ports_def empty_ports)
next
  case False
  then show ?thesis using withhold_units [of "units m" excluded] assms
    by (simp add: withhold_ports_def target_map_inv_def target_map_iter_def)
qed

theorem withhold_ports_correct_witness:
  "target_map_iter (withhold_ports sample_map \<lparr>tcp = [(80, 80)], udp = [(1, 1000)], sctp = []\<rparr>)
     = filter (\<lambda>t. (target_port t, target_protocol t) \<notin> ports \<lparr>tcp = [(80, 80)], udp = [(1, 1000)], sctp = []\<rparr>)
         (target_map_iter sample_map)
   \<and> length (units (withhold_ports sample_map \<lparr>tcp = [(80, 80)], udp = [(1, 1000)], sctp = []\<rparr>)) = 1"
proof
  let ?ex = "\<lparr>tcp = [(80, 80)], udp = [(1, 1000)], sctp = []\<rparr> :: port_set"
  have "port_set_inv ?ex" by (simp add: port_set_inv_def lane_ok_def canonical_def)
  then show "target_map_iter (withhold_ports sample_map ?ex)
     = filter (\<lambda>t. (target_port t, target_protocol t) \<notin> ports ?ex) (target_map_iter sample_map)"
    using withhold_ports_correct [OF sample_map_inv] by blast
  show "length (units (withhold_ports sample_map ?ex)) = 1" by code_simp
qed

text \<open>
  C31. Taking out what cannot be probed loses nothing silently: every address is kept or is in
  one of the ranges handed back.  Each zoned address kept resolves to its own interface, and no
  link-local address is kept without one.
\<close>

theorem unprobeable_accounted:
  assumes "target_map_inv m" and "take_unprobeable m interfaces walkable = (m', u)"
  shows "map_addrs m = map_addrs m' \<union> scoped6 (unscoped_ranges u @ contested u @ unwalkable u)
    \<and> ((V6 a, Some z) \<in> map_addrs m' \<longrightarrow> z \<noteq> 0 \<longrightarrow> zone_of (zones u) (V6 a) = Some z)
    \<and> ((V6 a, None) \<in> map_addrs m' \<longrightarrow> \<not> is_unicast_link_local a)"
  using take_unprobeable_correct [OF assms(1), where interfaces = interfaces and walkable = walkable] assms(2) by simp

theorem unprobeable_accounted_witness:
  "zone_of (zones (snd (take_unprobeable sample_map [(7, ''en0'')] (\<lambda>r. True)))) (V6 0xfe800000000000000000000000000002)
     = Some 7"
proof -
  let ?t = "take_unprobeable sample_map [(7, ''en0'')] (\<lambda>r. True)"
  have "contested (snd ?t) = [] \<and> unscoped_ranges (snd ?t) = [] \<and> unwalkable (snd ?t) = []" by code_simp
  then have "map_addrs (fst ?t) = map_addrs sample_map"
    using unprobeable_accounted [OF sample_map_inv, of "[(7, ''en0'')]" "\<lambda>r. True" "fst ?t" "snd ?t"]
    by (simp add: scoped6_def)
  moreover have "(V6 0xfe800000000000000000000000000002, Some 7) \<in> map_addrs sample_map"
    by (simp add: map_addrs_def sample_map_def target_set_new_def canonicalize_idle scoped_addrs_def scoped6_def
        scoped4_def ipv6_contains_def)
  ultimately show ?thesis
    using unprobeable_accounted [OF sample_map_inv, of "[(7, ''en0'')]" "\<lambda>r. True" "fst ?t" "snd ?t"
        "0xfe800000000000000000000000000002" 7] by simp
qed

text \<open>
  The gross count of a map is the length of its enumeration, and the only error it returns
  is an overflow, which it returns only when that length does not fit a \<open>u128\<close>.
\<close>

theorem gross_targets_correct:
  assumes "target_map_inv m"
  shows "case gross_targets m of
      Inl e \<Rightarrow> e = CapacityOverflow \<and> 2 ^ 128 \<le> length (target_map_iter m)
    | Inr n \<Rightarrow> unat n \<le> length (target_map_iter m)
        \<and> ((\<forall>t \<in> set (units m). length (set_iter (set_ips t)) < 2 ^ 128) \<longrightarrow> unat n = length (target_map_iter m))"
  using gross_targets_loop_correct [of "units m" 0] assms
  by (simp add: gross_targets_def target_map_iter_def target_map_inv_def split: sum.splits)

theorem gross_targets_correct_witness:
  "unat (13 :: u128) \<le> length (target_map_iter sample_map)"
proof -
  have "gross_targets sample_map = Inr 13" by code_simp
  then show ?thesis using gross_targets_correct [OF sample_map_inv] by simp
qed

end
