(* ===== verification/Order.thy ===== *)
theory Order
  imports Rust_Std "HOL-Library.Monad_Syntax"
begin

text \<open>
  The order a plan's targets are asked in: the keyed permutation of
  \<open>src/src/model/order.rs\<close>, a four-round Feistel network cut down to the plan's length by
  walking its cycles.
\<close>

unbundle bit_operations_syntax

definition ROUNDS :: nat where
  "ROUNDS = 4"

definition GOLDEN :: u64 where
  "GOLDEN = 0x9E3779B97F4A7C15"

record permutation =
  perm_seed :: u64
  perm_len :: u64
  perm_half :: nat

text \<open>\<open>u64::leading_zeros\<close>.\<close>

definition leading_zeros :: "u64 \<Rightarrow> nat" where
  "leading_zeros x = length (takeWhile (\<lambda>i. \<not> bit x i) (rev [0..<64]))"

definition half_width :: "u64 \<Rightarrow> nat" where
  "half_width len =
     (if len \<le> 1 then 0
      else let width = 64 - leading_zeros (len - 1) in (width + (width AND 1)) div 2)"

definition mix :: "u64 \<Rightarrow> nat \<Rightarrow> u64 \<Rightarrow> u64" where
  "mix seed round value =
     (let m0 = value + seed + of_nat round * GOLDEN;
          m1 = m0 XOR drop_bit 30 m0;
          m2 = m1 * 0xBF58476D1CE4E5B9;
          m3 = m2 XOR drop_bit 27 m2;
          m4 = m3 * 0x94D049BB133111EB
      in m4 XOR drop_bit 31 m4)"

definition permutation_new :: "u64 \<Rightarrow> u64 \<Rightarrow> permutation" where
  "permutation_new seed len = \<lparr>perm_seed = seed, perm_len = len, perm_half = half_width len\<rparr>"

section \<open>The network\<close>

definition forward :: "permutation \<Rightarrow> u64 \<Rightarrow> u64 \<times> u64 \<Rightarrow> nat \<Rightarrow> u64 \<times> u64" where
  "forward p msk lr round =
     (let mixed = fst lr XOR (mix (perm_seed p) round (snd lr) AND msk) in (snd lr, mixed))"

definition backward :: "permutation \<Rightarrow> u64 \<Rightarrow> u64 \<times> u64 \<Rightarrow> nat \<Rightarrow> u64 \<times> u64" where
  "backward p msk lr round =
     (let earlier_right = fst lr
      in (snd lr XOR (mix (perm_seed p) round earlier_right AND msk), earlier_right))"

definition round_trip :: "permutation \<Rightarrow> u64 \<Rightarrow> u64" where
  "round_trip p value =
     (let msk = push_bit (perm_half p) 1 - 1;
          lr = foldl (forward p msk) (drop_bit (perm_half p) value AND msk, value AND msk) [0..<ROUNDS]
      in push_bit (perm_half p) (fst lr) OR snd lr)"

definition round_trip_back :: "permutation \<Rightarrow> u64 \<Rightarrow> u64" where
  "round_trip_back p value =
     (let msk = push_bit (perm_half p) 1 - 1;
          lr = foldl (backward p msk) (drop_bit (perm_half p) value AND msk, value AND msk) (rev [0..<ROUNDS])
      in push_bit (perm_half p) (fst lr) OR snd lr)"

section \<open>Walking\<close>

text \<open>
  The loops of \<open>walk\<close> and \<open>unwalk\<close>; a loop that never lands inside the range is \<open>None\<close>.
\<close>

partial_function (option) walk_loop :: "(u64 \<Rightarrow> u64) \<Rightarrow> u64 \<Rightarrow> u64 \<Rightarrow> u64 option" where
  "walk_loop step len position =
     (let landed = step position in if landed < len then Some landed else walk_loop step len landed)"

declare walk_loop.simps [code]

definition walk :: "permutation \<Rightarrow> u64 \<Rightarrow> u64 option" where
  "walk p index =
     (if perm_half p = 0 then Some index else walk_loop (round_trip p) (perm_len p) index)"

definition unwalk :: "permutation \<Rightarrow> u64 \<Rightarrow> u64 option" where
  "unwalk p position =
     (if perm_half p = 0 then Some position else walk_loop (round_trip_back p) (perm_len p) position)"

definition perm_at :: "permutation \<Rightarrow> u64 \<Rightarrow> u64 option" where
  "perm_at p index = (if index < perm_len p then walk p index else None)"

definition perm_index_of :: "permutation \<Rightarrow> u64 \<Rightarrow> u64 option" where
  "perm_index_of p position = (if position < perm_len p then unwalk p position else None)"

text \<open>The positions from the \<open>start\<close>th on; \<open>None\<close> if one of the walks does not land.\<close>

definition iter_from :: "permutation \<Rightarrow> u64 \<Rightarrow> u64 list option" where
  "iter_from p start =
     those (map (\<lambda>i. walk p (of_nat i)) [unat (min start (perm_len p))..<unat (perm_len p)])"

definition perm_iter :: "permutation \<Rightarrow> u64 list option" where
  "perm_iter p = iter_from p 0"

section \<open>The halves of the domain\<close>

text \<open>Values of the network's domain are those of twice its half width.\<close>

definition in_domain :: "nat \<Rightarrow> u64 \<Rightarrow> bool" where
  "in_domain half v \<longleftrightarrow> take_bit (2 * half) v = v"

lemma mask_half: "push_bit half 1 - 1 = (mask half :: u64)"
  by (simp add: mask_eq_exp_minus_1 push_bit_of_1)

lemma halves_join:
  assumes "half \<le> 32" "take_bit half l = l" "take_bit half r = (r :: u64)"
  shows "drop_bit half (push_bit half l OR r) AND mask half = l" "(push_bit half l OR r) AND mask half = r"
    "in_domain half (push_bit half l OR r)"
proof -
  have l: "bit l n \<Longrightarrow> n < half" and r: "bit r n \<Longrightarrow> n < half" for n
    using assms(2,3) by (metis bit_take_bit_iff)+
  have "bit l n \<Longrightarrow> half + n < 64" for n using l [of n] assms(1) by simp
  then show "drop_bit half (push_bit half l OR r) AND mask half = l"
    by (intro bit_word_eqI) (use l r assms(1) in \<open>auto simp: bit_simps\<close>)
  show "(push_bit half l OR r) AND mask half = r"
    by (rule bit_word_eqI) (use l r assms(1) in \<open>auto simp: bit_simps\<close>)
  show "in_domain half (push_bit half l OR r)"
    unfolding in_domain_def by (rule bit_word_eqI) (use l r assms(1) in \<open>fastforce simp: bit_simps\<close>)
qed

lemma join_split:
  assumes "in_domain half v"
  shows "push_bit half (drop_bit half v AND mask half) OR (v AND mask half) = v"
proof -
  have v: "bit v n \<Longrightarrow> n < 2 * half" for n
    using assms unfolding in_domain_def by (metis bit_take_bit_iff)
  show ?thesis by (rule bit_word_eqI) (use v in \<open>fastforce simp: bit_simps dest: bit_imp_le_length\<close>)
qed

lemma take_bit_halves: "take_bit half (v AND mask half :: u64) = v AND mask half"
  by (simp flip: take_bit_eq_mask)

lemma take_bit_xor_mask: "take_bit half a = a \<Longrightarrow> take_bit half (a XOR (b AND mask half)) = a XOR (b AND mask half :: u64)"
  by (simp flip: take_bit_eq_mask)

abbreviation halves :: "nat \<Rightarrow> u64 \<times> u64 \<Rightarrow> bool" where
  "halves half lr \<equiv> take_bit half (fst lr) = fst lr \<and> take_bit half (snd lr) = snd lr"

lemma forward_halves: "halves half lr \<Longrightarrow> halves half (forward p (mask half) lr i)"
  by (simp only: forward_def Let_def fst_conv snd_conv take_bit_xor_mask)

lemma backward_halves: "halves half lr \<Longrightarrow> halves half (backward p (mask half) lr i)"
  by (simp only: backward_def Let_def fst_conv snd_conv take_bit_xor_mask)

lemma backward_forward: "backward p msk (forward p msk lr i) i = lr"
  by (simp add: forward_def backward_def Let_def xor.assoc)

lemma forward_backward: "forward p msk (backward p msk lr i) i = lr"
  by (simp add: forward_def backward_def Let_def xor.assoc)

lemma foldl_halves:
  "(\<And>lr i. halves half lr \<Longrightarrow> halves half (f lr i)) \<Longrightarrow> halves half lr \<Longrightarrow> halves half (foldl f lr is)"
  by (induction "is" arbitrary: lr) auto

lemma foldl_undo:
  "(\<And>lr i. g (f lr i) i = lr) \<Longrightarrow> foldl g (foldl f lr is) (rev is) = lr"
  by (induction "is" arbitrary: lr) auto


lemma round_trips:
  assumes "perm_half p \<le> 32"
  shows "in_domain (perm_half p) (round_trip p v)" "in_domain (perm_half p) (round_trip_back p v)"
    "in_domain (perm_half p) v \<Longrightarrow> round_trip_back p (round_trip p v) = v"
    "in_domain (perm_half p) v \<Longrightarrow> round_trip p (round_trip_back p v) = v"
proof -
  let ?h = "perm_half p" and ?split = "(drop_bit (perm_half p) v AND mask (perm_half p), v AND mask (perm_half p))"
  have start: "halves ?h ?split" by (simp only: fst_conv snd_conv take_bit_halves)
  define f where "f = foldl (forward p (mask ?h)) ?split [0..<ROUNDS]"
  define b where "b = foldl (backward p (mask ?h)) ?split (rev [0..<ROUNDS])"
  have f: "halves ?h f" unfolding f_def by (intro foldl_halves forward_halves start)
  have b: "halves ?h b" unfolding b_def by (intro foldl_halves backward_halves start)
  have rt: "round_trip p v = push_bit ?h (fst f) OR snd f" "round_trip_back p v = push_bit ?h (fst b) OR snd b"
    by (simp_all only: round_trip_def round_trip_back_def mask_half f_def b_def Let_def)
  note jf = halves_join [OF assms f [THEN conjunct1] f [THEN conjunct2]]
  note jb = halves_join [OF assms b [THEN conjunct1] b [THEN conjunct2]]
  show "in_domain ?h (round_trip p v)" "in_domain ?h (round_trip_back p v)"
    using jf(3) jb(3) by (simp_all add: rt)
  assume v: "in_domain ?h v"
  have "foldl (backward p (mask ?h)) f (rev [0..<ROUNDS]) = ?split"
    unfolding f_def by (rule foldl_undo) (rule backward_forward)
  then have "round_trip_back p (round_trip p v) = push_bit ?h (fst ?split) OR snd ?split"
    unfolding rt(1) by (simp only: round_trip_back_def mask_half Let_def jf prod.collapse)
  then show "round_trip_back p (round_trip p v) = v" using join_split [OF v] by simp
  have "foldl (forward p (mask ?h)) b (rev (rev [0..<ROUNDS])) = ?split"
    unfolding b_def by (rule foldl_undo) (rule forward_backward)
  then have "round_trip p (round_trip_back p v) = push_bit ?h (fst ?split) OR snd ?split"
    unfolding rt(2) by (simp only: round_trip_def mask_half Let_def jb prod.collapse rev_rev_ident)
  then show "round_trip p (round_trip_back p v) = v" using join_split [OF v] by simp
qed

section \<open>The width of the domain\<close>

lemma leading_zeros_bound: "unat x < 2 ^ (64 - leading_zeros x)"
proof -
  define n where "n = leading_zeros x"
  have le: "n \<le> 64" unfolding n_def leading_zeros_def using length_takeWhile_le [of _ "rev [0..<64]"] by simp
  have zero: "\<not> bit x i" if "64 - n \<le> i" "i < 64" for i
  proof -
    have k: "63 - i < n" using that le by linarith
    then have "63 - i < length (takeWhile (\<lambda>i. \<not> bit x i) (rev [0..<64]))" by (simp only: n_def leading_zeros_def)
    from nth_mem [OF this] have "\<not> bit x (takeWhile (\<lambda>i. \<not> bit x i) (rev [0..<64]) ! (63 - i))"
      by (rule set_takeWhileD [THEN conjunct2])
    moreover have "takeWhile (\<lambda>i. \<not> bit x i) (rev [0..<64]) ! (63 - i) = rev [0..<64] ! (63 - i)"
      by (rule takeWhile_nth [OF \<open>63 - i < length _\<close>])
    moreover have "rev [0..<64] ! (63 - i) = i" using that by (simp add: rev_nth)
    ultimately show ?thesis by simp
  qed
  have "take_bit (64 - n) x = x"
    by (rule bit_word_eqI) (use zero not_less in \<open>auto simp: bit_simps\<close>)
  then have "take_bit (64 - n) (unat x) = unat x" by (metis unsigned_take_bit_eq)
  then show ?thesis unfolding n_def [symmetric] by (simp add: take_bit_nat_eq_self_iff)
qed

lemma round_up_even: "w \<le> 2 * ((w + w mod 2) div 2)" for w :: nat
  by presburger

lemma half_width_bounds: "half_width len \<le> 32" "1 < len \<Longrightarrow> unat len \<le> 2 ^ (2 * half_width len)"
proof -
  let ?w = "64 - leading_zeros (len - 1)"
  have hw: "half_width len = (if len \<le> 1 then 0 else (?w + (?w AND 1)) div 2)" by (simp add: half_width_def Let_def)
  have odd: "?w AND 1 = ?w mod 2" by (simp add: and_one_eq)
  have "?w \<le> 64" by simp
  then have "(?w + ?w mod 2) div 2 \<le> 32" by linarith
  then show "half_width len \<le> 32" by (simp only: hw odd) simp
  assume "1 < len"
  then have "half_width len = (?w + ?w mod 2) div 2" by (simp only: hw odd) auto
  then have "?w \<le> 2 * half_width len" using round_up_even [of ?w] by simp
  then have "2 ^ ?w \<le> (2 :: nat) ^ (2 * half_width len)" by (intro power_increasing) simp_all
  moreover have "unat (len - 1) < 2 ^ ?w" by (rule leading_zeros_bound)
  moreover have "unat (len - 1) = unat len - 1" using \<open>1 < len\<close> by (intro unat_pred [of 1])
  ultimately show "unat len \<le> 2 ^ (2 * half_width len)" by linarith
qed

lemma range_in_domain: "x < len \<Longrightarrow> 1 < len \<Longrightarrow> in_domain (half_width len) x"
proof -
  assume "x < len" "1 < len"
  then have "unat x < 2 ^ (2 * half_width len)" using half_width_bounds(2) [of len] by (simp add: word_less_nat_alt)
  then have "take_bit (2 * half_width len) (unat x) = unat x" by (simp add: take_bit_nat_eq_self_iff)
  then show ?thesis unfolding in_domain_def by (metis unsigned_take_bit_eq word_unat_eq_iff)
qed

section \<open>Cycle walking\<close>

text \<open>
  What the loops rely on: a step and its inverse that map a domain into itself, and a range
  inside the domain.
\<close>

locale cycle_walk =
  fixes step revert :: "u64 \<Rightarrow> u64" and inside :: "u64 \<Rightarrow> bool" and len :: u64
  assumes step_dom: "inside x \<Longrightarrow> inside (step x)"
    and back_step: "inside x \<Longrightarrow> revert (step x) = x"
    and range_dom: "x < len \<Longrightarrow> inside x"
begin

lemma iterate_dom: "inside x \<Longrightarrow> inside ((step ^^ n) x)"
  by (induction n) (auto intro: step_dom)

lemma iterate_back: "inside x \<Longrightarrow> (step ^^ m) x = (step ^^ (m + n)) x \<Longrightarrow> x = (step ^^ n) x"
proof (induction m)
  case (Suc m)
  then have "step ((step ^^ m) x) = step ((step ^^ (m + n)) x)" by simp
  then have "(step ^^ m) x = (step ^^ (m + n)) x"
    using back_step iterate_dom Suc.prems(1) by metis
  with Suc show ?case by blast
qed simp

lemma returns: "inside x \<Longrightarrow> \<exists>n > 0. (step ^^ n) x = x"
proof -
  assume x: "inside x"
  have "\<not> inj_on (\<lambda>n. (step ^^ n) x) UNIV"
    using finite_imageD [of "\<lambda>n. (step ^^ n) x" UNIV] by auto
  then obtain i j where "i \<noteq> j" "(step ^^ i) x = (step ^^ j) x" by (auto simp: inj_on_def)
  then obtain m n where "0 < n" "(step ^^ m) x = (step ^^ (m + n)) x"
    by (metis le_iff_add linorder_le_cases add_0_right not_gr_zero)
  then show ?thesis using iterate_back [OF x] by metis
qed

text \<open>The first landing inside the range.\<close>

lemma first_landing:
  assumes "x < len"
  obtains n where "0 < n" "(step ^^ n) x < len" "\<And>i. 0 < i \<Longrightarrow> i < n \<Longrightarrow> \<not> (step ^^ i) x < len"
proof -
  from returns [OF range_dom [OF assms]] obtain k where "0 < k" "(step ^^ k) x = x" by blast
  then have "0 < k \<and> (step ^^ k) x < len" using assms by simp
  then have "0 < (LEAST n. 0 < n \<and> (step ^^ n) x < len) \<and> (step ^^ (LEAST n. 0 < n \<and> (step ^^ n) x < len)) x < len"
    by (rule LeastI)
  then show thesis using that [of "LEAST n. 0 < n \<and> (step ^^ n) x < len"] not_less_Least by blast
qed

lemma walk_loop_iterate:
  "0 < n \<Longrightarrow> (f ^^ n) x < len \<Longrightarrow> (\<And>i. 0 < i \<Longrightarrow> i < n \<Longrightarrow> \<not> (f ^^ i) x < len) \<Longrightarrow>
   walk_loop f len x = Some ((f ^^ n) x)"
proof (induction n arbitrary: x)
  case (Suc n)
  show ?case
  proof (cases "n = 0")
    case True
    then show ?thesis using Suc.prems by (simp add: walk_loop.simps [of f len x])
  next
    case False
    have "\<not> f x < len" using Suc.prems(3) [of 1] False by simp
    moreover have "walk_loop f len (f x) = Some ((f ^^ n) (f x))"
    proof (rule Suc.IH)
      show "\<not> (f ^^ i) (f x) < len" if "0 < i" "i < n" for i
        using Suc.prems(3) [of "Suc i"] that by (simp add: funpow_swap1)
    qed (use False Suc.prems in \<open>simp_all add: funpow_swap1\<close>)
    ultimately show ?thesis by (simp add: walk_loop.simps [of f len x] Let_def funpow_swap1)
  qed
qed simp

lemma back_iterate: "inside x \<Longrightarrow> i \<le> n \<Longrightarrow> (revert ^^ i) ((step ^^ n) x) = (step ^^ (n - i)) x"
proof (induction i)
  case (Suc i)
  then have "(revert ^^ Suc i) ((step ^^ n) x) = revert ((step ^^ (n - i)) x)" by simp
  also have "n - i = Suc (n - Suc i)" using Suc.prems by simp
  finally show ?case using back_step [OF iterate_dom [OF Suc.prems(1)]] by simp
qed simp

lemma walk_and_back:
  assumes "x < len"
  shows "\<exists>y. walk_loop step len x = Some y \<and> y < len \<and> walk_loop revert len y = Some x"
proof -
  from first_landing [OF assms] obtain n where
    n: "0 < n" "(step ^^ n) x < len" "\<And>i. 0 < i \<Longrightarrow> i < n \<Longrightarrow> \<not> (step ^^ i) x < len" by metis
  have "walk_loop step len x = Some ((step ^^ n) x)" using n by (rule walk_loop_iterate)
  moreover have "walk_loop revert len ((step ^^ n) x) = Some ((revert ^^ n) ((step ^^ n) x))"
  proof (rule walk_loop_iterate [OF n(1)])
    show "(revert ^^ n) ((step ^^ n) x) < len" using assms back_iterate [OF range_dom [OF assms], of n n] by simp
    fix i assume "0 < i" "i < n"
    then show "\<not> (revert ^^ i) ((step ^^ n) x) < len"
      using back_iterate [OF range_dom [OF assms], of i n] n(3) [of "n - i"] by simp
  qed
  then have "walk_loop revert len ((step ^^ n) x) = Some x"
    using back_iterate [OF range_dom [OF assms], of n n] by simp
  ultimately show ?thesis using n(2) by blast
qed

end

interpretation network: cycle_walk "round_trip (permutation_new seed len)" "round_trip_back (permutation_new seed len)"
  "in_domain (half_width len)" "if 1 < len then len else 0" for seed len
proof
  have half: "perm_half (permutation_new seed len) = half_width len" by (simp add: permutation_new_def)
  note rt = round_trips [of "permutation_new seed len", unfolded half, OF half_width_bounds(1)]
  show "in_domain (half_width len) (round_trip (permutation_new seed len) x)" for x by (rule rt(1))
  show "round_trip_back (permutation_new seed len) (round_trip (permutation_new seed len) x) = x"
    if "in_domain (half_width len) x" for x using that by (rule rt(3))
  show "in_domain (half_width len) x" if "x < (if 1 < len then len else 0)" for x
    using that range_in_domain by (auto split: if_splits)
qed

interpretation network_back: cycle_walk "round_trip_back (permutation_new seed len)" "round_trip (permutation_new seed len)"
  "in_domain (half_width len)" "if 1 < len then len else 0" for seed len
proof
  have half: "perm_half (permutation_new seed len) = half_width len" by (simp add: permutation_new_def)
  note rt = round_trips [of "permutation_new seed len", unfolded half, OF half_width_bounds(1)]
  show "in_domain (half_width len) (round_trip_back (permutation_new seed len) x)" for x by (rule rt(2))
  show "round_trip (permutation_new seed len) (round_trip_back (permutation_new seed len) x) = x"
    if "in_domain (half_width len) x" for x using that by (rule rt(4))
qed (rule network.range_dom)

section \<open>The permutation\<close>

lemma half_width_pos: "1 < len \<Longrightarrow> half_width len \<noteq> 0"
proof
  assume "1 < len" "half_width len = 0"
  then have "unat len \<le> 1" using half_width_bounds(2) [of len] by simp
  with \<open>1 < len\<close> show False by (simp add: word_less_nat_alt)
qed

lemma perm_fields [simp]:
  "perm_len (permutation_new seed len) = len" "perm_half (permutation_new seed len) = half_width len"
  "perm_seed (permutation_new seed len) = seed"
  by (simp_all add: permutation_new_def)

lemma walk_unwalk:
  assumes "x < len"
  shows "\<exists>y. walk (permutation_new seed len) x = Some y \<and> y < len \<and> unwalk (permutation_new seed len) y = Some x"
    and "\<exists>y. unwalk (permutation_new seed len) x = Some y \<and> y < len \<and> walk (permutation_new seed len) y = Some x"
proof -
  show "\<exists>y. walk (permutation_new seed len) x = Some y \<and> y < len \<and> unwalk (permutation_new seed len) y = Some x"
  proof (cases "1 < len")
    case True
    then show ?thesis using network.walk_and_back [of x len seed] assms half_width_pos [OF True]
      by (simp add: walk_def unwalk_def)
  next
    case False
    then have "half_width len = 0" by (simp add: half_width_def not_less)
    then show ?thesis using assms by (simp add: walk_def unwalk_def)
  qed
  show "\<exists>y. unwalk (permutation_new seed len) x = Some y \<and> y < len \<and> walk (permutation_new seed len) y = Some x"
  proof (cases "1 < len")
    case True
    then show ?thesis using network_back.walk_and_back [of x len seed] assms half_width_pos [OF True]
      by (simp add: walk_def unwalk_def)
  next
    case False
    then have "half_width len = 0" by (simp add: half_width_def not_less)
    then show ?thesis using assms by (simp add: walk_def unwalk_def)
  qed
qed

lemma at_iff_index_of:
  "perm_at (permutation_new seed len) i = Some y \<longleftrightarrow> perm_index_of (permutation_new seed len) y = Some i"
proof
  assume at: "perm_at (permutation_new seed len) i = Some y"
  then have "i < len" by (auto simp: perm_at_def split: if_splits)
  with at show "perm_index_of (permutation_new seed len) y = Some i"
    using walk_unwalk(1) [of i len seed] by (auto simp: perm_at_def perm_index_of_def)
next
  assume at: "perm_index_of (permutation_new seed len) y = Some i"
  then have "y < len" by (auto simp: perm_index_of_def split: if_splits)
  with at show "perm_at (permutation_new seed len) i = Some y"
    using walk_unwalk(2) [of y len seed] by (auto simp: perm_at_def perm_index_of_def)
qed

lemma at_total: "i < len \<Longrightarrow> \<exists>y < len. perm_at (permutation_new seed len) i = Some y"
  using walk_unwalk(1) [of i len seed] by (auto simp: perm_at_def)

lemma index_total: "y < len \<Longrightarrow> \<exists>i < len. perm_index_of (permutation_new seed len) y = Some i"
  using walk_unwalk(2) [of y len seed] by (auto simp: perm_index_of_def)

lemma at_range: "perm_at p i = Some y \<Longrightarrow> i < perm_len p" "perm_index_of p y = Some i \<Longrightarrow> y < perm_len p"
  by (auto simp: perm_at_def perm_index_of_def split: if_splits)

lemma those_map: "(\<And>x. x \<in> set xs \<Longrightarrow> f x = Some (g x)) \<Longrightarrow> those (map f xs) = Some (map g xs)"
  by (induction xs) auto

lemma iter_from_at:
  "iter_from (permutation_new seed len) start =
     Some (map (\<lambda>i. the (perm_at (permutation_new seed len) (of_nat i))) [unat (min start len)..<unat len])"
proof -
  let ?p = "permutation_new seed len"
  have "walk ?p (of_nat i) = Some (the (perm_at ?p (of_nat i)))" if "i \<in> set [unat (min start len)..<unat len]" for i
  proof -
    have "i < unat len" using that by simp
    then have "unat (of_nat i :: u64) = i" using unat_bounds(3) [of len] by (intro unat_of_nat_lt) simp
    with \<open>i < unat len\<close> have "of_nat i < len" by (simp add: word_less_nat_alt)
    from walk_unwalk(1) [OF this, of seed] this show ?thesis by (auto simp: perm_at_def)
  qed
  then show ?thesis unfolding iter_from_def perm_fields by (rule those_map)
qed

section \<open>Properties\<close>

text \<open>
  C18. The order answers for exactly the indices below its length, with positions below its
  length, and asking when a position comes up is the inverse of asking which position comes up:
  the walks always land, whatever the key.
\<close>

theorem permutation_inverse:
  "(perm_at (permutation_new seed len) i = Some y \<longleftrightarrow> perm_index_of (permutation_new seed len) y = Some i)
   \<and> ((\<exists>y < len. perm_at (permutation_new seed len) i = Some y) \<longleftrightarrow> i < len)
   \<and> ((\<exists>i < len. perm_index_of (permutation_new seed len) y = Some i) \<longleftrightarrow> y < len)"
proof (intro conjI)
  let ?p = "permutation_new seed len"
  show "perm_at ?p i = Some y \<longleftrightarrow> perm_index_of ?p y = Some i" by (rule at_iff_index_of)
  show "(\<exists>y < len. perm_at ?p i = Some y) \<longleftrightarrow> i < len" using at_total at_range(1) [of ?p i] by auto
  show "(\<exists>i < len. perm_index_of ?p y = Some i) \<longleftrightarrow> y < len" using index_total at_range(2) [of ?p y] by auto
qed

text \<open>
  C2. Walking the order ends, and asks every position below its length exactly once.
\<close>

theorem permutation_covers:
  "\<exists>xs. perm_iter (permutation_new seed len) = Some xs
     \<and> length xs = unat len \<and> distinct xs \<and> set xs = {x. x < len}"
proof -
  let ?p = "permutation_new seed len"
  define xs where "xs = map (\<lambda>i. the (perm_at ?p (of_nat i))) [0..<unat len]"
  have nat: "unat (of_nat i :: u64) = i" "(of_nat i :: u64) < len" if "i < unat len" for i
  proof -
    show "unat (of_nat i :: u64) = i" using that unat_bounds(3) [of len] by (intro unat_of_nat_lt) simp
    with that show "(of_nat i :: u64) < len" by (simp add: word_less_nat_alt)
  qed
  have at: "perm_at ?p (of_nat i) = Some (xs ! i)" if "i < unat len" for i
    using at_total [OF nat(2) [OF that], of seed] that by (auto simp: xs_def)
  have "inj_on (\<lambda>i. xs ! i) {..<unat len}"
  proof (rule inj_onI)
    fix i j assume ij: "i \<in> {..<unat len}" "j \<in> {..<unat len}" "xs ! i = xs ! j"
    then have "perm_index_of ?p (xs ! i) = Some (of_nat i)" "perm_index_of ?p (xs ! i) = Some (of_nat j)"
      using at by (simp_all flip: at_iff_index_of)
    then have "(of_nat i :: u64) = of_nat j" by simp
    then have "unat (of_nat i :: u64) = unat (of_nat j :: u64)" by simp
    with nat(1) ij show "i = j" by simp
  qed
  then have "distinct xs" by (auto simp: distinct_conv_nth xs_def inj_on_def simp del: nth_map)
  moreover have "set xs = {x. x < len}"
  proof
    show "set xs \<subseteq> {x. x < len}"
    proof
      fix x assume "x \<in> set xs"
      then obtain i where "i < length xs" "x = xs ! i" by (auto simp: in_set_conv_nth)
      then have i: "i < unat len" "x = xs ! i" by (simp_all add: xs_def)
      from at_total [OF nat(2) [OF i(1)], of seed] at [OF i(1)] show "x \<in> {x. x < len}" by (auto simp: i(2))
    qed
    show "{x. x < len} \<subseteq> set xs"
    proof clarify
      fix x assume "x < len"
      from index_total [OF this, of seed] obtain i where i: "i < len" "perm_index_of ?p x = Some i" by blast
      then have "perm_at ?p (of_nat (unat i)) = Some x" by (simp add: at_iff_index_of)
      with at [of "unat i"] i(1) have "xs ! unat i = x" "unat i < length xs" by (simp_all add: word_less_nat_alt xs_def)
      then show "x \<in> set xs" by (metis nth_mem)
    qed
  qed
  moreover have "perm_iter ?p = Some xs" by (simp add: perm_iter_def iter_from_at xs_def)
  ultimately show ?thesis by (simp add: xs_def)
qed

end
