(* ===== verification/Cursor.thy ===== *)
theory Cursor
  imports Order Target
begin

text \<open>
  How far a scan got: the cursor a scan keeps, the checkpoint it writes down, and what a resumed
  scan still has to ask, as in \<open>src/src/journal/cursor.rs\<close>.  A \<open>BTreeSet<u64>\<close> is a set of
  words; iterating over it lists the set in ascending order.
\<close>

unbundle bit_operations_syntax

section \<open>Walks\<close>

record walked =
  walked_seed :: u64
  walked_len :: u64
  walked_reached :: u64
  walked_ahead :: u64

definition walked_start :: "permutation \<Rightarrow> walked" where
  "walked_start order =
     \<lparr>walked_seed = perm_seed order, walked_len = perm_len order, walked_reached = 0, walked_ahead = 0\<rparr>"

definition walked_order :: "walked \<Rightarrow> permutation" where
  "walked_order k = permutation_new (walked_seed k) (walked_len k)"

definition covers :: "walked \<Rightarrow> u64 \<Rightarrow> bool" where
  "covers k position =
     (case perm_index_of (walked_order k) position of None \<Rightarrow> False | Some index \<Rightarrow> index < walked_reached k)"

definition clamped :: "walked \<Rightarrow> u64 \<Rightarrow> walked" where
  "clamped k watermark =
     (let reached = min (walked_reached k) (walked_len k)
      in k\<lparr>walked_reached := reached,
           walked_ahead := min (min (walked_ahead k) reached) (saturating_sub (walked_len k) watermark)\<rparr>)"

definition covered_by :: "walked option \<Rightarrow> u64 \<Rightarrow> bool" where
  "covered_by wk position = (case wk of None \<Rightarrow> False | Some k \<Rightarrow> covers k position)"

section \<open>Catching up\<close>

record cursor =
  watermark :: u64
  above :: "u64 set"
  cursor_walk :: "walked option"

definition cursor_new :: cursor where
  "cursor_new = \<lparr>watermark = 0, above = {}, cursor_walk = None\<rparr>"

lemma covers_range: "covers k position \<Longrightarrow> position < walked_len k"
  by (auto simp: covers_def walked_order_def split: option.splits dest: at_range(2))

text \<open>The inner loop of \<open>catch_up\<close> that moves the plan watermark.\<close>

function plan_loop :: "u64 \<Rightarrow> u64 set \<Rightarrow> walked option \<Rightarrow> u64 \<times> u64 set \<times> walked option" where
  "plan_loop w ab wk =
     (if w \<in> ab then plan_loop (saturating_add w 1) (ab - {w}) wk
      else case wk of
             None \<Rightarrow> (w, ab, wk)
           | Some k \<Rightarrow>
               (if covers k w
                then plan_loop (saturating_add w 1) ab
                       (Some (k\<lparr>walked_ahead := saturating_sub (walked_ahead k) 1\<rparr>))
                else (w, ab, wk)))"
  by pat_completeness auto
termination
proof (relation "measure (\<lambda>(w, ab, wk). card ab + (2 ^ 64 - unat w))", goal_cases)
  case (2 w ab wk)
  then have "card (ab - {w}) < card ab" by (intro card_Diff1_less) simp_all
  moreover have "unat w \<le> unat (saturating_add w 1)" using unat_bounds(3) [of w] by (simp add: unat_saturating_add)
  ultimately show ?case by simp
next
  case (3 w ab wk k)
  then have "w < walked_len k" using covers_range by blast
  then have "unat (saturating_add w 1) = Suc (unat w)" using unat_bounds(3) [of "walked_len k"]
    by (simp add: unat_saturating_add word_less_nat_alt)
  then show ?case using unat_bounds(3) [of w] by simp
qed simp

declare plan_loop.simps [simp del]

lemma reached_step:
  assumes "perm_at (walked_order k) (walked_reached k) = Some position"
  shows "unat (walked_reached k + 1) = Suc (unat (walked_reached k))" "unat (walked_reached k) < unat (walked_len k)"
proof -
  have "walked_reached k < walked_len k" using at_range(1) [OF assms] by (simp add: walked_order_def)
  then show "unat (walked_reached k + 1) = Suc (unat (walked_reached k))" "unat (walked_reached k) < unat (walked_len k)"
    by (auto simp: unat_succ word_less_nat_alt)
qed

text \<open>The inner loop that moves the walk; the flag says whether it did.\<close>

function walk_steps :: "u64 \<Rightarrow> u64 set \<Rightarrow> walked \<Rightarrow> bool \<Rightarrow> u64 set \<times> walked \<times> bool" where
  "walk_steps w ab k moved =
     (case perm_at (walked_order k) (walked_reached k) of
        None \<Rightarrow> (ab, k, moved)
      | Some position \<Rightarrow>
          (if position < w then walk_steps w ab (k\<lparr>walked_reached := walked_reached k + 1\<rparr>) True
           else if position \<in> ab
           then walk_steps w (ab - {position})
                  (k\<lparr>walked_ahead := saturating_add (walked_ahead k) 1,
                     walked_reached := walked_reached k + 1\<rparr>) True
           else (ab, k, moved)))"
  by pat_completeness auto

termination
proof (relation "measure (\<lambda>(w, ab, k, moved). unat (walked_len k) - unat (walked_reached k))", goal_cases)
  case (2 w ab k moved position)
  then show ?case using reached_step [OF 2(1)] by simp
next
  case (3 w ab k moved position)
  then show ?case using reached_step [OF 3(1)] by simp
qed simp

declare walk_steps.simps [simp del]

lemma plan_loop_walk:
  "plan_loop w ab wk = (w', ab', wk') \<Longrightarrow>
   (wk' = None \<longleftrightarrow> wk = None)
   \<and> (\<forall>k k'. wk = Some k \<longrightarrow> wk' = Some k' \<longrightarrow> (\<exists>a. k' = k\<lparr>walked_ahead := a\<rparr>))"
proof (induction w ab wk rule: plan_loop.induct)
  case (1 w ab wk)
  show ?case
  proof (cases "w \<in> ab")
    case True
    then show ?thesis using 1 by (simp add: plan_loop.simps [of w])
  next
    case False
    show ?thesis
    proof (cases wk)
      case None
      then show ?thesis using 1(3) False by (simp add: plan_loop.simps [of w])
    next
      case (Some k)
      show ?thesis
      proof (cases "covers k w")
        case True
        then show ?thesis using 1(2) [OF False Some True] 1(3) False Some
          by (fastforce simp: plan_loop.simps [of w])
      next
        case no: False
        then have "wk' = Some k" using 1(3) False Some by (simp add: plan_loop.simps [of w])
        moreover have "k = k\<lparr>walked_ahead := walked_ahead k\<rparr>" by simp
        ultimately show ?thesis using Some by blast
      qed
    qed
  qed
qed

lemma walk_steps_moves:
  "walk_steps w ab k moved = (ab', k', moved') \<Longrightarrow>
   walked_len k' = walked_len k \<and> walked_seed k' = walked_seed k
   \<and> unat (walked_reached k) \<le> unat (walked_reached k')
   \<and> (moved' \<longrightarrow> moved \<or> unat (walked_reached k) < unat (walked_reached k') \<and> unat (walked_reached k) < unat (walked_len k))"
proof (induction w ab k moved rule: walk_steps.induct)
  case (1 w ab k moved)
  show ?case
  proof (cases "perm_at (walked_order k) (walked_reached k)")
    case None
    then show ?thesis using 1(3) by (simp add: walk_steps.simps [of w ab k])
  next
    case (Some position)
    note step = reached_step [OF Some]
    consider "position < w" | "\<not> position < w" "position \<in> ab" | "\<not> position < w" "position \<notin> ab" by blast
    then show ?thesis
    proof cases
      case 1
      then show ?thesis using "1.IH"(1) [OF Some 1] "1.prems" Some step
        by (simp add: walk_steps.simps [of w ab k moved])
    next
      case 2
      then show ?thesis using "1.IH"(2) [OF Some 2] "1.prems" Some step
        by (simp add: walk_steps.simps [of w ab k moved])
    next
      case 3
      then show ?thesis using "1.prems" Some by (simp add: walk_steps.simps [of w ab k moved])
    qed
  qed
qed

text \<open>The outer loop: both take turns until the walk stops moving.\<close>

function catch_up_loop :: "u64 \<Rightarrow> u64 set \<Rightarrow> walked option \<Rightarrow> u64 \<times> u64 set \<times> walked option" where
  "catch_up_loop w ab wk =
     (case plan_loop w ab wk of
        (w1, ab1, walk1) \<Rightarrow>
          (case walk1 of
             None \<Rightarrow> (w1, ab1, None)
           | Some k1 \<Rightarrow>
               (case walk_steps w1 ab1 k1 False of
                  (ab2, k2, moved) \<Rightarrow>
                    (if moved then catch_up_loop w1 ab2 (Some k2) else (w1, ab2, Some k2)))))"
  by pat_completeness auto
termination
proof (relation "measure (\<lambda>(w, ab, wk). case wk of None \<Rightarrow> 0 | Some k \<Rightarrow> unat (walked_len k) - unat (walked_reached k))",
    goal_cases)
  case (2 w ab wk w1 y ab1 ya k1 ab2 yb k2 moved)
  then have p: "plan_loop w ab wk = (w1, ab1, Some k1)" and m: "walk_steps w1 ab1 k1 False = (ab2, k2, True)"
    by (auto dest: sym)
  from plan_loop_walk [OF p] obtain k a where "wk = Some k" "k1 = k\<lparr>walked_ahead := a\<rparr>" by (cases wk) auto
  then show ?case using walk_steps_moves [OF m] by (simp add: diff_less_mono2)
qed simp

declare catch_up_loop.simps [simp del]

definition catch_up :: "cursor \<Rightarrow> cursor" where
  "catch_up c =
     (case catch_up_loop (watermark c) (above c) (cursor_walk c) of
        (w, ab, wk) \<Rightarrow> \<lparr>watermark = w, above = ab, cursor_walk = wk\<rparr>)"

section \<open>The cursor\<close>

definition along :: "cursor \<Rightarrow> permutation \<Rightarrow> cursor" where
  "along c order =
     (if cursor_walk c = None then catch_up (c\<lparr>cursor_walk := Some (walked_start order)\<rparr>) else c)"

definition walking :: "permutation \<Rightarrow> cursor" where
  "walking order = along cursor_new order"

definition cursor_is_settled :: "cursor \<Rightarrow> u64 \<Rightarrow> bool" where
  "cursor_is_settled c position \<longleftrightarrow>
     position < watermark c \<or> position \<in> above c \<or> covered_by (cursor_walk c) position"

definition settle :: "cursor \<Rightarrow> u64 \<Rightarrow> cursor" where
  "settle c position =
     (if cursor_is_settled c position then c else catch_up (c\<lparr>above := insert position (above c)\<rparr>))"

definition settled_above :: "cursor \<Rightarrow> u64 list" where
  "settled_above c = sorted_list_of_set (above c)"

definition pending_count :: "cursor \<Rightarrow> nat" where
  "pending_count c = card (above c)"

definition cursor_settled_count :: "cursor \<Rightarrow> u64" where
  "cursor_settled_count c =
     saturating_add
       (saturating_add (watermark c) (case cursor_walk c of None \<Rightarrow> 0 | Some k \<Rightarrow> walked_ahead k))
       (of_nat (card (above c)))"

section \<open>Checkpoints\<close>

record checkpoint =
  ck_watermark :: u64
  ck_settled_above :: "u64 list"
  ck_walked :: "walked option"

definition cursor_checkpoint :: "cursor \<Rightarrow> checkpoint" where
  "cursor_checkpoint c =
     \<lparr>ck_watermark = watermark c, ck_settled_above = settled_above c, ck_walked = cursor_walk c\<rparr>"

definition checkpoint_new :: "u64 \<Rightarrow> u64 list \<Rightarrow> checkpoint" where
  "checkpoint_new w positions =
     \<lparr>ck_watermark = w, ck_settled_above = remdups_adj (sort (filter (\<lambda>p. p \<ge> w) positions)),
      ck_walked = None\<rparr>"

definition from_checkpoint :: "checkpoint \<Rightarrow> cursor" where
  "from_checkpoint ck =
     (let wk = map_option (\<lambda>k. clamped k (ck_watermark ck)) (ck_walked ck)
      in catch_up \<lparr>watermark = ck_watermark ck,
           above = set (filter (\<lambda>p. \<not> covered_by wk p)
                          (filter (\<lambda>p. p \<ge> ck_watermark ck) (ck_settled_above ck))),
           cursor_walk = wk\<rparr>)"

definition listed :: "checkpoint \<Rightarrow> u64 \<Rightarrow> bool" where
  "listed ck position \<longleftrightarrow>
     (case binary_search_by (\<lambda>x. cmp x position) (ck_settled_above ck) of Inr _ \<Rightarrow> True | Inl _ \<Rightarrow> False)"

definition checkpoint_is_settled :: "checkpoint \<Rightarrow> u64 \<Rightarrow> bool" where
  "checkpoint_is_settled ck position \<longleftrightarrow>
     position < ck_watermark ck \<or> listed ck position \<or> covered_by (ck_walked ck) position"

definition checkpoint_settled_count :: "checkpoint \<Rightarrow> u64" where
  "checkpoint_settled_count ck =
     (let wk = map_option (\<lambda>k. clamped k (ck_watermark ck)) (ck_walked ck);
          ab = length (filter (\<lambda>p. \<not> covered_by wk p)
                         (filter (\<lambda>p. p \<ge> ck_watermark ck) (ck_settled_above ck)))
      in saturating_add
           (saturating_add (ck_watermark ck) (case wk of None \<Rightarrow> 0 | Some k \<Rightarrow> walked_ahead k))
           (of_nat ab))"

definition remaining :: "checkpoint \<Rightarrow> target list \<Rightarrow> planned_target list" where
  "remaining ck targets =
     filter (\<lambda>x. \<not> checkpoint_is_settled ck (planned_position x))
       (map (\<lambda>(i, t). \<lparr>planned_position = of_nat i, planned_target = t\<rparr>) (enumerate 0 targets))"

section \<open>Hosts with work left\<close>

text \<open>The interface \<open>HostRuns\<close>, and its two instances.\<close>

record host_runs =
  hr_total :: u64
  hr_hosts :: u64
  hr_run :: "u64 \<Rightarrow> u64 \<times> u64"
  hr_host_of :: "u64 \<Rightarrow> u64"

definition index_runs :: "target_index \<Rightarrow> host_runs" where
  "index_runs ix =
     \<lparr>hr_total = index_total ix, hr_hosts = index_hosts ix, hr_run = host_run ix, hr_host_of = host_of ix\<rparr>"

definition alone :: "u64 \<Rightarrow> host_runs" where
  "alone n = \<lparr>hr_total = n, hr_hosts = n, hr_run = (\<lambda>host. (host, host + 1)), hr_host_of = (\<lambda>position. position)\<rparr>"

type_synonym stretch = "u64 \<times> u64"

definition extend :: "stretch list \<Rightarrow> stretch \<Rightarrow> stretch list" where
  "extend stretches run =
     (if stretches \<noteq> [] \<and> snd (last stretches) = fst run then butlast stretches @ [(fst (last stretches), snd run)]
      else stretches @ [run])"

text \<open>The positions of a half-open range, in order.\<close>

definition positions_between :: "u64 \<Rightarrow> u64 \<Rightarrow> u64 list" where
  "positions_between a b = map of_nat [unat a..<unat b]"

definition host_by_host :: "host_runs \<Rightarrow> u64 \<Rightarrow> u64 \<Rightarrow> (u64 \<Rightarrow> bool) \<Rightarrow> stretch list" where
  "host_by_host hr first past unsettled =
     foldl (\<lambda>stretches host.
              let run = hr_run hr host
              in if list_ex unsettled (positions_between (fst run) (snd run)) then extend stretches run else stretches)
       [] (positions_between first past)"

text \<open>\<open>u64::trailing_zeros\<close>, and the loop over the set bits of a word.\<close>

definition trailing_zeros :: "u64 \<Rightarrow> nat" where
  "trailing_zeros x = length (takeWhile (\<lambda>i. \<not> bit x i) [0..<64])"

function word_loop :: "host_runs \<Rightarrow> u64 \<Rightarrow> stretch list \<Rightarrow> u64 \<Rightarrow> stretch list" where
  "word_loop hr base stretches word =
     (if word = 0 then stretches
      else word_loop hr base
             (extend stretches (hr_run hr (base + of_nat (trailing_zeros word)))) (word AND (word - 1)))"
  by pat_completeness auto
termination
proof (relation "measure (\<lambda>(hr, base, stretches, word). unat word)", goal_cases)
  case (2 hr base stretches word)
  have "word AND (word - 1) \<le> word - 1" by (rule word_and_le1)
  then have "unat (word AND (word - 1)) \<le> unat (word - 1)" by (simp add: word_le_nat_alt)
  moreover have "unat (word - 1) < unat word" using 2 by (simp add: unat_minus_one unat_gt_0)
  ultimately show ?case by simp
qed simp

declare word_loop.simps [simp del]

definition mark :: "host_runs \<Rightarrow> u64 \<Rightarrow> u64 list \<Rightarrow> u64 \<Rightarrow> u64 list" where
  "mark hr first bits position =
     (let host = hr_host_of hr position - first; at = unat (host div 64)
      in bits[at := bits ! at OR push_bit (unat (host mod 64)) 1])"

text \<open>\<open>marked\<close>.  An update past the bitmap's end would panic; no marked host lies there.\<close>

definition marked :: "host_runs \<Rightarrow> u64 \<Rightarrow> u64 \<Rightarrow> u64 list \<Rightarrow> stretch list" where
  "marked hr first hosts positions =
     (let words = unat (hosts div 64 + (if hosts mod 64 = 0 then 0 else 1));
          bits = foldl (mark hr first) (replicate words 0) positions
      in foldl (\<lambda>stretches (at, word). word_loop hr (first + of_nat at * 64) stretches word) [] (enumerate 0 bits))"

definition MARKED_AT_MOST :: u64 where
  "MARKED_AT_MOST = push_bit 30 1"

definition reads_the_tail :: "u64 \<Rightarrow> u64 \<Rightarrow> u64 \<Rightarrow> bool" where
  "reads_the_tail tail hosts past \<longleftrightarrow>
     (ucast tail :: u128) * ucast tail < ucast hosts * ucast past \<and> hosts \<le> MARKED_AT_MOST"

section \<open>Stretches left unsettled\<close>

fun gaps_loop :: "u64 \<Rightarrow> u64 \<Rightarrow> u64 list \<Rightarrow> stretch list" where
  "gaps_loop total_len from_pos [] = [(from_pos, total_len)]"
| "gaps_loop total_len from_pos (settled # rest) =
     (if settled < from_pos then gaps_loop total_len from_pos rest
      else (from_pos, min settled total_len) # gaps_loop total_len (saturating_add settled 1) rest)"

definition gaps_from :: "checkpoint \<Rightarrow> u64 \<Rightarrow> u64 \<Rightarrow> stretch list" where
  "gaps_from ck from_pos total_len =
     filter (\<lambda>s. fst s < snd s) (gaps_loop total_len from_pos (sort (ck_settled_above ck)))"

definition spans_between :: "checkpoint \<Rightarrow> u64 \<Rightarrow> stretch list" where
  "spans_between ck total_len = gaps_from ck (ck_watermark ck) total_len"

text \<open>\<open>None\<close> if a walk of the tail does not land.\<close>

definition left_along :: "checkpoint \<Rightarrow> walked \<Rightarrow> host_runs \<Rightarrow> stretch list option" where
  "left_along ck k hr =
     (if ck_watermark ck \<ge> hr_total hr then Some []
      else let first = hr_host_of hr (ck_watermark ck);
               hosts = hr_hosts hr - first;
               past = hr_total hr - ck_watermark ck;
               tail = walked_len k - walked_reached k
           in if reads_the_tail tail hosts past
              then map_option
                     (\<lambda>wk. marked hr first hosts
                        (filter (\<lambda>p. \<not> listed ck p)
                           (filter (\<lambda>p. p \<ge> ck_watermark ck \<and> p < hr_total hr) wk)
                         @ concat (map (\<lambda>s. positions_between (fst s) (snd s))
                             (gaps_from ck (max (walked_len k) (ck_watermark ck)) (hr_total hr)))))
                     (iter_from (walked_order k) (walked_reached k))
              else Some (host_by_host hr first (hr_hosts hr)
                     (\<lambda>p. p \<ge> ck_watermark ck \<and> \<not> listed ck p
                        \<and> \<not> (case perm_index_of (walked_order k) p of
                               None \<Rightarrow> False | Some index \<Rightarrow> index < walked_reached k))))"

definition left_in :: "checkpoint \<Rightarrow> host_runs \<Rightarrow> stretch list option" where
  "left_in ck hr =
     (case ck_walked ck of
        Some k \<Rightarrow> left_along ck (clamped k (ck_watermark ck)) hr
      | None \<Rightarrow> Some (spans_between ck (hr_total hr)))"

definition unsettled_spans :: "checkpoint \<Rightarrow> u64 \<Rightarrow> stretch list option" where
  "unsettled_spans ck total_len = left_in ck (alone total_len)"

definition remaining_addresses :: "checkpoint \<Rightarrow> positions \<Rightarrow> ip_set option" where
  "remaining_addresses ck p =
     map_option
       (\<lambda>stretches. canonicalize
          (foldl insert_range
             (foldl insert_range ip_set_new (concat (map (\<lambda>s. ranges_in p (fst s) (snd s)) stretches)))
             (unnumbered p)))
       (unsettled_spans ck (Positions.total p))"

definition remaining_hosts :: "checkpoint \<Rightarrow> target_index \<Rightarrow> ip_set option" where
  "remaining_hosts ck ix =
     map_option
       (\<lambda>stretches. canonicalize
          (foldl insert_range
             (foldl insert_range ip_set_new (concat (map (\<lambda>s. addresses_in ix (fst s) (snd s)) stretches)))
             (index_unnumbered ix)))
       (left_in ck (index_runs ix))"

end
