(* ===== verification/Cursor_Correct.thy ===== *)
theory Cursor_Correct
  imports Target_Correct Cursor
begin

text \<open>
  Correctness of the cursor: catching up neither loses nor invents a settled position, the
  count is the number of settled positions, a checkpoint restores the cursor it was taken from,
  and the watermark reaches the end once everything has settled.
\<close>

section \<open>What a walk covers\<close>

lemma covers_iff: "covers k p \<longleftrightarrow> (\<exists>i < walked_reached k. perm_at (walked_order k) i = Some p)"
  unfolding covers_def walked_order_def by (auto simp: at_iff_index_of split: option.splits)

lemma walked_order_update [simp]:
  "walked_order (k\<lparr>walked_ahead := a\<rparr>) = walked_order k" "walked_order (k\<lparr>walked_reached := r\<rparr>) = walked_order k"
  by (simp_all add: walked_order_def)

lemma covers_ahead [simp]: "covers (k\<lparr>walked_ahead := a\<rparr>) = covers k"
  by (rule ext) (simp add: covers_iff)

lemma below_succ:
  assumes "(r :: u64) < len"
  shows "i < r + 1 \<longleftrightarrow> i < r \<or> i = r"
  using unat_succ [OF assms] by (auto simp: word_less_nat_alt word_unat_eq_iff)

lemma covers_step:
  assumes "perm_at (walked_order k) (walked_reached k) = Some position"
  shows "covers (k\<lparr>walked_reached := walked_reached k + 1\<rparr>) p \<longleftrightarrow> covers k p \<or> p = position"
proof -
  have "walked_reached k < walked_len k" using at_range(1) [OF assms] by (simp add: walked_order_def)
  note this [THEN below_succ]
  then show ?thesis using assms by (auto simp: covers_iff)
qed

lemma covers_fresh:
  assumes "perm_at (walked_order k) (walked_reached k) = Some position"
  shows "\<not> covers k position"
proof
  assume "covers k position"
  then obtain i where "i < walked_reached k" "perm_at (walked_order k) i = Some position" by (auto simp: covers_iff)
  with assms show False unfolding walked_order_def by (auto simp: at_iff_index_of)
qed

section \<open>Settled positions\<close>

definition settled_set :: "u64 \<Rightarrow> u64 set \<Rightarrow> walked option \<Rightarrow> u64 set" where
  "settled_set w ab wk = {p. p < w} \<union> ab \<union> {p. covered_by wk p}"

definition shape :: "u64 \<Rightarrow> u64 set \<Rightarrow> walked option \<Rightarrow> bool" where
  "shape w ab wk \<longleftrightarrow>
     (\<forall>p \<in> ab. w \<le> p \<and> \<not> covered_by wk p) \<and> (\<forall>k. wk = Some k \<longrightarrow> walked_reached k \<le> walked_len k)"

definition ahead_ok :: "u64 \<Rightarrow> walked option \<Rightarrow> bool" where
  "ahead_ok w wk \<longleftrightarrow> (\<forall>k. wk = Some k \<longrightarrow> unat (walked_ahead k) = card {p. covers k p \<and> w \<le> p})"

lemma covered_by_simps [simp]: "covered_by None p = False" "covered_by (Some k) = covers k"
  by (simp_all add: covered_by_def fun_eq_iff)

lemma saturating_succ_less: "p < saturating_add w 1 \<longleftrightarrow> p < w \<or> p = w \<and> w \<noteq> - 1" for p w :: u64
proof -
  have "unat (saturating_add w 1) = min (unat w + 1) (2 ^ 64 - 1)" by (simp add: unat_saturating_add)
  moreover have "w \<noteq> - 1 \<longleftrightarrow> unat w < 2 ^ 64 - 1"
    using unat_bounds(3) [of w] unat_minus_one_max [where 'a = 64] by (auto simp: word_unat_eq_iff)
  ultimately show ?thesis
    using unat_bounds(3) [of p] unat_bounds(3) [of w] by (auto simp: word_less_nat_alt word_unat_eq_iff min_def split: if_splits)
qed

text \<open>One step of the plan watermark over a position of the set.\<close>

lemma plan_step_set:
  assumes "w \<in> ab" and "shape w ab wk"
  shows "shape (saturating_add w 1) (ab - {w}) wk"
    and "settled_set (saturating_add w 1) (ab - {w}) wk \<subseteq> settled_set w ab wk"
    and "settled_set w ab wk - {- 1} \<subseteq> settled_set (saturating_add w 1) (ab - {w}) wk"
    and "ahead_ok w wk \<Longrightarrow> ahead_ok (saturating_add w 1) wk"
proof -
  have free: "\<not> covered_by wk w" using assms by (simp add: shape_def)
  have le: "saturating_add w 1 \<le> p \<longleftrightarrow> \<not> (p < w \<or> p = w \<and> w \<noteq> - 1)" for p
    using saturating_succ_less [of p w] by (simp add: not_less [symmetric])
  show "shape (saturating_add w 1) (ab - {w}) wk"
    using assms(2) unfolding shape_def le by (auto simp: not_less)
  show "settled_set (saturating_add w 1) (ab - {w}) wk \<subseteq> settled_set w ab wk"
    using assms(1) unfolding settled_set_def saturating_succ_less by auto
  show "settled_set w ab wk - {- 1} \<subseteq> settled_set (saturating_add w 1) (ab - {w}) wk"
    unfolding settled_set_def saturating_succ_less by auto
  have "{p. covers k p \<and> saturating_add w 1 \<le> p} = {p. covers k p \<and> w \<le> p}" if "wk = Some k" for k
    unfolding le using free that by auto
  then show "ahead_ok w wk \<Longrightarrow> ahead_ok (saturating_add w 1) wk" by (simp add: ahead_ok_def)
qed

text \<open>One step over a position the walk has passed.\<close>

lemma plan_step_walk:
  assumes "w \<notin> ab" and "covers k w" and "shape w ab (Some k)"
  defines "k' \<equiv> k\<lparr>walked_ahead := saturating_sub (walked_ahead k) 1\<rparr>"
  shows "shape (saturating_add w 1) ab (Some k')"
    and "settled_set (saturating_add w 1) ab (Some k') = settled_set w ab (Some k)"
    and "ahead_ok w (Some k) \<Longrightarrow> ahead_ok (saturating_add w 1) (Some k')"
proof -
  have "w < walked_len k" using assms(2) by (rule covers_range)
  then have "unat w < unat (- 1 :: u64)"
    using unat_bounds(3) [of "walked_len k"] by (simp add: word_less_nat_alt unat_minus_one_max)
  then have "w \<noteq> - 1" by auto
  then have lt: "p < saturating_add w 1 \<longleftrightarrow> p < w \<or> p = w" for p by (simp add: saturating_succ_less)
  then have le: "saturating_add w 1 \<le> p \<longleftrightarrow> w \<le> p \<and> p \<noteq> w" for p by (auto simp: not_less [symmetric])
  have cov: "covers k' = covers k" by (simp add: k'_def)
  show "shape (saturating_add w 1) ab (Some k')"
    using assms(1,3) unfolding shape_def le by (auto simp: cov) (simp add: k'_def)
  show "settled_set (saturating_add w 1) ab (Some k') = settled_set w ab (Some k)"
    using assms(2) unfolding settled_set_def lt covered_by_simps cov by auto
  have "{p. covers k p \<and> w \<le> p} = insert w {p. covers k p \<and> saturating_add w 1 \<le> p}"
    unfolding le using assms(2) by auto
  moreover have "w \<notin> {p. covers k p \<and> saturating_add w 1 \<le> p}" unfolding le by simp
  ultimately have "card {p. covers k p \<and> w \<le> p} = Suc (card {p. covers k p \<and> saturating_add w 1 \<le> p})" by simp
  then show "ahead_ok w (Some k) \<Longrightarrow> ahead_ok (saturating_add w 1) (Some k')"
    by (simp add: ahead_ok_def cov) (simp add: k'_def unat_saturating_sub)
qed

lemma plan_loop_correct:
  "plan_loop w ab wk = (w', ab', wk') \<Longrightarrow> shape w ab wk \<Longrightarrow>
   shape w' ab' wk' \<and> settled_set w' ab' wk' \<subseteq> settled_set w ab wk
   \<and> settled_set w ab wk - {- 1} \<subseteq> settled_set w' ab' wk'
   \<and> (ahead_ok w wk \<longrightarrow> ahead_ok w' wk') \<and> w' \<notin> settled_set w' ab' wk'"
proof (induction w ab wk rule: plan_loop.induct)
  case (1 w ab wk)
  consider (listed) "w \<in> ab" | (passed) k where "w \<notin> ab" "wk = Some k" "covers k w"
    | (stop) "w \<notin> ab" "\<not> covered_by wk w" by (cases wk) auto
  then show ?case
  proof cases
    case listed
    have "plan_loop (saturating_add w 1) (ab - {w}) wk = (w', ab', wk')"
      using "1.prems"(1) listed by (simp add: plan_loop.simps [of w])
    note ih = "1.IH"(1) [OF listed this]
    note step = plan_step_set [OF listed "1.prems"(2)]
    show ?thesis using ih [OF step(1)] step by blast
  next
    case passed
    let ?k = "k\<lparr>walked_ahead := saturating_sub (walked_ahead k) 1\<rparr>"
    have "plan_loop (saturating_add w 1) ab (Some ?k) = (w', ab', wk')"
      using "1.prems"(1) passed by (simp add: plan_loop.simps [of w])
    note ih = "1.IH"(2) [OF passed this]
    have sh: "shape w ab (Some k)" using "1.prems"(2) passed(2) by simp
    note step = plan_step_walk [OF passed(1,3) sh]
    show ?thesis using ih [OF step(1)] step passed(2) by blast
  next
    case stop
    then have "plan_loop w ab wk = (w, ab, wk)" by (cases wk) (simp_all add: plan_loop.simps [of w])
    then show ?thesis using "1.prems" stop by (auto simp: settled_set_def)
  qed
qed

section \<open>Moving the walk\<close>

lemma covered_bound: "card {p. covers k p \<and> w \<le> p} < 2 ^ 64"
proof -
  have "{p. covers k p \<and> w \<le> p} \<subseteq> UNIV - {- 1}"
  proof
    fix p assume "p \<in> {p. covers k p \<and> w \<le> p}"
    then have "p < walked_len k" using covers_range by blast
    then have "unat p < unat (- 1 :: u64)"
      using unat_bounds(3) [of "walked_len k"] by (simp add: word_less_nat_alt unat_minus_one_max)
    then show "p \<in> UNIV - {- 1}" by auto
  qed
  then have "card {p. covers k p \<and> w \<le> p} \<le> card (UNIV - {- 1 :: u64})" by (intro card_mono) auto
  then show ?thesis by (simp add: card_word card_Diff_singleton)
qed

lemma walk_step:
  assumes at: "perm_at (walked_order k) (walked_reached k) = Some position"
    and sh: "shape w ab (Some k)"
  shows "position < w \<Longrightarrow> shape w ab (Some (k\<lparr>walked_reached := walked_reached k + 1\<rparr>))
      \<and> settled_set w ab (Some (k\<lparr>walked_reached := walked_reached k + 1\<rparr>)) = settled_set w ab (Some k)
      \<and> (ahead_ok w (Some k) \<longrightarrow> ahead_ok w (Some (k\<lparr>walked_reached := walked_reached k + 1\<rparr>)))"
    and "\<not> position < w \<Longrightarrow> position \<in> ab \<Longrightarrow>
      shape w (ab - {position}) (Some (k\<lparr>walked_ahead := saturating_add (walked_ahead k) 1, walked_reached := walked_reached k + 1\<rparr>))
      \<and> settled_set w (ab - {position}) (Some (k\<lparr>walked_ahead := saturating_add (walked_ahead k) 1, walked_reached := walked_reached k + 1\<rparr>))
        = settled_set w ab (Some k)
      \<and> (ahead_ok w (Some k) \<longrightarrow>
          ahead_ok w (Some (k\<lparr>walked_ahead := saturating_add (walked_ahead k) 1, walked_reached := walked_reached k + 1\<rparr>)))"
proof -
  note step = reached_step [OF at]
  note cov = covers_step [OF at]
  have cov': "covers (k\<lparr>walked_ahead := a, walked_reached := walked_reached k + 1\<rparr>) p \<longleftrightarrow> covers k p \<or> p = position" for a p
  proof -
    have "k\<lparr>walked_ahead := a, walked_reached := walked_reached k + 1\<rparr> = k\<lparr>walked_reached := walked_reached k + 1\<rparr>\<lparr>walked_ahead := a\<rparr>"
      by simp
    then show ?thesis using cov by (simp only: covers_ahead)
  qed
  have le: "walked_reached k + 1 \<le> walked_len k" using step by (simp add: word_le_nat_alt)
  show "shape w ab (Some (k\<lparr>walked_reached := walked_reached k + 1\<rparr>))
      \<and> settled_set w ab (Some (k\<lparr>walked_reached := walked_reached k + 1\<rparr>)) = settled_set w ab (Some k)
      \<and> (ahead_ok w (Some k) \<longrightarrow> ahead_ok w (Some (k\<lparr>walked_reached := walked_reached k + 1\<rparr>)))" if "position < w"
  proof (intro conjI)
    show "shape w ab (Some (k\<lparr>walked_reached := walked_reached k + 1\<rparr>))"
      using sh le that by (auto simp: shape_def cov)
    show "settled_set w ab (Some (k\<lparr>walked_reached := walked_reached k + 1\<rparr>)) = settled_set w ab (Some k)"
      using that by (auto simp: settled_set_def cov)
    have "{p. covers (k\<lparr>walked_reached := walked_reached k + 1\<rparr>) p \<and> w \<le> p} = {p. covers k p \<and> w \<le> p}"
      unfolding cov using that by auto
    then show "ahead_ok w (Some k) \<longrightarrow> ahead_ok w (Some (k\<lparr>walked_reached := walked_reached k + 1\<rparr>))"
      by (simp add: ahead_ok_def)
  qed
  let ?k = "k\<lparr>walked_ahead := saturating_add (walked_ahead k) 1, walked_reached := walked_reached k + 1\<rparr>"
  show "shape w (ab - {position}) (Some ?k) \<and> settled_set w (ab - {position}) (Some ?k) = settled_set w ab (Some k)
      \<and> (ahead_ok w (Some k) \<longrightarrow> ahead_ok w (Some ?k))" if "\<not> position < w" "position \<in> ab"
  proof (intro conjI impI)
    show "shape w (ab - {position}) (Some ?k)"
      using sh le by (auto simp: shape_def cov')
    show "settled_set w (ab - {position}) (Some ?k) = settled_set w ab (Some k)"
      using that by (auto simp: settled_set_def cov')
    assume ahead: "ahead_ok w (Some k)"
    have set: "{p. covers ?k p \<and> w \<le> p} = insert position {p. covers k p \<and> w \<le> p}"
      unfolding cov' using that by auto
    have "card {p. covers ?k p \<and> w \<le> p} = Suc (card {p. covers k p \<and> w \<le> p})"
      unfolding set using covers_fresh [OF at] by simp
    then show "ahead_ok w (Some ?k)"
      using ahead covered_bound [of ?k w] by (simp add: ahead_ok_def unat_saturating_add)
  qed
qed

lemma walk_steps_correct:
  "walk_steps w ab k moved = (ab', k', moved') \<Longrightarrow> shape w ab (Some k) \<Longrightarrow>
   shape w ab' (Some k') \<and> settled_set w ab' (Some k') = settled_set w ab (Some k)
   \<and> (ahead_ok w (Some k) \<longrightarrow> ahead_ok w (Some k'))
   \<and> (\<forall>p. perm_at (walked_order k') (walked_reached k') = Some p \<longrightarrow> p \<notin> settled_set w ab' (Some k'))
   \<and> (moved \<longrightarrow> moved') \<and> (\<not> moved' \<longrightarrow> ab' = ab \<and> k' = k)"
proof (induction w ab k moved rule: walk_steps.induct)
  case (1 w ab k moved)
  show ?case
  proof (cases "perm_at (walked_order k) (walked_reached k)")
    case None
    then show ?thesis using "1.prems" by (simp add: walk_steps.simps [of w ab k])
  next
    case (Some position)
    note step = walk_step [OF Some "1.prems"(2)]
    consider (below) "position < w" | (held) "\<not> position < w" "position \<in> ab" | (stop) "\<not> position < w" "position \<notin> ab" by blast
    then show ?thesis
    proof cases
      case below
      have "walk_steps w ab (k\<lparr>walked_reached := walked_reached k + 1\<rparr>) True = (ab', k', moved')"
        using "1.prems"(1) Some below by (simp add: walk_steps.simps [of w ab k])
      from "1.IH"(1) [OF Some below this] step(1) [OF below] show ?thesis by auto
    next
      case held
      have "walk_steps w (ab - {position})
          (k\<lparr>walked_ahead := saturating_add (walked_ahead k) 1, walked_reached := walked_reached k + 1\<rparr>) True = (ab', k', moved')"
        using "1.prems"(1) Some held by (simp add: walk_steps.simps [of w ab k])
      from "1.IH"(2) [OF Some held this] step(2) [OF held] show ?thesis by auto
    next
      case stop
      then have "(ab', k', moved') = (ab, k, moved)" using "1.prems"(1) Some by (simp add: walk_steps.simps [of w ab k])
      then show ?thesis using "1.prems"(2) Some stop covers_fresh [OF Some] by (auto simp: settled_set_def)
    qed
  qed
qed

section \<open>Catching up\<close>

text \<open>Both watermarks have gone as far as they can.\<close>

definition caught_up :: "u64 \<Rightarrow> u64 set \<Rightarrow> walked option \<Rightarrow> bool" where
  "caught_up w ab wk \<longleftrightarrow>
     w \<notin> settled_set w ab wk
     \<and> (\<forall>k p. wk = Some k \<longrightarrow> perm_at (walked_order k) (walked_reached k) = Some p \<longrightarrow> p \<notin> settled_set w ab wk)"

lemma catch_up_loop_correct:
  "catch_up_loop w ab wk = (w', ab', wk') \<Longrightarrow> shape w ab wk \<Longrightarrow>
   shape w' ab' wk' \<and> caught_up w' ab' wk' \<and> settled_set w' ab' wk' \<subseteq> settled_set w ab wk
   \<and> settled_set w ab wk - {- 1} \<subseteq> settled_set w' ab' wk' \<and> (ahead_ok w wk \<longrightarrow> ahead_ok w' wk')"
proof (induction w ab wk rule: catch_up_loop.induct)
  case (1 w ab wk)
  obtain w1 ab1 wk1 where p: "plan_loop w ab wk = (w1, ab1, wk1)" by (metis prod_cases3)
  note plan = plan_loop_correct [OF p "1.prems"(2)]
  show ?case
  proof (cases wk1)
    case None
    then have "(w', ab', wk') = (w1, ab1, None)" using "1.prems"(1) p by (simp add: catch_up_loop.simps [of w])
    then show ?thesis using plan None by (simp add: caught_up_def)
  next
    case (Some k1)
    obtain ab2 k2 moved where m: "walk_steps w1 ab1 k1 False = (ab2, k2, moved)" by (metis prod_cases3)
    have sh: "shape w1 ab1 (Some k1)" using plan Some by simp
    note wk = walk_steps_correct [OF m sh]
    show ?thesis
    proof (cases moved)
      case True
      have eq: "catch_up_loop w1 ab2 (Some k2) = (w', ab', wk')"
        using "1.prems"(1) p Some m True by (simp add: catch_up_loop.simps [of w ab wk])
      have "shape w1 ab2 (Some k2)" using wk by blast
      from "1.IH" [OF p [symmetric] refl Some m [symmetric] refl True eq this] show ?thesis
        using plan wk Some by blast
    next
      case False
      then have r: "w' = w1" "ab' = ab2" "wk' = Some k2"
        using "1.prems"(1) p Some m by (simp_all add: catch_up_loop.simps [of w ab wk])
      have same: "ab2 = ab1" "k2 = k1" using wk False by auto
      have "caught_up w' ab' wk'" using plan wk Some unfolding r same caught_up_def by simp
      then show ?thesis using plan Some unfolding r same by simp
    qed
  qed
qed

lemma catch_up_loop_idle: "caught_up w ab wk \<Longrightarrow> catch_up_loop w ab wk = (w, ab, wk)"
proof -
  assume c: "caught_up w ab wk"
  then have "w \<notin> ab" "\<not> covered_by wk w" by (auto simp: caught_up_def settled_set_def)
  then have p: "plan_loop w ab wk = (w, ab, wk)" by (cases wk) (simp_all add: plan_loop.simps [of w])
  show ?thesis
  proof (cases wk)
    case None
    then show ?thesis using p by (simp add: catch_up_loop.simps [of w])
  next
    case (Some k)
    have "walk_steps w ab k False = (ab, k, False)"
      using c Some by (auto simp: caught_up_def settled_set_def walk_steps.simps [of w ab k] split: option.split)
    then show ?thesis using p Some by (simp add: catch_up_loop.simps [of w])
  qed
qed

section \<open>The cursor\<close>

definition settled :: "cursor \<Rightarrow> u64 set" where
  "settled c = {p. cursor_is_settled c p}"

definition cursor_inv :: "cursor \<Rightarrow> bool" where
  "cursor_inv c \<longleftrightarrow>
     shape (watermark c) (above c) (cursor_walk c) \<and> caught_up (watermark c) (above c) (cursor_walk c)
     \<and> ahead_ok (watermark c) (cursor_walk c)"

lemma settled_fields: "settled c = settled_set (watermark c) (above c) (cursor_walk c)"
  by (auto simp: settled_def cursor_is_settled_def settled_set_def)

lemma catch_up_correct:
  assumes "shape (watermark c) (above c) (cursor_walk c)" and "ahead_ok (watermark c) (cursor_walk c)"
  shows "cursor_inv (catch_up c)" "settled (catch_up c) \<subseteq> settled c" "settled c - {- 1} \<subseteq> settled (catch_up c)"
proof -
  obtain w ab wk where r: "catch_up_loop (watermark c) (above c) (cursor_walk c) = (w, ab, wk)" by (metis prod_cases3)
  have "catch_up c = \<lparr>watermark = w, above = ab, cursor_walk = wk\<rparr>" by (simp add: catch_up_def r)
  with catch_up_loop_correct [OF r assms(1)] assms(2)
  show "cursor_inv (catch_up c)" "settled (catch_up c) \<subseteq> settled c" "settled c - {- 1} \<subseteq> settled (catch_up c)"
    by (simp_all add: cursor_inv_def settled_fields)
qed

lemma catch_up_settled:
  assumes "shape (watermark c) (above c) (cursor_walk c)"
  shows "settled (catch_up c) \<subseteq> settled c" "settled c - {- 1} \<subseteq> settled (catch_up c)"
    "shape (watermark (catch_up c)) (above (catch_up c)) (cursor_walk (catch_up c))"
    "caught_up (watermark (catch_up c)) (above (catch_up c)) (cursor_walk (catch_up c))"
proof -
  obtain w ab wk where r: "catch_up_loop (watermark c) (above c) (cursor_walk c) = (w, ab, wk)" by (metis prod_cases3)
  have "catch_up c = \<lparr>watermark = w, above = ab, cursor_walk = wk\<rparr>" by (simp add: catch_up_def r)
  with catch_up_loop_correct [OF r assms(1)]
  show "settled (catch_up c) \<subseteq> settled c" "settled c - {- 1} \<subseteq> settled (catch_up c)"
    "shape (watermark (catch_up c)) (above (catch_up c)) (cursor_walk (catch_up c))"
    "caught_up (watermark (catch_up c)) (above (catch_up c)) (cursor_walk (catch_up c))"
    by (simp_all add: settled_fields)
qed

lemma settle_steps:
  assumes "cursor_inv c"
  shows "cursor_inv (settle c p)" "settled (settle c p) \<subseteq> insert p (settled c)"
    "insert p (settled c) - {- 1} \<subseteq> settled (settle c p)"
proof -
  have "cursor_inv (settle c p) \<and> settled (settle c p) \<subseteq> insert p (settled c)
    \<and> insert p (settled c) - {- 1} \<subseteq> settled (settle c p)"
  proof (cases "cursor_is_settled c p")
    case True
    then show ?thesis using assms by (auto simp: settle_def settled_def)
  next
    case False
    let ?c = "c\<lparr>above := insert p (above c)\<rparr>"
    have "shape (watermark ?c) (above ?c) (cursor_walk ?c)" "ahead_ok (watermark ?c) (cursor_walk ?c)"
      using assms False by (auto simp: cursor_inv_def shape_def cursor_is_settled_def)
    note up = catch_up_correct [OF this]
    moreover have "settled ?c = insert p (settled c)" by (auto simp: settled_fields settled_set_def)
    ultimately show ?thesis using False by (simp add: settle_def)
  qed
  then show "cursor_inv (settle c p)" "settled (settle c p) \<subseteq> insert p (settled c)"
    "insert p (settled c) - {- 1} \<subseteq> settled (settle c p)" by auto
qed

lemma cursor_new_inv: "cursor_inv cursor_new" "settled cursor_new = {}"
  by (auto simp: cursor_inv_def cursor_new_def shape_def caught_up_def settled_set_def ahead_ok_def settled_fields)

lemma covers_none: "walked_reached k = 0 \<Longrightarrow> \<not> covers k p"
  by (simp add: covers_iff)

lemma along_steps:
  assumes "cursor_inv c"
  shows "cursor_inv (along c order)" "settled (along c order) - {- 1} = settled c - {- 1}"
    "settled (along c order) \<subseteq> settled c"
proof -
  have "cursor_inv (along c order) \<and> settled (along c order) - {- 1} = settled c - {- 1}
    \<and> settled (along c order) \<subseteq> settled c"
  proof (cases "cursor_walk c = None")
    case True
    let ?c = "c\<lparr>cursor_walk := Some (walked_start order)\<rparr>"
    have none: "\<not> covers (walked_start order) p" for p by (rule covers_none) (simp add: walked_start_def)
    have "shape (watermark ?c) (above ?c) (cursor_walk ?c)" "ahead_ok (watermark ?c) (cursor_walk ?c)"
      using assms True by (auto simp: cursor_inv_def shape_def ahead_ok_def none) (simp_all add: walked_start_def)
    note up = catch_up_correct [OF this]
    moreover have "settled ?c = settled c" using True by (auto simp: settled_fields settled_set_def none)
    ultimately show ?thesis using True by (auto simp: along_def)
  qed (use assms in \<open>auto simp: along_def\<close>)
  then show "cursor_inv (along c order)" "settled (along c order) - {- 1} = settled c - {- 1}"
    "settled (along c order) \<subseteq> settled c" by auto
qed

lemma settle_all_steps:
  "cursor_inv c \<Longrightarrow> - 1 \<notin> settled c \<Longrightarrow> - 1 \<notin> set ps \<Longrightarrow>
   cursor_inv (foldl settle c ps) \<and> settled (foldl settle c ps) = settled c \<union> set ps"
proof (induction ps arbitrary: c)
  case (Cons p ps)
  have "settled (settle c p) = insert p (settled c)" using settle_steps [OF Cons.prems(1), of p] Cons.prems(2,3) by auto
  then show ?case using Cons settle_steps(1) [OF Cons.prems(1), of p] by simp
qed simp

section \<open>Counting\<close>

lemma count_settled:
  assumes "cursor_inv c"
  shows "card (settled c) = unat (watermark c)
    + (case cursor_walk c of None \<Rightarrow> 0 | Some k \<Rightarrow> unat (walked_ahead k)) + card (above c)"
    and "card (settled c) < 2 ^ 64"
proof -
  let ?w = "watermark c" and ?ahead = "{p. covered_by (cursor_walk c) p \<and> watermark c \<le> p}"
  have "settled c = {p. p < ?w} \<union> ?ahead \<union> above c"
    by (auto simp: settled_fields settled_set_def)
  moreover have "{p. p < ?w} \<inter> ?ahead = {}" "({p. p < ?w} \<union> ?ahead) \<inter> above c = {}"
    using assms by (auto simp: cursor_inv_def shape_def)
  ultimately have "card (settled c) = card {p. p < ?w} + card ?ahead + card (above c)"
    by (simp add: card_Un_disjoint)
  moreover have "card {p. p < ?w} = unat ?w"
  proof -
    have "{p. p < ?w} = of_nat ` {..<unat ?w}"
    proof
      show "{p. p < ?w} \<subseteq> of_nat ` {..<unat ?w}"
        by (auto simp: word_less_nat_alt intro!: image_eqI [of _ _ "unat _"])
      show "of_nat ` {..<unat ?w} \<subseteq> {p. p < ?w}"
        using unat_bounds(3) [of ?w] by (auto simp: word_less_nat_alt unat_of_nat_lt)
    qed
    moreover have "inj_on (of_nat :: nat \<Rightarrow> u64) {..<unat ?w}"
    proof (rule inj_onI)
      fix x y assume xy: "x \<in> {..<unat ?w}" "y \<in> {..<unat ?w}" "(of_nat x :: u64) = of_nat y"
      have nat: "unat (of_nat n :: u64) = n" if "n < unat ?w" for n
        using that unat_bounds(3) [of ?w] by (intro unat_of_nat_lt) simp
      have "x = unat (of_nat x :: u64)" using nat [of x] xy(1) by simp
      also have "\<dots> = y" unfolding xy(3) using nat [of y] xy(2) by simp
      finally show "x = y" .
    qed
    ultimately show ?thesis by (simp add: card_image)
  qed
  moreover have "card ?ahead = (case cursor_walk c of None \<Rightarrow> 0 | Some k \<Rightarrow> unat (walked_ahead k))"
    using assms by (auto simp: cursor_inv_def ahead_ok_def split: option.split)
  ultimately show "card (settled c) = unat ?w
    + (case cursor_walk c of None \<Rightarrow> 0 | Some k \<Rightarrow> unat (walked_ahead k)) + card (above c)" by simp
  have "?w \<notin> settled c" using assms by (simp add: cursor_inv_def caught_up_def settled_fields)
  then have "card (settled c) \<le> card (UNIV - {?w})" by (intro card_mono) auto
  then show "card (settled c) < 2 ^ 64" by (simp add: card_word card_Diff_singleton)
qed

section \<open>Checkpoints\<close>

lemma listed_iff: "sorted (ck_settled_above ck) \<Longrightarrow> listed ck p \<longleftrightarrow> p \<in> set (ck_settled_above ck)"
proof -
  assume sorted: "sorted (ck_settled_above ck)"
  have "cmp_sorted (\<lambda>x. cmp x p) (ck_settled_above ck)"
    unfolding cmp_sorted_def by (rule sorted_wrt_mono_rel [OF _ sorted]) (auto simp: cmp_def split: if_splits)
  from binary_search_finds [OF this] show ?thesis
    by (auto simp: listed_def cmp_def split: sum.splits if_splits)
qed

lemma clamped_covers: "covers (clamped k w) = covers k"
proof
  fix p
  have "walked_order (clamped k w) = walked_order k" by (simp add: clamped_def walked_order_def Let_def)
  moreover have "i < walked_len k" if "perm_at (walked_order k) i = Some p" for i
    using at_range(1) [OF that] by (simp add: walked_order_def)
  ultimately show "covers (clamped k w) p = covers k p"
    by (auto simp: covers_iff clamped_def Let_def)
qed

lemma clamped_idle:
  assumes "walked_reached k \<le> walked_len k" and "unat (walked_ahead k) = card {p. covers k p \<and> w \<le> p}"
  shows "clamped k w = k"
proof -
  have "{p. covers k p \<and> w \<le> p} \<subseteq> {w..<walked_len k}" using covers_range by auto
  moreover have "card {w..<walked_len k} \<le> unat (walked_len k) - unat w"
  proof -
    have "unat ` {w..<walked_len k} \<subseteq> {unat w..<unat (walked_len k)}" by (auto simp: word_le_nat_alt word_less_nat_alt)
    then have "card (unat ` {w..<walked_len k}) \<le> card {unat w..<unat (walked_len k)}" by (intro card_mono) auto
    moreover have "card (unat ` {w..<walked_len k}) = card {w..<walked_len k}"
      by (intro card_image inj_onI) (simp add: word_unat_eq_iff)
    ultimately show ?thesis by simp
  qed
  ultimately have past: "unat (walked_ahead k) \<le> unat (walked_len k) - unat w"
    using assms(2) card_mono [of "{w..<walked_len k}" "{p. covers k p \<and> w \<le> p}"] by simp
  have "{p. covers k p \<and> w \<le> p} \<subseteq> (\<lambda>i. the (perm_at (walked_order k) i)) ` {..<walked_reached k}"
    by (force simp: covers_iff)
  then have "card {p. covers k p \<and> w \<le> p} \<le> card {..<walked_reached k}" by (rule surj_card_le [rotated]) simp
  also have "\<dots> = card (unat ` {..<walked_reached k})" by (intro card_image [symmetric] inj_onI) (simp add: word_unat_eq_iff)
  also have "\<dots> \<le> card {..<unat (walked_reached k)}" by (intro card_mono) (auto simp: word_less_nat_alt)
  finally have "walked_ahead k \<le> walked_reached k" "walked_ahead k \<le> saturating_sub (walked_len k) w"
    using assms(2) past by (simp_all add: word_le_nat_alt unat_saturating_sub)
  then show ?thesis using assms(1) by (simp add: clamped_def min_absorb1)
qed

lemma from_checkpoint_settled:
  assumes sorted: "sorted (ck_settled_above ck)"
  shows "settled (from_checkpoint ck) - {- 1} = {p. checkpoint_is_settled ck p} - {- 1}"
    and "settled (from_checkpoint ck) \<subseteq> {p. checkpoint_is_settled ck p}"
proof -
  define wk where "wk = map_option (\<lambda>k. clamped k (ck_watermark ck)) (ck_walked ck)"
  define c where "c = \<lparr>watermark = ck_watermark ck,
      above = set (filter (\<lambda>p. \<not> covered_by wk p) (filter (\<lambda>p. p \<ge> ck_watermark ck) (ck_settled_above ck))),
      cursor_walk = wk\<rparr>"
  have from_ck: "from_checkpoint ck = catch_up c" by (simp add: from_checkpoint_def c_def wk_def Let_def)
  have cov: "covered_by wk p = covered_by (ck_walked ck) p" for p
    by (cases "ck_walked ck") (simp_all add: wk_def clamped_covers)
  have "shape (watermark c) (above c) (cursor_walk c)"
    by (cases "ck_walked ck") (auto simp: shape_def c_def wk_def clamped_def Let_def)
  note up = catch_up_settled [OF this]
  moreover have "settled c = {p. checkpoint_is_settled ck p}"
    using listed_iff [OF sorted]
    by (auto simp: settled_fields settled_set_def c_def cov checkpoint_is_settled_def not_less)
  ultimately show "settled (from_checkpoint ck) - {- 1} = {p. checkpoint_is_settled ck p} - {- 1}"
    "settled (from_checkpoint ck) \<subseteq> {p. checkpoint_is_settled ck p}"
    unfolding from_ck by auto
qed

section \<open>Properties\<close>

text \<open>
  C7. Settling a position keeps the cursor's invariant and adds exactly that position to what is
  settled.  The one exception is the largest word, which no plan numbers: it may be forgotten,
  never invented.
\<close>

theorem settle_correct:
  assumes "cursor_inv c"
  shows "cursor_inv (settle c p)
    \<and> (q \<noteq> - 1 \<longrightarrow> (cursor_is_settled (settle c p) q \<longleftrightarrow> q = p \<or> cursor_is_settled c q))
    \<and> (cursor_is_settled (settle c p) q \<longrightarrow> q = p \<or> cursor_is_settled c q)"
proof -
  note s = settle_steps [OF assms, of p, unfolded settled_def]
  then have "cursor_is_settled (settle c p) q \<Longrightarrow> q = p \<or> cursor_is_settled c q"
    and "q \<noteq> - 1 \<Longrightarrow> q = p \<or> cursor_is_settled c q \<Longrightarrow> cursor_is_settled (settle c p) q" by auto
  with s(1) show ?thesis by blast
qed

theorem settle_correct_witness:
  "cursor_is_settled (settle cursor_new 5) 5 \<and> \<not> cursor_is_settled (settle cursor_new 5) 4"
  using settle_correct [OF cursor_new_inv(1), of 5 5] settle_correct [OF cursor_new_inv(1), of 5 4]
  by (simp add: cursor_is_settled_def cursor_new_def)

text \<open>
  The count a cursor reports is the number of positions settled: nothing is counted by both
  watermarks, and nothing saturates.
\<close>

theorem settled_count_correct:
  assumes "cursor_inv c"
  shows "unat (cursor_settled_count c) = card {p. cursor_is_settled c p}"
proof -
  note n = count_settled [OF assms]
  have "card (above c) < 2 ^ 64" using n by linarith
  then have "unat (of_nat (card (above c)) :: u64) = card (above c)" by (intro unat_of_nat_lt) simp
  with n show ?thesis
    by (cases "cursor_walk c") (simp_all add: cursor_settled_count_def unat_saturating_add settled_def)
qed

theorem settled_count_correct_witness:
  "card {p. cursor_is_settled (foldl settle (walking (permutation_new 7 4)) [3, 0]) p} = 2"
proof -
  have "cursor_inv (walking (permutation_new 7 4))"
    unfolding walking_def by (rule along_steps(1) [OF cursor_new_inv(1)])
  then have "cursor_inv (foldl settle (walking (permutation_new 7 4)) [3, 0])"
    using settle_steps(1) by simp
  note count = settled_count_correct [OF this]
  have "cursor_settled_count (foldl settle (walking (permutation_new 7 4)) [3, 0]) = 2" by code_simp
  from arg_cong [OF this, of unat] show ?thesis unfolding count by simp
qed

text \<open>
  C15. A cursor resumed from the checkpoint it wrote is the cursor that wrote it.
\<close>

theorem checkpoint_restores:
  assumes "cursor_inv c"
  shows "from_checkpoint (cursor_checkpoint c) = c"
proof -
  have inv: "shape (watermark c) (above c) (cursor_walk c)" "caught_up (watermark c) (above c) (cursor_walk c)"
    "ahead_ok (watermark c) (cursor_walk c)" using assms by (simp_all add: cursor_inv_def)
  have wk: "map_option (\<lambda>k. clamped k (watermark c)) (cursor_walk c) = cursor_walk c"
    using inv by (cases "cursor_walk c") (auto simp: shape_def ahead_ok_def intro!: clamped_idle)
  have "set (filter (\<lambda>p. \<not> covered_by (cursor_walk c) p) (filter (\<lambda>p. p \<ge> watermark c) (settled_above c))) = above c"
    using inv(1) by (auto simp: settled_above_def shape_def)
  then have "from_checkpoint (cursor_checkpoint c) = catch_up \<lparr>watermark = watermark c, above = above c, cursor_walk = cursor_walk c\<rparr>"
    by (simp add: from_checkpoint_def cursor_checkpoint_def wk)
  then show ?thesis using catch_up_loop_idle [OF inv(2)] by (simp add: catch_up_def)
qed

theorem checkpoint_restores_witness:
  "from_checkpoint (cursor_checkpoint (foldl settle (walking (permutation_new 7 4)) [3, 0, 1]))
     = foldl settle (walking (permutation_new 7 4)) [3, 0, 1]"
proof (rule checkpoint_restores)
  show "cursor_inv (foldl settle (walking (permutation_new 7 4)) [3, 0, 1])"
    using along_steps(1) [OF cursor_new_inv(1)] settle_steps(1) by (simp add: walking_def)
qed

text \<open>
  C27. A cursor resumed from any checkpoint with an ascending list, even one whose numbers a
  scan could not have written, skips only positions the checkpoint itself says are settled, and
  all of them but the largest word.
\<close>

theorem resume_agrees:
  assumes "sorted (ck_settled_above ck)"
  shows "(cursor_is_settled (from_checkpoint ck) p \<longrightarrow> checkpoint_is_settled ck p)
    \<and> (p \<noteq> - 1 \<longrightarrow> checkpoint_is_settled ck p \<longrightarrow> cursor_is_settled (from_checkpoint ck) p)"
  using from_checkpoint_settled [OF assms, unfolded settled_def] by blast

theorem resume_agrees_witness:
  "cursor_is_settled (from_checkpoint \<lparr>ck_watermark = 3, ck_settled_above = [1, 3, 9],
     ck_walked = Some \<lparr>walked_seed = 7, walked_len = 20, walked_reached = 900, walked_ahead = 50\<rparr>\<rparr>) 19"
proof -
  let ?ck = "\<lparr>ck_watermark = 3, ck_settled_above = [1, 3, 9],
     ck_walked = Some \<lparr>walked_seed = 7, walked_len = 20, walked_reached = 900, walked_ahead = 50\<rparr>\<rparr> :: checkpoint"
  have "checkpoint_is_settled ?ck 19" by code_simp
  moreover have "sorted (ck_settled_above ?ck)" by simp
  ultimately show ?thesis using resume_agrees [of ?ck 19] by simp
qed

text \<open>
  C14. However the positions of a plan settle, in whatever order and however often, once all of
  them have, the watermark stands at the plan's end and nothing is left pending.
\<close>

theorem watermark_reaches_end:
  assumes "set ps = {p. p < n}"
  shows "watermark (foldl settle (walking order) ps) = n \<and> pending_count (foldl settle (walking order) ps) = 0"
proof -
  let ?c = "foldl settle (walking order) ps"
  have max: "p < n \<Longrightarrow> p \<noteq> - 1" for p :: u64 by auto
  have "settled (walking order) = {}"
    using along_steps(3) [OF cursor_new_inv(1), of order] cursor_new_inv(2) by (simp add: walking_def)
  moreover have "cursor_inv (walking order)" unfolding walking_def by (rule along_steps(1) [OF cursor_new_inv(1)])
  ultimately have inv: "cursor_inv ?c" and set: "settled ?c = {p. p < n}"
    using settle_all_steps [of "walking order" ps] assms max by auto
  have "watermark ?c \<notin> settled ?c" using inv by (simp add: cursor_inv_def caught_up_def settled_fields)
  moreover have "{p. p < watermark ?c} \<subseteq> settled ?c" by (auto simp: settled_fields settled_set_def)
  ultimately have "\<not> watermark ?c < n" "n \<notin> {p. p < watermark ?c}" unfolding set by blast+
  then have "watermark ?c = n" by simp
  moreover have "above ?c \<subseteq> settled ?c" by (auto simp: settled_fields settled_set_def)
  then have "above ?c = {}" using inv \<open>watermark ?c = n\<close> unfolding set by (force simp: cursor_inv_def shape_def)
  ultimately show ?thesis by (simp add: pending_count_def)
qed

theorem watermark_reaches_end_witness:
  "watermark (foldl settle (walking (permutation_new 7 4)) [3, 0, 3, 2, 1]) = 4"
proof -
  have "set [3, 0, 3, 2, 1] = {p. p < (4 :: u64)}"
  proof -
    have "p < 4 \<longleftrightarrow> p = 0 \<or> p = 1 \<or> p = 2 \<or> p = 3" for p :: u64
      by (auto simp: word_less_nat_alt word_unat_eq_iff)
    then show ?thesis by auto
  qed
  from watermark_reaches_end [OF this] show ?thesis by simp
qed

end
