(* ===== verification/Resume_Correct.thy ===== *)
theory Resume_Correct
  imports Cursor_Correct
begin

text \<open>
  What a resumed scan asks again.  The interface a checkpoint reads hosts through is a locale;
  reading the walk's tail into a bitmap and asking host by host give the same stretches, and
  those hold every unsettled position and touch no host without one.
\<close>

unbundle bit_operations_syntax

section \<open>Stretches\<close>

definition stretch_set :: "stretch list \<Rightarrow> u64 set" where
  "stretch_set ss = {p. \<exists>s \<in> set ss. fst s \<le> p \<and> p < snd s}"

lemma stretch_set_simps [simp]:
  "stretch_set [] = {}" "stretch_set (s # ss) = {p. fst s \<le> p \<and> p < snd s} \<union> stretch_set ss"
  "stretch_set (xs @ ys) = stretch_set xs \<union> stretch_set ys"
  by (auto simp: stretch_set_def)

lemma set_positions_between: "set (positions_between a b) = {p. a \<le> p \<and> p < b}"
proof
  have small: "n < unat b \<Longrightarrow> unat (of_nat n :: u64) = n" for n
    using unat_bounds(3) [of b] by (intro unat_of_nat_lt) simp
  show "set (positions_between a b) \<subseteq> {p. a \<le> p \<and> p < b}"
    by (auto simp: positions_between_def word_le_nat_alt word_less_nat_alt small)
  show "{p. a \<le> p \<and> p < b} \<subseteq> set (positions_between a b)"
    by (auto simp: positions_between_def word_le_nat_alt word_less_nat_alt intro!: image_eqI [of _ _ "unat _"])
qed

definition ordered_stretches :: "stretch list \<Rightarrow> bool" where
  "ordered_stretches ss \<longleftrightarrow> (\<forall>s \<in> set ss. fst s \<le> snd s)"

lemma extend_correct:
  assumes "ordered_stretches ss" and "fst run \<le> snd run"
  shows "ordered_stretches (extend ss run)" "stretch_set (extend ss run) = stretch_set ss \<union> {p. fst run \<le> p \<and> p < snd run}"
proof -
  have "ordered_stretches (extend ss run)
    \<and> stretch_set (extend ss run) = stretch_set ss \<union> {p. fst run \<le> p \<and> p < snd run}"
  proof (cases "ss \<noteq> [] \<and> snd (last ss) = fst run")
    case True
    then obtain front back' where ss: "ss = front @ [back']" and meet: "snd back' = fst run"
      by (metis append_butlast_last_id)
    have "fst back' \<le> snd back'" using assms(1) ss by (simp add: ordered_stretches_def)
    then have "{p. fst back' \<le> p \<and> p < snd run} = {p. fst back' \<le> p \<and> p < snd back'} \<union> {p. fst run \<le> p \<and> p < snd run}"
      using assms(2) meet by auto
    moreover have "fst back' \<le> snd run" using \<open>fst back' \<le> snd back'\<close> assms(2) meet by simp
    ultimately show ?thesis using True assms(1) ss by (auto simp: extend_def ordered_stretches_def)
  next
    case False
    then have "extend ss run = ss @ [run]" by (auto simp: extend_def)
    then show ?thesis using assms by (auto simp: ordered_stretches_def)
  qed
  then show "ordered_stretches (extend ss run)"
    "stretch_set (extend ss run) = stretch_set ss \<union> {p. fst run \<le> p \<and> p < snd run}" by auto
qed

lemma foldl_extend:
  "ordered_stretches ss \<Longrightarrow> \<forall>r \<in> set rs. fst r \<le> snd r \<Longrightarrow>
   stretch_set (foldl extend ss rs) = stretch_set ss \<union> {p. \<exists>r \<in> set rs. fst r \<le> p \<and> p < snd r}"
proof (induction rs arbitrary: ss)
  case (Cons r rs)
  then show ?case using extend_correct [OF Cons.prems(1), of r] by auto
qed simp

section \<open>Reading host by host\<close>

lemma host_by_host_foldl:
  "host_by_host hr first past unsettled =
     foldl extend [] (map (hr_run hr)
       (filter (\<lambda>h. list_ex unsettled (positions_between (fst (hr_run hr h)) (snd (hr_run hr h)))) (positions_between first past)))"
proof -
  let ?need = "\<lambda>h. list_ex unsettled (positions_between (fst (hr_run hr h)) (snd (hr_run hr h)))"
  have "foldl (\<lambda>ss h. let run = hr_run hr h in if list_ex unsettled (positions_between (fst run) (snd run)) then extend ss run else ss) ss hs
    = foldl extend ss (map (hr_run hr) (filter ?need hs))" for ss hs
    by (induction hs arbitrary: ss) (simp_all add: Let_def)
  then show ?thesis by (simp add: host_by_host_def)
qed

section \<open>Reading the bitmap\<close>

lemma trailing_zeros_correct:
  assumes "x \<noteq> 0"
  shows "bit x (trailing_zeros x)" "i < trailing_zeros x \<Longrightarrow> \<not> bit x i" "trailing_zeros x < 64"
proof -
  let ?P = "\<lambda>i. \<not> bit x i"
  have "\<exists>i < 64. bit x i"
  proof (rule ccontr)
    assume "\<not> (\<exists>i < 64. bit x i)"
    then have "x = 0" by (intro bit_word_eqI) simp
    with assms show False ..
  qed
  then obtain k where k: "k < 64" "bit x k" by blast
  have "\<not> k < length (takeWhile ?P [0..<64])"
  proof
    assume lt: "k < length (takeWhile ?P [0..<64])"
    then have "takeWhile ?P [0..<64] ! k = k" using takeWhile_nth [OF lt] k(1) by simp
    then have "k \<in> set (takeWhile ?P [0..<64])" using nth_mem [OF lt] by simp
    then show False using set_takeWhileD [of k ?P] k(2) by blast
  qed
  then show lt: "trailing_zeros x < 64" using k(1) by (simp add: trailing_zeros_def)
  then show "bit x (trailing_zeros x)"
    using nth_length_takeWhile [of ?P "[0..<64]"] by (simp add: trailing_zeros_def)
  assume i: "i < trailing_zeros x"
  then have "takeWhile ?P [0..<64] ! i = [0..<64] ! i" by (intro takeWhile_nth) (simp add: trailing_zeros_def)
  also have "\<dots> = i" using i lt by simp
  finally have "i \<in> set (takeWhile ?P [0..<64])" using i by (metis nth_mem trailing_zeros_def)
  then show "\<not> bit x i" by (rule set_takeWhileD [THEN conjunct2])
qed

lemma clear_lowest:
  assumes "x \<noteq> 0"
  shows "bit (x AND (x - 1)) i \<longleftrightarrow> bit x i \<and> i \<noteq> trailing_zeros (x :: u64)"
proof -
  define s where "s = Suc (trailing_zeros x)"
  let ?t = "trailing_zeros x" and ?high = "push_bit s (drop_bit s x)"
  note t = trailing_zeros_correct [OF assms]
  have high: "bit ?high n \<longleftrightarrow> ?t < n \<and> bit x n" if "n < 64" for n
    using that by (auto simp: bit_simps s_def Suc_le_eq simp del: push_bit_Suc)
  have bits: "bit x n \<longleftrightarrow> bit ?high n \<or> n = ?t" if "n < 64" for n
    unfolding high [OF that] using t by (cases n ?t rule: linorder_cases) auto
  have "x = ?high OR 2 ^ ?t"
    by (rule bit_word_eqI) (use bits t(3) in \<open>auto simp: bit_or_iff bit_exp_iff\<close>)
  also have "\<dots> = ?high + 2 ^ ?t"
    by (rule disjunctive_add_eq_or [symmetric]) (rule bit_word_eqI, simp add: bit_and_iff bit_exp_iff high)
  finally have "x - 1 = ?high + mask ?t" by (simp add: mask_eq_exp_minus_1)
  also have "\<dots> = ?high OR mask ?t"
    by (rule disjunctive_add_eq_or) (rule bit_word_eqI, auto simp: bit_and_iff bit_mask_iff high)
  finally have "bit (x - 1) i \<longleftrightarrow> bit ?high i \<or> i < ?t \<and> i < 64" by (auto simp: bit_or_iff bit_mask_iff)
  then show ?thesis
    using bits [of i] t(2) [of i] bit_imp_le_length [of x i] high [of i] by (auto simp: bit_and_iff)
qed

lemma set_bits_step:
  assumes "x \<noteq> 0"
  shows "filter (bit x) [0..<64] = trailing_zeros x # filter (bit (x AND (x - 1))) [0..<64]"
proof -
  let ?t = "trailing_zeros x"
  note t = trailing_zeros_correct [OF assms]
  have split: "[0..<64] = [0..<?t] @ ?t # [Suc ?t..<64]"
    using t(3) upt_add_eq_append [of 0 ?t "64 - ?t"] upt_conv_Cons [of ?t 64] by simp
  have low: "filter (bit x) [0..<?t] = []" "filter (bit (x AND (x - 1))) [0..<?t] = []"
    using t(2) by (auto simp: filter_empty_conv clear_lowest [OF assms])
  have high: "filter (bit (x AND (x - 1))) [Suc ?t..<64] = filter (bit x) [Suc ?t..<64]"
    by (rule filter_cong) (auto simp: clear_lowest [OF assms])
  have at: "\<not> bit (x AND (x - 1)) ?t" by (simp only: clear_lowest [OF assms]) simp
  show ?thesis unfolding split filter_append filter.simps low high using t(1) at by simp
qed

lemma word_loop_foldl:
  "word_loop hr base ss word = foldl extend ss (map (\<lambda>i. hr_run hr (base + of_nat i)) (filter (bit word) [0..<64]))"
proof (induction hr base ss word rule: word_loop.induct)
  case (1 hr base ss word)
  show ?case
  proof (cases "word = 0")
    case True
    then show ?thesis by (simp add: word_loop.simps [of hr base ss 0])
  next
    case False
    then show ?thesis using 1 [OF False] set_bits_step [OF False] by (simp add: word_loop.simps [of hr base ss word])
  qed
qed

lemma mark_bits:
  assumes "\<forall>p \<in> set ps. unat ((hr_host_of hr p - first) div 64) < length bits"
  shows "length (foldl (mark hr first) bits ps) = length bits
    \<and> (\<forall>at < length bits. \<forall>i < 64. bit (foldl (mark hr first) bits ps ! at) i
         \<longleftrightarrow> bit (bits ! at) i \<or> (\<exists>p \<in> set ps. unat (hr_host_of hr p - first) = at * 64 + i))"
  using assms
proof (induction ps arbitrary: bits)
  case (Cons p ps)
  let ?host = "hr_host_of hr p - first" and ?bits = "mark hr first bits p"
  have len: "length ?bits = length bits" by (simp add: mark_def Let_def)
  have at: "unat (?host div 64) < length bits" using Cons.prems by simp
  have "bit (?bits ! a) i \<longleftrightarrow> bit (bits ! a) i \<or> unat ?host = a * 64 + i" if "a < length bits" "i < 64" for a i
  proof -
    have "unat ?host = a * 64 + i \<longleftrightarrow> unat ?host div 64 = a \<and> unat ?host mod 64 = i"
      using that(2) div_mult_mod_eq [of "unat ?host" 64] by auto
    moreover have "?bits ! a = (if a = unat ?host div 64 then bits ! a OR 2 ^ (unat ?host mod 64) else bits ! a)"
      using that(1) by (simp add: mark_def Let_def nth_list_update unat_div_distrib unat_mod_distrib push_bit_of_1)
    moreover have "bit (2 ^ (unat ?host mod 64) :: u64) i \<longleftrightarrow> i = unat ?host mod 64"
      using that(2) by (auto simp: bit_exp_iff)
    ultimately show ?thesis by (auto simp: bit_or_iff)
  qed
  then show ?case using Cons.IH [of ?bits] Cons.prems by (auto simp: len)
qed simp

lemma filter_blocks_64:
  "concat (map (\<lambda>a. map (\<lambda>i. a * 64 + i) (filter (P a) [0..<64])) [0..<n]) = filter (\<lambda>j. P (j div 64) (j mod 64)) [0..<n * 64]"
proof (induction n)
  case (Suc n)
  have "[0..<Suc n * 64] = [0..<n * 64] @ map (\<lambda>i. n * 64 + i) [0..<64]"
    using upt_add_eq_append [of 0 "n * 64" 64] map_add_upt [of "n * 64" 64] by (simp add: add.commute)
  moreover have "filter (\<lambda>j. P (j div 64) (j mod 64)) (map (\<lambda>i. n * 64 + i) [0..<64]) = map (\<lambda>i. n * 64 + i) (filter (P n) [0..<64])"
    unfolding filter_map comp_def by (intro arg_cong [where f = "map _"] filter_cong) auto
  ultimately show ?case using Suc by simp
qed simp

lemma foldl_concat: "foldl (\<lambda>ss x. foldl f ss (g x)) ss xs = foldl f ss (concat (map g xs))"
  by (induction xs arbitrary: ss) simp_all

lemma enumerate_upt: "enumerate 0 xs = map (\<lambda>i. (i, xs ! i)) [0..<length xs]"
  by (rule nth_equalityI) (simp_all add: nth_enumerate_eq)

lemma marked_words:
  "foldl (\<lambda>ss (at, word). word_loop hr (first + of_nat at * 64) ss word) [] (enumerate 0 bits)
     = foldl extend [] (map (\<lambda>j. hr_run hr (first + of_nat j))
         (filter (\<lambda>j. bit (bits ! (j div 64)) (j mod 64)) [0..<length bits * 64]))"
proof -
  have "(\<lambda>ss (at, word). word_loop hr (first + of_nat at * 64) ss word)
      = (\<lambda>ss x. foldl extend ss (map (\<lambda>i. hr_run hr (first + of_nat (fst x) * 64 + of_nat i)) (filter (bit (snd x)) [0..<64])))"
    by (auto simp: fun_eq_iff word_loop_foldl)
  then have "foldl (\<lambda>ss (at, word). word_loop hr (first + of_nat at * 64) ss word) [] (enumerate 0 bits)
      = foldl extend [] (concat (map (\<lambda>x. map (\<lambda>i. hr_run hr (first + of_nat (fst x) * 64 + of_nat i)) (filter (bit (snd x)) [0..<64])) (enumerate 0 bits)))"
    by (simp only: foldl_concat)
  also have "concat (map (\<lambda>x. map (\<lambda>i. hr_run hr (first + of_nat (fst x) * 64 + of_nat i)) (filter (bit (snd x)) [0..<64])) (enumerate 0 bits))
      = map (\<lambda>j. hr_run hr (first + of_nat j)) (concat (map (\<lambda>a. map (\<lambda>i. a * 64 + i) (filter (bit (bits ! a)) [0..<64])) [0..<length bits]))"
    by (simp add: enumerate_upt map_concat comp_def add.assoc)
  finally show ?thesis by (simp only: filter_blocks_64)
qed

lemma positions_between_shift:
  assumes "a \<le> b"
  shows "positions_between a b = map (\<lambda>j. a + of_nat j) [0..<unat (b - a)]"
proof -
  have "unat b = unat a + unat (b - a)" using assms by (simp add: unat_sub word_le_nat_alt)
  then have "[unat a..<unat b] = map (\<lambda>j. j + unat a) [0..<unat (b - a)]" by (simp add: map_add_upt add.commute)
  then show ?thesis by (simp add: positions_between_def comp_def add.commute)
qed

lemma marked_foldl:
  assumes "first \<le> hr_hosts hr" and "\<forall>p \<in> set ps. first \<le> hr_host_of hr p \<and> hr_host_of hr p < hr_hosts hr"
  shows "marked hr first (hr_hosts hr - first) ps
    = foldl extend [] (map (hr_run hr) (filter (\<lambda>h. \<exists>p \<in> set ps. hr_host_of hr p = h) (positions_between first (hr_hosts hr))))"
proof -
  let ?n = "hr_hosts hr - first"
  define words where "words = unat (?n div 64 + (if ?n mod 64 = 0 then 0 else 1))"
  define bits where "bits = foldl (mark hr first) (replicate words 0) ps"
  have words: "words = (if unat ?n mod 64 = 0 then unat ?n div 64 else unat ?n div 64 + 1)"
  proof -
    have "unat (?n div 64) + unat (1 :: u64) < 2 ^ LENGTH(64)"
      using unat_bounds(3) [of ?n] by (simp add: unat_div_distrib)
    from unat_add_lt [OF this] show ?thesis
      by (simp add: words_def unat_div_distrib word_unat_eq_iff unat_mod_distrib)
  qed
  then have cover: "unat ?n \<le> words * 64" using div_mult_mod_eq [of "unat ?n" 64] by (auto split: if_splits)
  have host: "unat (hr_host_of hr p - first) < unat ?n" if "p \<in> set ps" for p
    using assms that by (simp add: unat_sub word_le_nat_alt word_less_nat_alt) (meson diff_less_mono)
  have "unat ((hr_host_of hr p - first) div 64) < words" if "p \<in> set ps" for p
  proof -
    have "unat (hr_host_of hr p - first) < words * 64" using host [OF that] cover by linarith
    then show ?thesis by (simp add: unat_div_distrib less_mult_imp_div_less)
  qed
  then have marks: "length bits = words \<and> (\<forall>at < words. \<forall>i < 64. bit (bits ! at) i
      \<longleftrightarrow> (\<exists>p \<in> set ps. unat (hr_host_of hr p - first) = at * 64 + i))"
    unfolding bits_def using mark_bits [of ps hr first "replicate words 0"] by simp
  then have len: "length bits = words" by blast
  have bit: "bit (bits ! (j div 64)) (j mod 64) \<longleftrightarrow> (\<exists>p \<in> set ps. unat (hr_host_of hr p - first) = j)"
    if "j < words * 64" for j
  proof -
    have "j div 64 < words" "j mod 64 < 64" using that by (simp_all add: less_mult_imp_div_less)
    then show ?thesis using marks by simp
  qed
  have same: "(\<exists>p \<in> set ps. unat (hr_host_of hr p - first) = j) \<longleftrightarrow> (\<exists>p \<in> set ps. hr_host_of hr p = first + of_nat j)"
    if "j < unat ?n" for j
  proof -
    have "unat (of_nat j :: u64) = j" using that unat_bounds(3) [of ?n] by (intro unat_of_nat_lt) simp
    then have "unat x = j \<longleftrightarrow> x = of_nat j" for x :: u64 by (auto simp: word_unat_eq_iff)
    then show ?thesis by (simp add: diff_eq_eq add.commute)
  qed
  have "filter (\<lambda>j. bit (bits ! (j div 64)) (j mod 64)) [0..<words * 64]
      = filter (\<lambda>j. \<exists>p \<in> set ps. unat (hr_host_of hr p - first) = j) [0..<words * 64]"
    by (rule filter_cong) (use bit in auto)
  also have "\<dots> = filter (\<lambda>j. \<exists>p \<in> set ps. unat (hr_host_of hr p - first) = j) [0..<unat ?n]"
  proof -
    have "[0..<words * 64] = [0..<unat ?n] @ [unat ?n..<words * 64]"
      using cover upt_add_eq_append [of 0 "unat ?n" "words * 64 - unat ?n"] by simp
    moreover have "filter (\<lambda>j. \<exists>p \<in> set ps. unat (hr_host_of hr p - first) = j) [unat ?n..<words * 64] = []"
      unfolding filter_empty_conv using host by (metis atLeastLessThan_iff atLeastLessThan_upt not_le)
    ultimately show ?thesis by simp
  qed
  also have "\<dots> = filter (\<lambda>j. \<exists>p \<in> set ps. hr_host_of hr p = first + of_nat j) [0..<unat ?n]"
    by (rule filter_cong) (use same in auto)
  finally have js: "filter (\<lambda>j. bit (bits ! (j div 64)) (j mod 64)) [0..<words * 64]
      = filter (\<lambda>j. \<exists>p \<in> set ps. hr_host_of hr p = first + of_nat j) [0..<unat ?n]" .
  have "marked hr first ?n ps = foldl extend [] (map (\<lambda>j. hr_run hr (first + of_nat j))
      (filter (\<lambda>j. bit (bits ! (j div 64)) (j mod 64)) [0..<words * 64]))"
    unfolding marked_def Let_def words_def [symmetric] bits_def [symmetric] marked_words len ..
  also have "\<dots> = foldl extend [] (map (hr_run hr) (filter (\<lambda>h. \<exists>p \<in> set ps. hr_host_of hr p = h) (positions_between first (hr_hosts hr))))"
    unfolding js positions_between_shift [OF assms(1)] filter_map by (simp add: comp_def)
  finally show ?thesis .
qed

section \<open>What neither the walk nor the list settled\<close>

lemma walk_tail:
  assumes "walked_reached k \<le> walked_len k"
  shows "\<exists>ps. iter_from (walked_order k) (walked_reached k) = Some ps
    \<and> set ps = {p. p < walked_len k \<and> \<not> covers k p}"
proof -
  let ?len = "walked_len k" and ?r = "walked_reached k"
  let ?at = "\<lambda>i. perm_at (walked_order k) i"
  have order: "walked_order k = permutation_new (walked_seed k) ?len" by (simp add: walked_order_def)
  define ps where "ps = map (\<lambda>i. the (?at (of_nat i))) [unat ?r..<unat ?len]"
  have it: "iter_from (walked_order k) ?r = Some ps"
    using assms by (simp add: order iter_from_at ps_def min_absorb1)
  have "set ps = {p. \<exists>i. ?r \<le> i \<and> ?at i = Some p}"
  proof
    show "set ps \<subseteq> {p. \<exists>i. ?r \<le> i \<and> ?at i = Some p}"
    proof
      fix p assume "p \<in> set ps"
      then obtain i where i: "unat ?r \<le> i" "i < unat ?len" "p = the (?at (of_nat i))" by (auto simp: ps_def)
      have "unat (of_nat i :: u64) = i" using i(2) unat_bounds(3) [of ?len] by (intro unat_of_nat_lt) simp
      then have "?r \<le> of_nat i" "of_nat i < ?len" using i by (simp_all add: word_le_nat_alt word_less_nat_alt)
      then show "p \<in> {p. \<exists>i. ?r \<le> i \<and> ?at i = Some p}"
        using at_total [of "of_nat i" ?len "walked_seed k"] i(3) by (auto simp: order)
    qed
    show "{p. \<exists>i. ?r \<le> i \<and> ?at i = Some p} \<subseteq> set ps"
    proof clarify
      fix p i assume i: "?r \<le> i" "?at i = Some p"
      then have "i < ?len" using at_range(1) [OF i(2)] by (simp add: walked_order_def)
      then have "unat i \<in> set [unat ?r..<unat ?len]" using i(1) by (simp add: word_le_nat_alt word_less_nat_alt)
      moreover have "the (?at (of_nat (unat i))) = p" using i(2) by simp
      ultimately show "p \<in> set ps" unfolding ps_def by (metis (no_types, lifting) image_eqI set_map)
    qed
  qed
  also have "\<dots> = {p. p < ?len \<and> \<not> covers k p}"
  proof -
    have "(\<exists>i. ?r \<le> i \<and> ?at i = Some p) \<longleftrightarrow> p < ?len \<and> \<not> covers k p" for p
    proof
      assume "\<exists>i. ?r \<le> i \<and> ?at i = Some p"
      then obtain i where i: "?r \<le> i" "?at i = Some p" by blast
      then have "perm_index_of (walked_order k) p = Some i" by (simp add: order at_iff_index_of)
      then show "p < ?len \<and> \<not> covers k p" using i(1) at_range(2) [of "walked_order k" p i]
        by (simp add: covers_def walked_order_def)
    next
      assume p: "p < ?len \<and> \<not> covers k p"
      then obtain i where "perm_index_of (walked_order k) p = Some i" using index_total [of p ?len "walked_seed k"] by (auto simp: order)
      then show "\<exists>i. ?r \<le> i \<and> ?at i = Some p" using p by (auto simp: covers_def order at_iff_index_of)
    qed
    then show ?thesis by simp
  qed
  finally show ?thesis using it by blast
qed

lemma gaps_loop_set:
  "sorted xs \<Longrightarrow> stretch_set (filter (\<lambda>s. fst s < snd s) (gaps_loop n a xs)) = {p. a \<le> p \<and> p < n \<and> p \<notin> set xs}"
proof (induction xs arbitrary: a)
  case Nil
  then show ?case by auto
next
  case (Cons x xs)
  show ?case
  proof (cases "x < a")
    case True
    then show ?thesis using Cons by auto
  next
    case False
    have le: "saturating_add x 1 \<le> p \<and> p < n \<longleftrightarrow> x < p \<and> p < n" for p
    proof -
      have "p < n \<Longrightarrow> p < - 1" using word_order.not_eq_extremum [of p] by auto
      then show ?thesis using saturating_succ_less [of p x] by (auto simp: not_less [symmetric])
    qed
    have "stretch_set (filter (\<lambda>s. fst s < snd s) (gaps_loop n a (x # xs)))
        = {p. a \<le> p \<and> p < min x n} \<union> {p. saturating_add x 1 \<le> p \<and> p < n \<and> p \<notin> set xs}"
      using False Cons by auto
    also have "{p. saturating_add x 1 \<le> p \<and> p < n \<and> p \<notin> set xs} = {p. x < p \<and> p < n \<and> p \<notin> set xs}" using le by blast
    also have "{p. a \<le> p \<and> p < min x n} \<union> {p. x < p \<and> p < n \<and> p \<notin> set xs} = {p. a \<le> p \<and> p < n \<and> p \<notin> set (x # xs)}"
      using False Cons.prems by (fastforce simp: not_less)
    finally show ?thesis .
  qed
qed

lemma gaps_from_set: "stretch_set (gaps_from ck a n) = {p. a \<le> p \<and> p < n \<and> p \<notin> set (ck_settled_above ck)}"
  unfolding gaps_from_def by (simp add: gaps_loop_set)

lemma set_gaps:
  "set (concat (map (\<lambda>s. positions_between (fst s) (snd s)) ss)) = stretch_set ss"
  by (auto simp: stretch_set_def set_positions_between)

section \<open>The interface of a host numbering\<close>

text \<open>The laws \<open>HostRuns\<close> states: runs partition the positions and ascend with their hosts.\<close>

locale host_numbering =
  fixes hr :: host_runs
  assumes in_run: "host < hr_hosts hr \<Longrightarrow>
      fst (hr_run hr host) \<le> p \<and> p < snd (hr_run hr host) \<longleftrightarrow> p < hr_total hr \<and> hr_host_of hr p = host"
    and host_bound: "p < hr_total hr \<Longrightarrow> hr_host_of hr p < hr_hosts hr"
    and host_mono: "p \<le> q \<Longrightarrow> q < hr_total hr \<Longrightarrow> hr_host_of hr p \<le> hr_host_of hr q"
    and run_le: "host < hr_hosts hr \<Longrightarrow> fst (hr_run hr host) \<le> snd (hr_run hr host)"
begin

definition runs_of_hosts :: "u64 \<Rightarrow> (u64 \<Rightarrow> bool) \<Rightarrow> stretch list" where
  "runs_of_hosts first unsettled =
     foldl extend [] (map (hr_run hr)
       (filter (\<lambda>h. \<exists>p. p < hr_total hr \<and> unsettled p \<and> hr_host_of hr p = h) (positions_between first (hr_hosts hr))))"

lemma host_by_host_runs: "host_by_host hr first (hr_hosts hr) unsettled = runs_of_hosts first unsettled"
proof -
  have "list_ex unsettled (positions_between (fst (hr_run hr h)) (snd (hr_run hr h)))
      \<longleftrightarrow> (\<exists>p. p < hr_total hr \<and> unsettled p \<and> hr_host_of hr p = h)" if "h < hr_hosts hr" for h
    using in_run [OF that] by (auto simp: list_ex_iff set_positions_between)
  then have "filter (\<lambda>h. list_ex unsettled (positions_between (fst (hr_run hr h)) (snd (hr_run hr h)))) (positions_between first (hr_hosts hr))
      = filter (\<lambda>h. \<exists>p. p < hr_total hr \<and> unsettled p \<and> hr_host_of hr p = h) (positions_between first (hr_hosts hr))"
    by (intro filter_cong) (auto simp: set_positions_between)
  then show ?thesis by (simp add: host_by_host_foldl runs_of_hosts_def)
qed

lemma marked_runs:
  assumes "first \<le> hr_hosts hr" and "set ps = {p. p < hr_total hr \<and> unsettled p}"
    and "\<And>p. p < hr_total hr \<Longrightarrow> unsettled p \<Longrightarrow> first \<le> hr_host_of hr p"
  shows "marked hr first (hr_hosts hr - first) ps = runs_of_hosts first unsettled"
proof -
  have "(\<exists>p \<in> set ps. hr_host_of hr p = h) \<longleftrightarrow> (\<exists>p. p < hr_total hr \<and> unsettled p \<and> hr_host_of hr p = h)" for h
    unfolding assms(2) by auto
  then show ?thesis
    using marked_foldl [OF assms(1), of ps] assms(2,3) host_bound by (simp add: runs_of_hosts_def)
qed

lemma stretch_set_runs:
  assumes "\<And>p. p < hr_total hr \<Longrightarrow> unsettled p \<Longrightarrow> first \<le> hr_host_of hr p"
  shows "stretch_set (runs_of_hosts first unsettled)
    = {p. p < hr_total hr \<and> (\<exists>q. q < hr_total hr \<and> unsettled q \<and> hr_host_of hr q = hr_host_of hr p)}"
proof -
  let ?hosts = "filter (\<lambda>h. \<exists>p. p < hr_total hr \<and> unsettled p \<and> hr_host_of hr p = h) (positions_between first (hr_hosts hr))"
  have hosts: "set ?hosts = hr_host_of hr ` {p. p < hr_total hr \<and> unsettled p}"
    using assms host_bound by (auto simp: set_positions_between)
  have "\<forall>r \<in> set (map (hr_run hr) ?hosts). fst r \<le> snd r" by (auto simp: set_positions_between run_le)
  from foldl_extend [OF _ this, of "[]"]
  have "stretch_set (runs_of_hosts first unsettled) = {p. \<exists>h \<in> set ?hosts. fst (hr_run hr h) \<le> p \<and> p < snd (hr_run hr h)}"
    by (simp add: runs_of_hosts_def ordered_stretches_def)
  also have "\<dots> = {p. \<exists>h \<in> set ?hosts. p < hr_total hr \<and> hr_host_of hr p = h}"
    using in_run by (auto simp: set_positions_between)
  also have "\<dots> = {p. p < hr_total hr \<and> (\<exists>q. q < hr_total hr \<and> unsettled q \<and> hr_host_of hr q = hr_host_of hr p)}"
    unfolding hosts by (auto intro: rev_image_eqI)
  finally show ?thesis .
qed

text \<open>Whichever way the tail is read, the stretches are those of asking host by host.\<close>

lemma left_along_runs:
  assumes k: "walked_reached k \<le> walked_len k" and sorted: "sorted (ck_settled_above ck)"
    and w: "ck_watermark ck < hr_total hr"
  defines "unsettled \<equiv> \<lambda>p. p \<ge> ck_watermark ck \<and> \<not> listed ck p \<and> \<not> covers k p"
    and "first \<equiv> hr_host_of hr (ck_watermark ck)"
  shows "left_along ck k hr = Some (runs_of_hosts first unsettled)"
proof -
  have low: "first \<le> hr_host_of hr p" if "p < hr_total hr" "unsettled p" for p
    using host_mono that by (simp add: first_def unsettled_def)
  have first: "first \<le> hr_hosts hr" using host_bound [OF w] by (simp add: first_def)
  from walk_tail [OF k] obtain ps where
    ps: "iter_from (walked_order k) (walked_reached k) = Some ps" "set ps = {p. p < walked_len k \<and> \<not> covers k p}" by blast
  let ?gaps = "gaps_from ck (max (walked_len k) (ck_watermark ck)) (hr_total hr)"
  let ?all = "filter (\<lambda>p. \<not> listed ck p) (filter (\<lambda>p. p \<ge> ck_watermark ck \<and> p < hr_total hr) ps)
    @ concat (map (\<lambda>s. positions_between (fst s) (snd s)) ?gaps)"
  have "p \<in> set ?all \<longleftrightarrow> p < hr_total hr \<and> unsettled p" for p
    unfolding set_append set_gaps gaps_from_set set_filter ps(2) unsettled_def
    using listed_iff [OF sorted, of p] covers_range [of k p] by (auto simp: not_less)
  then have "set ?all = {p. p < hr_total hr \<and> unsettled p}" by blast
  from marked_runs [OF first this low]
  have marked: "marked hr first (hr_hosts hr - first) ?all = runs_of_hosts first unsettled" .
  have scan: "host_by_host hr first (hr_hosts hr)
      (\<lambda>p. p \<ge> ck_watermark ck \<and> \<not> listed ck p
        \<and> \<not> (case perm_index_of (walked_order k) p of None \<Rightarrow> False | Some index \<Rightarrow> index < walked_reached k))
      = runs_of_hosts first unsettled"
    unfolding host_by_host_runs by (simp add: unsettled_def covers_def [abs_def])
  show ?thesis
    unfolding left_along_def Let_def first_def [symmetric] ps(1) option.map scan marked using w by (simp add: not_less [symmetric])
qed

end

section \<open>The two numberings\<close>

interpretation sweep: host_numbering "alone n" for n
proof
  fix host p q
  show "hr_host_of (alone n) p < hr_hosts (alone n)" if "p < hr_total (alone n)" using that by (simp add: alone_def)
  show "hr_host_of (alone n) p \<le> hr_host_of (alone n) q" if "p \<le> q" using that by (simp add: alone_def)
  assume host: "host < hr_hosts (alone n)"
  then have succ: "unat (host + 1) = Suc (unat host)" by (simp add: alone_def unat_succ)
  then show "fst (hr_run (alone n) host) \<le> snd (hr_run (alone n) host)" by (simp add: alone_def word_le_nat_alt)
  show "fst (hr_run (alone n) host) \<le> p \<and> p < snd (hr_run (alone n) host)
      \<longleftrightarrow> p < hr_total (alone n) \<and> hr_host_of (alone n) p = host"
    using host succ by (auto simp: alone_def word_le_nat_alt word_less_nat_alt word_unat_eq_iff)
qed

lemma host_of_mono:
  assumes ix: "index_ok ix" and "p \<le> q" and q: "q < index_total ix"
  shows "host_of ix p \<le> host_of ix q"
proof -
  let ?us = "index_units ix"
  have p: "p < index_total ix" using assms(2,3) by simp
  from unit_at_correct [OF ix p] obtain i where i: "i < length ?us" "unit_at ix p = Some (?us ! i)"
    "length (all_targets (take i ?us)) \<le> unat p"
    "unat p < length (all_targets (take i ?us)) + length (unit_targets (?us ! i))" by blast
  from unit_at_correct [OF ix q] obtain j where j: "j < length ?us" "unit_at ix q = Some (?us ! j)"
    "length (all_targets (take j ?us)) \<le> unat q"
    "unat q < length (all_targets (take j ?us)) + length (unit_targets (?us ! j))" by blast
  note hp = host_of_nth [OF ix i(1,3,4,2)] and hq = host_of_nth [OF ix j(1,3,4,2)]
  have pq: "unat p \<le> unat q" using assms(2) by (simp add: word_le_nat_alt)
  have "unat (host_of ix p) \<le> unat (host_of ix q)"
  proof (cases i j rule: linorder_cases)
    case less
    have "unat (host_of ix p) < length (all_ips (take i ?us)) + length (unit_ips (?us ! i))" using hp by simp
    also have "\<dots> \<le> length (all_ips (take j ?us))"
      using blocks_disjoint [of i j "map unit_ips ?us"] less j(1) by (simp add: take_map)
    finally show ?thesis using hq(1) by simp
  next
    case equal
    then show ?thesis using hp(1) hq(1) pq by (simp add: div_le_mono)
  next
    case greater
    have "length (all_targets (take j ?us)) + length (unit_targets (?us ! j)) \<le> length (all_targets (take i ?us))"
      using blocks_disjoint [of j i "map unit_targets ?us"] greater i(1) by (simp add: take_map)
    then show ?thesis using i(3) j(4) pq by simp
  qed
  then show ?thesis by (simp add: word_le_nat_alt)
qed

lemma index_numbering:
  assumes ix: "index_ok ix"
  shows "host_numbering (index_runs ix)"
proof
  fix host p q
  show "hr_host_of (index_runs ix) p < hr_hosts (index_runs ix)" if "p < hr_total (index_runs ix)"
    using that host_partition(1) [OF ix] by (simp add: index_runs_def)
  show "hr_host_of (index_runs ix) p \<le> hr_host_of (index_runs ix) q" if "p \<le> q" "q < hr_total (index_runs ix)"
    using that host_of_mono [OF ix] by (simp add: index_runs_def)
  assume host: "host < hr_hosts (index_runs ix)"
  then show "fst (hr_run (index_runs ix) host) \<le> p \<and> p < snd (hr_run (index_runs ix) host)
      \<longleftrightarrow> p < hr_total (index_runs ix) \<and> hr_host_of (index_runs ix) p = host"
    using host_partition(2) [OF ix] by (simp add: index_runs_def)
  have "unat host < length (concat (map unit_ips (index_units ix)))"
    using host ix by (simp add: index_runs_def index_ok_def word_less_nat_alt)
  from find_span [OF this] obtain i where i: "i < length (index_units ix)"
    "length (all_ips (take i (index_units ix))) \<le> unat host"
    "unat host < length (all_ips (take i (index_units ix))) + length (unit_ips (index_units ix ! i))" by (auto simp: take_map)
  from host_run_nth [OF ix i] show "fst (hr_run (index_runs ix) host) \<le> snd (hr_run (index_runs ix) host)"
    by (simp add: index_runs_def word_le_nat_alt)
qed

section \<open>What is left\<close>

context host_numbering
begin

lemma left_in_hosts:
  assumes sorted: "sorted (ck_settled_above ck)"
  shows "\<exists>ss. left_in ck hr = Some ss
    \<and> {p. p < hr_total hr \<and> \<not> checkpoint_is_settled ck p} \<subseteq> stretch_set ss
    \<and> stretch_set ss \<subseteq> {p. p < hr_total hr
        \<and> (\<exists>q. q < hr_total hr \<and> \<not> checkpoint_is_settled ck q \<and> hr_host_of hr q = hr_host_of hr p)}"
proof (cases "ck_walked ck")
  case None
  have "stretch_set (spans_between ck (hr_total hr)) = {p. p < hr_total hr \<and> \<not> checkpoint_is_settled ck p}"
    using listed_iff [OF sorted] None
    by (auto simp: spans_between_def gaps_from_set checkpoint_is_settled_def not_less)
  then show ?thesis using None by (auto simp: left_in_def)
next
  case (Some k)
  let ?k = "clamped k (ck_watermark ck)"
  define unsettled where "unsettled = (\<lambda>p. p \<ge> ck_watermark ck \<and> \<not> listed ck p \<and> \<not> covers ?k p)"
  have eq: "checkpoint_is_settled ck p \<longleftrightarrow> \<not> unsettled p" for p
    using Some by (auto simp: checkpoint_is_settled_def unsettled_def clamped_covers not_le)
  show ?thesis
  proof (cases "ck_watermark ck < hr_total hr")
    case True
    let ?first = "hr_host_of hr (ck_watermark ck)"
    have "walked_reached ?k \<le> walked_len ?k" by (simp add: clamped_def Let_def)
    from left_along_runs [OF this sorted True]
    have "left_in ck hr = Some (runs_of_hosts ?first unsettled)" using Some by (simp add: left_in_def unsettled_def)
    moreover have "?first \<le> hr_host_of hr p" if "p < hr_total hr" "unsettled p" for p
      using host_mono that by (simp add: unsettled_def)
    note stretch_set_runs [OF this]
    ultimately show ?thesis unfolding eq by auto
  next
    case False
    then have "left_in ck hr = Some []" using Some by (simp add: left_in_def left_along_def not_less)
    moreover have "\<not> (p < hr_total hr \<and> unsettled p)" for p using False by (auto simp: unsettled_def)
    ultimately show ?thesis unfolding eq by auto
  qed
qed

end

section \<open>Collecting what is left\<close>

lemma set_range_scoped: "set (range_scoped r) = range_addrs r"
  by (cases r) (auto simp: set_range_inclusive scoped4_def scoped6_def ipv4_contains_def ipv6_contains_def)

lemma collect_ranges:
  assumes "\<forall>r \<in> set rs. range_ok r" and "\<forall>r \<in> set qs. range_ok r"
  defines "s \<equiv> canonicalize (foldl insert_range (foldl insert_range ip_set_new rs) qs)"
  shows "ip_set_inv s" "scoped_addrs s = set (concat (map range_scoped rs)) \<union> set (concat (map range_scoped qs))"
proof -
  note new = ip_set_new_correct
  have a: "ip_set_inv (foldl insert_range ip_set_new rs)
      \<and> scoped_addrs (foldl insert_range ip_set_new rs) = (\<Union>r \<in> set rs. range_addrs r)"
    using foldl_adds [of range_ok insert_range range_addrs ip_set_new rs] insert_range_correct assms(1) new by simp
  have b: "ip_set_inv (foldl insert_range (foldl insert_range ip_set_new rs) qs)
      \<and> scoped_addrs (foldl insert_range (foldl insert_range ip_set_new rs) qs)
        = (\<Union>r \<in> set rs. range_addrs r) \<union> (\<Union>r \<in> set qs. range_addrs r)"
    using foldl_adds [of range_ok insert_range range_addrs "foldl insert_range ip_set_new rs" qs]
      insert_range_correct assms(2) a by simp
  then show "ip_set_inv s" "scoped_addrs s = set (concat (map range_scoped rs)) \<union> set (concat (map range_scoped qs))"
    unfolding s_def by (simp_all add: canonicalize_correct set_range_scoped)
qed

lemma ranges_in_span:
  assumes "numbers p rs"
  shows "set (concat (map range_scoped (ranges_in p a b)))
    = {span_addrs (spans p) ! q | q. unat a \<le> q \<and> q < min (unat b) (unat (total p))}"
  using ranges_in_correct [OF assms, of a b] set_slice [of "min (unat b) (unat (total p))" "span_addrs (spans p)" "unat a"] assms
  by (simp add: numbers_def)

lemma left_sweep:
  assumes "sorted (ck_settled_above ck)"
  shows "\<exists>ss. unsettled_spans ck n = Some ss \<and> stretch_set ss = {p. p < n \<and> \<not> checkpoint_is_settled ck p}"
  using sweep.left_in_hosts [OF assms, of n] by (auto simp: unsettled_spans_def alone_def)

lemma addresses_in_ok:
  assumes "index_ok ix"
  shows "\<forall>r \<in> set (addresses_in ix a b). range_ok r"
proof -
  have loop: "\<forall>u \<in> set us. unit_ok u \<Longrightarrow> \<forall>r \<in> set (addresses_loop a b us). range_ok r" for us b
  proof (induction us)
    case (Cons u us)
    then obtain rs where "numbers (unit_addresses u) rs" by (auto simp: unit_ok_def)
    from ranges_in_correct [OF this] Cons show ?case by (auto simp: Let_def)
  qed simp
  have "\<forall>u \<in> set (index_units ix). unit_ok u" using assms laid_ok by (auto simp: index_ok_def)
  then have "\<forall>u \<in> set (drop n (index_units ix)). unit_ok u" for n by (meson in_set_dropD)
  from loop [OF this] show ?thesis unfolding addresses_in_def Let_def .
qed

lemma left_out_ok: "\<forall>t \<in> set ts. target_set_inv t \<Longrightarrow> \<forall>r \<in> set (left_out ts). range_ok r"
  by (auto simp: left_out_def target_set_inv_def ip_set_inv_def)

lemma unnumbered_ok:
  "\<forall>t \<in> set ts. target_set_inv t \<Longrightarrow> \<forall>r \<in> set (index_unnumbered ix). range_ok r \<Longrightarrow>
   \<forall>r \<in> set (index_unnumbered (index_loop ix ts)). range_ok r"
proof (induction ts arbitrary: ix)
  case (Cons t ts)
  let ?p = "positions_of (set_ips t)" and ?ports = "port_set_iter (set_ports t)"
  have out: "\<forall>r \<in> set (index_unnumbered ix @ left_out (t # ts)). range_ok r"
    using Cons.prems left_out_ok [of "t # ts"] by auto
  show ?case
  proof (cases "?ports = []")
    case True
    then show ?thesis using Cons by simp
  next
    case False
    show ?thesis
    proof (cases "counted (index_total ix) ?p (length ?ports)")
      case None
      then show ?thesis using False out by simp
    next
      case (Some len)
      let ?ix = "ix\<lparr>index_hosts := index_hosts ix + total ?p, index_units := index_units ix @
        [\<lparr>unit_addresses = ?p, unit_ports = ?ports, unit_start = index_total ix, unit_len = len, unit_first_host = index_hosts ix\<rparr>],
        index_total := index_total ix + len\<rparr>"
      have "index_loop ix (t # ts) = index_loop ?ix ts" using False Some by (simp add: Let_def)
      then show ?thesis using Cons.IH [of ?ix] Cons.prems by simp
    qed
  qed
qed simp

lemma collect_cong: "(\<And>p. P p \<Longrightarrow> f p = g p) \<Longrightarrow> {f p | p. P p} = {g p | p. P p}"
  unfolding setcompr_eq_image by (rule image_cong) auto

lemma span_union:
  "(\<Union>s \<in> set ss. span_ips 0 (unat (fst s)) (min (unat (snd s)) (unat n)) ts)
     = {target_ip (ts ! unat p) | p. p < n \<and> p \<in> stretch_set ss}" (is "?A = ?B")
proof
  show "?A \<subseteq> ?B"
  proof
    fix x assume "x \<in> ?A"
    then obtain s q where s: "s \<in> set ss" "x = target_ip (ts ! q)" "unat (fst s) \<le> q" "q < unat (snd s)" "q < unat n" by auto
    have "unat (of_nat q :: u64) = q" using s(5) unat_bounds(3) [of n] by (intro unat_of_nat_lt) simp
    then have "of_nat q < n \<and> of_nat q \<in> stretch_set ss \<and> x = target_ip (ts ! unat (of_nat q :: u64))"
      using s by (auto simp: stretch_set_def word_le_nat_alt word_less_nat_alt)
    then show "x \<in> ?B" by blast
  qed
  show "?B \<subseteq> ?A"
  proof clarify
    fix p assume p: "p < n" "p \<in> stretch_set ss"
    then obtain s where "s \<in> set ss" "fst s \<le> p" "p < snd s" by (auto simp: stretch_set_def)
    then show "target_ip (ts ! unat p) \<in> ?A"
      using p(1) by (intro UN_I [of s] CollectI exI [of _ "unat p"]) (simp_all add: word_le_nat_alt word_less_nat_alt)
  qed
qed

text \<open>All targets of a host are at one address.\<close>

lemma host_address:
  assumes ix: "index_ok ix" and p: "p < index_total ix"
  shows "target_ip (all_targets (index_units ix) ! unat p) = all_ips (index_units ix) ! unat (host_of ix p)"
proof -
  let ?us = "index_units ix"
  from unit_at_correct [OF ix p] obtain i where i: "i < length ?us" "unit_at ix p = Some (?us ! i)"
    "length (all_targets (take i ?us)) \<le> unat p"
    "unat p < length (all_targets (take i ?us)) + length (unit_targets (?us ! i))" by blast
  let ?u = "?us ! i" and ?n = "unat p - length (all_targets (take i ?us))"
  note h = host_of_nth [OF ix i(1,3,4,2)]
  have "all_targets ?us ! unat p = unit_targets ?u ! ?n"
    using concat_take_nth [of i "map unit_targets ?us" ?n] i by (simp add: take_map)
  moreover have n: "?n < length (unit_ips ?u) * length (unit_ports ?u)" using i(3,4) by (simp add: length_unit_targets)
  have "unit_targets ?u ! ?n = target_of (unit_ips ?u ! (?n div length (unit_ports ?u))) (unit_ports ?u ! (?n mod length (unit_ports ?u)))"
    unfolding unit_targets_def [of ?u] by (rule nth_blocks [OF n])
  moreover have "all_ips ?us ! unat (host_of ix p) = unit_ips ?u ! (?n div length (unit_ports ?u))"
    using concat_take_nth [of i "map unit_ips ?us" "?n div length (unit_ports ?u)"] i(1) h by (simp add: take_map)
  ultimately show ?thesis by (simp add: target_of_def)
qed

section \<open>Properties\<close>

text \<open>
  C16. Reading the tail of the walk into a bitmap and asking host by host are the same function:
  which of them a checkpoint takes is a matter of cost alone.
\<close>

theorem tail_equals_hosts:
  assumes "target_map_inv m" and "sorted (ck_settled_above ck)" and "walked_reached k \<le> walked_len k"
    and "ck_watermark ck < index_total (index_of m)"
  shows "left_along ck k (index_runs (index_of m))
    = Some (host_by_host (index_runs (index_of m)) (host_of (index_of m) (ck_watermark ck)) (index_hosts (index_of m))
        (\<lambda>p. p \<ge> ck_watermark ck \<and> \<not> listed ck p \<and> \<not> covers k p))"
proof -
  have num: "host_numbering (index_runs (index_of m))" by (rule index_numbering [OF index_of_correct(1) [OF assms(1)]])
  from host_numbering.left_along_runs [OF num assms(3,2)] assms(4)
  show ?thesis using host_numbering.host_by_host_runs [OF num] by (simp add: index_runs_def)
qed

theorem tail_equals_hosts_witness:
  "left_along \<lparr>ck_watermark = 2, ck_settled_above = [4], ck_walked = None\<rparr>
     \<lparr>walked_seed = 7, walked_len = 13, walked_reached = 12, walked_ahead = 10\<rparr> (index_runs (index_of sample_map))
   = Some (host_by_host (index_runs (index_of sample_map)) 0 5
       (\<lambda>p. p \<ge> 2 \<and> \<not> listed \<lparr>ck_watermark = 2, ck_settled_above = [4], ck_walked = None\<rparr> p
          \<and> \<not> covers \<lparr>walked_seed = 7, walked_len = 13, walked_reached = 12, walked_ahead = 10\<rparr> p))"
proof -
  have "host_of (index_of sample_map) 2 = 0" "index_hosts (index_of sample_map) = 5"
    "index_total (index_of sample_map) = 13" by code_simp+
  then show ?thesis
    using tail_equals_hosts [OF sample_map_inv, of "\<lparr>ck_watermark = 2, ck_settled_above = [4], ck_walked = None\<rparr>"
        "\<lparr>walked_seed = 7, walked_len = 13, walked_reached = 12, walked_ahead = 10\<rparr>"] by simp
qed

text \<open>
  C17. A resumed sweep asks again about exactly the addresses whose position the checkpoint does
  not settle, and about every address too far out to be numbered.
\<close>

theorem sweep_resumes_exactly:
  assumes "ip_set_inv s" and "sorted (ck_settled_above ck)"
  shows "\<exists>left. remaining_addresses ck (positions_of s) = Some left \<and> ip_set_inv left
    \<and> scoped_addrs left = {iter_scoped s ! unat p | p.
        p < total (positions_of s) \<and> \<not> checkpoint_is_settled ck p}
      \<union> set (concat (map range_scoped (unnumbered (positions_of s))))"
proof -
  let ?p = "positions_of s"
  note nums = positions_numbers [OF assms(1)]
  from left_sweep [OF assms(2)] obtain ss where
    ss: "unsettled_spans ck (total ?p) = Some ss" "stretch_set ss = {p. p < total ?p \<and> \<not> checkpoint_is_settled ck p}" by blast
  let ?rs = "concat (map (\<lambda>s. ranges_in ?p (fst s) (snd s)) ss)"
  have ok: "\<forall>r \<in> set ?rs. range_ok r" using ranges_in_correct [OF nums] by auto
  have "\<forall>r \<in> set (set_ranges (eq_merged s)). range_ok r" using set_ranges_ok eq_merged_correct [OF assms(1)] by blast
  moreover have "set (unnumbered ?p) \<subseteq> set (set_ranges (eq_merged s))"
    using nums unfolding numbers_def by (metis Un_upper2 set_append)
  ultimately have unn: "\<forall>r \<in> set (unnumbered ?p). range_ok r" by blast
  have pre: "span_addrs (spans ?p) ! unat q = iter_scoped s ! unat q" if "q < total ?p" for q
    using that nums enumeration_split [OF assms(1)] by (simp add: numbers_def word_less_nat_alt nth_append)
  have "set (concat (map range_scoped ?rs)) = (\<Union>s \<in> set ss. set (concat (map range_scoped (ranges_in ?p (fst s) (snd s)))))"
    by auto
  also have "\<dots> = {span_addrs (spans ?p) ! unat q | q. q < total ?p \<and> q \<in> stretch_set ss}" (is "?A = ?B")
  proof
    show "?A \<subseteq> ?B"
    proof
      fix x assume "x \<in> ?A"
      then obtain s q where s: "s \<in> set ss" "x = span_addrs (spans ?p) ! q" "unat (fst s) \<le> q" "q < unat (snd s)" "q < unat (total ?p)"
        unfolding ranges_in_span [OF nums] by auto
      have "unat (of_nat q :: u64) = q" using s(5) unat_bounds(3) [of "total ?p"] by (intro unat_of_nat_lt) simp
      then have "of_nat q < total ?p \<and> of_nat q \<in> stretch_set ss \<and> x = span_addrs (spans ?p) ! unat (of_nat q :: u64)"
        using s by (auto simp: stretch_set_def word_le_nat_alt word_less_nat_alt)
      then show "x \<in> ?B" by blast
    qed
    show "?B \<subseteq> ?A"
      unfolding ranges_in_span [OF nums] by (fastforce simp: stretch_set_def word_le_nat_alt word_less_nat_alt)
  qed
  also have "\<dots> = {iter_scoped s ! unat p | p. p < total ?p \<and> \<not> checkpoint_is_settled ck p}"
  proof -
    have "{span_addrs (spans ?p) ! unat q | q. q < total ?p \<and> \<not> checkpoint_is_settled ck q}
        = {iter_scoped s ! unat q | q. q < total ?p \<and> \<not> checkpoint_is_settled ck q}"
      by (rule collect_cong) (simp add: pre)
    then show ?thesis unfolding ss(2) by simp
  qed
  finally show ?thesis using collect_ranges [OF ok unn] by (simp add: remaining_addresses_def ss(1))
qed

theorem sweep_resumes_exactly_witness:
  "\<exists>left. remaining_addresses \<lparr>ck_watermark = 3, ck_settled_above = [5, 8], ck_walked = None\<rparr> (positions_of sample_set) = Some left
     \<and> iter_scoped sample_set ! 18 \<in> scoped_addrs left"
proof -
  let ?ck = "\<lparr>ck_watermark = 3, ck_settled_above = [5, 8], ck_walked = None\<rparr> :: checkpoint"
  have p: "18 < total (positions_of sample_set)" "\<not> checkpoint_is_settled ?ck 18" by code_simp+
  have "sorted (ck_settled_above ?ck)" by simp
  from sweep_resumes_exactly [OF sample_set_inv this] obtain left where
    left: "remaining_addresses ?ck (positions_of sample_set) = Some left"
    and addrs: "scoped_addrs left = {iter_scoped sample_set ! unat p | p.
        p < total (positions_of sample_set) \<and> \<not> checkpoint_is_settled ?ck p}
      \<union> set (concat (map range_scoped (unnumbered (positions_of sample_set))))" by blast
  have "iter_scoped sample_set ! unat (18 :: u64) \<in> scoped_addrs left" unfolding addrs using p by blast
  with left show ?thesis by auto
qed

text \<open>
  C1. A resumed port scan visits again exactly the addresses with a target the checkpoint does
  not settle, and every address the numbering left out.
\<close>

theorem hosts_resume_exactly:
  assumes "target_map_inv m" and "sorted (ck_settled_above ck)"
  shows "\<exists>left. remaining_hosts ck (index_of m) = Some left \<and> ip_set_inv left
    \<and> addrs left = {target_ip (target_map_iter m ! unat p) | p.
        p < index_total (index_of m) \<and> \<not> checkpoint_is_settled ck p}
      \<union> {ip. \<exists>r \<in> set (index_unnumbered (index_of m)). range_contains r ip}"
proof -
  let ?ix = "index_of m" and ?ts = "all_targets (index_units (index_of m))"
  note ix = index_of_correct [OF assms(1)]
  have num: "host_numbering (index_runs ?ix)" by (rule index_numbering [OF ix(1)])
  define unsettled where "unsettled = (\<lambda>p. p < index_total ?ix \<and> \<not> checkpoint_is_settled ck p)"
  from host_numbering.left_in_hosts [OF num assms(2)] obtain ss where ss: "left_in ck (index_runs ?ix) = Some ss"
    and sub: "{p. unsettled p} \<subseteq> stretch_set ss"
    and sup: "stretch_set ss \<subseteq> {p. p < index_total ?ix \<and> (\<exists>q. unsettled q \<and> host_of ?ix q = host_of ?ix p)}"
    by (auto simp: index_runs_def unsettled_def)
  let ?rs = "concat (map (\<lambda>s. addresses_in ?ix (fst s) (snd s)) ss)"
  have ok: "\<forall>r \<in> set ?rs. range_ok r" using addresses_in_ok [OF ix(1)] by auto
  have unn: "\<forall>r \<in> set (index_unnumbered ?ix). range_ok r"
    unfolding index_of_def using assms(1) by (intro unnumbered_ok) (simp_all add: target_map_inv_def)
  have "range_ips ?rs = (\<Union>s \<in> set ss. range_ips (addresses_in ?ix (fst s) (snd s)))" by (auto simp: range_ips_def)
  also have "\<dots> = {target_ip (?ts ! unat p) | p. p < index_total ?ix \<and> p \<in> stretch_set ss}"
    unfolding addresses_in_span [OF ix(1)] by (rule span_union)
  also have "\<dots> = {target_ip (?ts ! unat p) | p. unsettled p}"
  proof -
    have "\<exists>q. target_ip (?ts ! unat p) = target_ip (?ts ! unat q) \<and> unsettled q"
      if "p < index_total ?ix" "p \<in> stretch_set ss" for p
    proof -
      from sup that obtain q where q: "unsettled q" "host_of ?ix q = host_of ?ix p" by blast
      have "q < index_total ?ix" using q(1) by (simp add: unsettled_def)
      from host_address [OF ix(1) this] host_address [OF ix(1) that(1)] q
      have "target_ip (?ts ! unat p) = target_ip (?ts ! unat q)" by simp
      with q(1) show ?thesis by blast
    qed
    then show ?thesis using sub by (auto simp: unsettled_def)
  qed
  also have "\<dots> = {target_ip (target_map_iter m ! unat p) | p. unsettled p}"
  proof -
    have "?ts ! unat p = target_map_iter m ! unat p" if "unsettled p" for p
      using that ix by (auto simp: unsettled_def index_ok_def word_less_nat_alt nth_append)
    then show ?thesis by (intro collect_cong) simp
  qed
  finally have ips: "range_ips ?rs = {target_ip (target_map_iter m ! unat p) | p. unsettled p}" .
  note c = collect_ranges [OF ok unn]
  have "addrs (canonicalize (foldl insert_range (foldl insert_range ip_set_new ?rs) (index_unnumbered ?ix)))
      = range_ips ?rs \<union> range_ips (index_unnumbered ?ix)"
    unfolding addrs_def c(2) range_ips_scoped by (simp add: image_Un image_UN)
  then show ?thesis using c(1) ips by (simp add: remaining_hosts_def ss range_ips_def unsettled_def)
qed

theorem hosts_resume_exactly_witness:
  "\<exists>left. remaining_hosts \<lparr>ck_watermark = 9, ck_settled_above = [11], ck_walked = None\<rparr> (index_of sample_map) = Some left
     \<and> target_ip (target_map_iter sample_map ! 10) \<in> addrs left"
proof -
  let ?ck = "\<lparr>ck_watermark = 9, ck_settled_above = [11], ck_walked = None\<rparr> :: checkpoint"
  have p: "10 < index_total (index_of sample_map)" "\<not> checkpoint_is_settled ?ck 10" by code_simp+
  have "sorted (ck_settled_above ?ck)" by simp
  from hosts_resume_exactly [OF sample_map_inv this] obtain left where
    left: "remaining_hosts ?ck (index_of sample_map) = Some left"
    and addrs: "addrs left = {target_ip (target_map_iter sample_map ! unat p) | p.
        p < index_total (index_of sample_map) \<and> \<not> checkpoint_is_settled ?ck p}
      \<union> {ip. \<exists>r \<in> set (index_unnumbered (index_of sample_map)). range_contains r ip}" by blast
  have "target_ip (target_map_iter sample_map ! unat (10 :: u64)) \<in> addrs left" unfolding addrs using p by blast
  with left show ?thesis by auto
qed

end
