(* ===== verification/Settle.thy ===== *)
theory Settle
  imports Cursor_Correct
begin

text \<open>
  What became of each target, after \<open>journal/settle.rs\<close>: the outcomes of a sitting, the shared
  record of them, and its methods.  A counter is an atomic and the cursor is behind a lock, so a
  method is a short sequence of atomic actions that those of other threads interleave with; the
  sequences are \<open>program\<close> and an interleaving is a run of \<open>sched\<close>.
\<close>

section \<open>Outcomes\<close>

datatype settled_kind = Settled_Answered | Settled_Exhausted

datatype outcome =
    Answered u64 | Exhausted u64 | Skipped u64 | Withheld u64 | Unreachable u64
  | Interrupted | Unasked | Unroutable | Undecided

fun settled_at :: "settled_kind \<Rightarrow> u64 \<Rightarrow> outcome" where
  "settled_at Settled_Answered position = Answered position"
| "settled_at Settled_Exhausted position = Exhausted position"

fun settled_position :: "outcome \<Rightarrow> u64 option" where
  "settled_position (Answered p) = Some p"
| "settled_position (Exhausted p) = Some p"
| "settled_position (Skipped p) = Some p"
| "settled_position (Withheld p) = Some p"
| "settled_position (Unreachable p) = Some p"
| "settled_position Interrupted = None"
| "settled_position Unasked = None"
| "settled_position Unroutable = None"
| "settled_position Undecided = None"

definition outcome_is_settled :: "outcome \<Rightarrow> bool" where
  "outcome_is_settled x \<longleftrightarrow> settled_position x \<noteq> None"

fun outcome_name :: "outcome \<Rightarrow> string" where
  "outcome_name (Answered _) = ''answered''"
| "outcome_name (Exhausted _) = ''exhausted''"
| "outcome_name (Skipped _) = ''skipped''"
| "outcome_name (Withheld _) = ''withheld''"
| "outcome_name (Unreachable _) = ''unreachable''"
| "outcome_name Interrupted = ''interrupted''"
| "outcome_name Unasked = ''unasked''"
| "outcome_name Unroutable = ''unroutable''"
| "outcome_name Undecided = ''undecided''"

section \<open>The shared record\<close>

record settlements =
  se_cursor :: cursor
  se_answered :: u64
  se_exhausted :: u64
  se_skipped :: u64
  se_withheld :: u64
  se_unreachable :: u64
  se_interrupted :: u64
  se_unasked :: u64
  se_unroutable :: u64
  se_undecided :: u64

definition settlements_of :: "cursor \<Rightarrow> settlements" where
  "settlements_of c =
     \<lparr>se_cursor = c, se_answered = 0, se_exhausted = 0, se_skipped = 0, se_withheld = 0,
      se_unreachable = 0, se_interrupted = 0, se_unasked = 0, se_unroutable = 0, se_undecided = 0\<rparr>"

definition settlements_default :: settlements where
  "settlements_default = settlements_of cursor_new"

definition resuming :: "checkpoint \<Rightarrow> settlements" where
  "resuming ck = settlements_of (from_checkpoint ck)"

definition settlements_walking :: "checkpoint \<Rightarrow> permutation option \<Rightarrow> settlements" where
  "settlements_walking ck order =
     settlements_of (case order of Some ord \<Rightarrow> along (from_checkpoint ck) ord | None \<Rightarrow> from_checkpoint ck)"

text \<open>Which counter an outcome has: its value, and \<open>fetch_add\<close> on it.\<close>

fun counter :: "outcome \<Rightarrow> settlements \<Rightarrow> u64" where
  "counter (Answered _) s = se_answered s"
| "counter (Exhausted _) s = se_exhausted s"
| "counter (Skipped _) s = se_skipped s"
| "counter (Withheld _) s = se_withheld s"
| "counter (Unreachable _) s = se_unreachable s"
| "counter Interrupted s = se_interrupted s"
| "counter Unasked s = se_unasked s"
| "counter Unroutable s = se_unroutable s"
| "counter Undecided s = se_undecided s"

fun fetch_add :: "outcome \<Rightarrow> u64 \<Rightarrow> settlements \<Rightarrow> settlements" where
  "fetch_add (Answered _) n s = s\<lparr>se_answered := se_answered s + n\<rparr>"
| "fetch_add (Exhausted _) n s = s\<lparr>se_exhausted := se_exhausted s + n\<rparr>"
| "fetch_add (Skipped _) n s = s\<lparr>se_skipped := se_skipped s + n\<rparr>"
| "fetch_add (Withheld _) n s = s\<lparr>se_withheld := se_withheld s + n\<rparr>"
| "fetch_add (Unreachable _) n s = s\<lparr>se_unreachable := se_unreachable s + n\<rparr>"
| "fetch_add Interrupted n s = s\<lparr>se_interrupted := se_interrupted s + n\<rparr>"
| "fetch_add Unasked n s = s\<lparr>se_unasked := se_unasked s + n\<rparr>"
| "fetch_add Unroutable n s = s\<lparr>se_unroutable := se_unroutable s + n\<rparr>"
| "fetch_add Undecided n s = s\<lparr>se_undecided := se_undecided s + n\<rparr>"

definition walk_along :: "permutation \<Rightarrow> settlements \<Rightarrow> settlements" where
  "walk_along order s = s\<lparr>se_cursor := along (se_cursor s) order\<rparr>"

definition record_outcome :: "outcome \<Rightarrow> settlements \<Rightarrow> settlements" where
  "record_outcome x s =
     (let s = fetch_add x 1 s
      in case settled_position x of
           Some position \<Rightarrow> s\<lparr>se_cursor := settle (se_cursor s) position\<rparr>
         | None \<Rightarrow> s)"

definition settlements_is_settled :: "u64 \<Rightarrow> settlements \<Rightarrow> bool" where
  "settlements_is_settled position s = cursor_is_settled (se_cursor s) position"

definition record_unsettled :: "outcome \<Rightarrow> settlements \<Rightarrow> settlements" where
  "record_unsettled x s =
     (case settled_position x of
        None \<Rightarrow> s
      | Some position \<Rightarrow>
          (let fresh = (\<not> cursor_is_settled (se_cursor s) position);
               s = s\<lparr>se_cursor := settle (se_cursor s) position\<rparr>
           in if fresh then fetch_add x 1 s else s))"

definition record_many :: "outcome \<Rightarrow> u64 \<Rightarrow> settlements \<Rightarrow> settlements" where
  "record_many x n s = fetch_add x n s"

definition settlements_checkpoint :: "settlements \<Rightarrow> checkpoint" where
  "settlements_checkpoint s = cursor_checkpoint (se_cursor s)"

definition settlements_settled_count :: "settlements \<Rightarrow> u64" where
  "settlements_settled_count s = cursor_settled_count (se_cursor s)"

definition count_outcome :: "outcome \<Rightarrow> settlements \<Rightarrow> u64" where
  "count_outcome x s = counter x s"

section \<open>Threads\<close>

datatype call = Record outcome | Record_unsettled outcome | Record_many outcome u64 | Walk_along permutation

fun perform :: "call \<Rightarrow> settlements \<Rightarrow> settlements" where
  "perform (Record x) s = record_outcome x s"
| "perform (Record_unsettled x) s = record_unsettled x s"
| "perform (Record_many x n) s = record_many x n s"
| "perform (Walk_along order) s = walk_along order s"

text \<open>
  The atomic actions: a \<open>fetch_add\<close>; a closure run under the lock that settles a position, tells a
  fresh one apart, or takes a walk.
\<close>

datatype act = Add outcome u64 | Lock_settle u64 | Lock_fresh u64 outcome | Lock_walk permutation

fun program :: "call \<Rightarrow> act list" where
  "program (Record x) =
     Add x 1 # (case settled_position x of Some position \<Rightarrow> [Lock_settle position] | None \<Rightarrow> [])"
| "program (Record_unsettled x) =
     (case settled_position x of None \<Rightarrow> [] | Some position \<Rightarrow> [Lock_fresh position x])"
| "program (Record_many x n) = [Add x n]"
| "program (Walk_along order) = [Lock_walk order]"

text \<open>What an action does, and what its thread then has to do first.\<close>

fun execute :: "act \<Rightarrow> settlements \<Rightarrow> settlements \<times> act list" where
  "execute (Add x n) s = (fetch_add x n s, [])"
| "execute (Lock_settle position) s = (s\<lparr>se_cursor := settle (se_cursor s) position\<rparr>, [])"
| "execute (Lock_fresh position x) s =
     (s\<lparr>se_cursor := settle (se_cursor s) position\<rparr>,
      if cursor_is_settled (se_cursor s) position then [] else [Add x 1])"
| "execute (Lock_walk order) s = (s\<lparr>se_cursor := along (se_cursor s) order\<rparr>, [])"

inductive sched :: "settlements \<times> act list list \<Rightarrow> settlements \<times> act list list \<Rightarrow> bool" where
  turn: "i < length ts \<Longrightarrow> ts ! i = a # rest \<Longrightarrow> execute a s = (s', todo) \<Longrightarrow>
    sched (s, ts) (s', ts[i := todo @ rest])"

inductive_cases schedE: "sched (s, ts) d"

end
