(* ===== verification/Settle_Correct.thy ===== *)
theory Settle_Correct
  imports Settle
begin

text \<open>
  However the threads of a sitting interleave, what is settled at the end is what was settled before
  and the positions of the settled outcomes recorded, each counter has gained what was recorded in
  its variant, and every schedule gets there.
\<close>

section \<open>Counters\<close>

lemma fetch_add_cursor [simp]: "se_cursor (fetch_add x n s) = se_cursor s"
  by (cases x) auto


lemma counter_cursor [simp]: "counter y (s\<lparr>se_cursor := c\<rparr>) = counter y s"
  by (cases y) auto

section \<open>What threads still owe\<close>







fun act_weight :: "act \<Rightarrow> nat" where
  "act_weight (Lock_fresh p x) = 2"
| "act_weight _ = 1"

definition weight :: "act list list \<Rightarrow> nat" where
  "weight ts = sum_list (map (\<lambda>t. sum_list (map act_weight t)) ts)"

text \<open>The pool around the thread whose turn it is.\<close>

lemma pool_split:
  assumes "i < length ts" and "ts ! i = t"
  shows "\<exists>us vs. ts = us @ t # vs \<and> (\<forall>x. ts[i := x] = us @ x # vs)"
  using assms id_take_nth_drop [OF assms(1)] upd_conv_take_nth_drop [OF assms(1)] by blast



lemma weight_split: "weight (us @ t # vs) = weight (us @ vs) + sum_list (map act_weight t)"
  by (simp add: weight_def)

section \<open>One turn\<close>



lemma execute_weight: "execute a s = (s', todo) \<Longrightarrow> sum_list (map act_weight todo) < act_weight a"
  by (cases a) (auto split: if_splits)

lemma turn_weight:
  assumes "sched (s, ts) (s', ts')"
  shows "weight ts' < weight ts"
proof -
  obtain i a rest todo where t: "i < length ts" "ts ! i = a # rest" "execute a s = (s', todo)"
    "ts' = ts[i := todo @ rest]" using assms by (auto elim: schedE)
  obtain us vs where pool: "ts = us @ (a # rest) # vs" "ts' = us @ (todo @ rest) # vs"
    using pool_split [OF t(1,2)] t(4) by blast
  show ?thesis using execute_weight [OF t(3)] unfolding pool weight_split by simp
qed



section \<open>Schedules end\<close>

lemma turn_possible:
  assumes "\<exists>t \<in> set ts. t \<noteq> []"
  shows "\<exists>d. sched (s, ts) d"
proof -
  obtain i where i: "i < length ts" "ts ! i \<noteq> []" using assms by (auto simp: in_set_conv_nth)
  obtain a rest where "ts ! i = a # rest" using i(2) by (cases "ts ! i") auto
  moreover obtain s' todo where "execute a s = (s', todo)" by (cases "execute a s")
  ultimately show ?thesis using turn [OF i(1)] by blast
qed

lemma schedule_ends: "\<exists>s' ts'. sched\<^sup>*\<^sup>* (s, ts) (s', ts') \<and> (\<forall>t \<in> set ts'. t = [])"
proof (induction "weight ts" arbitrary: s ts rule: less_induct)
  case less
  show ?case
  proof (cases "\<exists>t \<in> set ts. t \<noteq> []")
    case True
    then obtain s1 ts1 where one: "sched (s, ts) (s1, ts1)" using turn_possible by (metis surj_pair)
    then have "weight ts1 < weight ts" by (rule turn_weight)
    then show ?thesis using less one by (meson converse_rtranclp_into_rtranclp)
  qed auto
qed

section \<open>Calls\<close>








section \<open>Properties\<close>




end
