(* ===== verification/Mac.thy ===== *)
theory Mac
  imports Rust_Text "HOL-Library.List_Lexorder"
begin

text \<open>
  Hardware addresses, as in \<open>src/src/model/mac.rs\<close>: the six octets, the bits the engine reads off
  the first one, the text form in both directions, and the derived order.  The manufacturer lookup
  reads a database that is not part of the sources and is left out.
\<close>

unbundle bit_operations_syntax

datatype mac_addr = MacAddr u8 u8 u8 u8 u8 u8

datatype mac_addr_parse_error = MacAddrParseError string

definition mac_broadcast :: mac_addr where
  "mac_broadcast = MacAddr 0xff 0xff 0xff 0xff 0xff 0xff"

definition mac_zero :: mac_addr where
  "mac_zero = MacAddr 0 0 0 0 0 0"

fun octets :: "mac_addr \<Rightarrow> u8 list" where
  "octets (MacAddr a b c d e f) = [a, b, c, d, e, f]"

fun is_locally_administered :: "mac_addr \<Rightarrow> bool" where
  "is_locally_administered (MacAddr a _ _ _ _ _) = (a AND 2 \<noteq> 0)"

fun is_multicast :: "mac_addr \<Rightarrow> bool" where
  "is_multicast (MacAddr a _ _ _ _ _) = (a AND 1 \<noteq> 0)"

definition is_broadcast :: "mac_addr \<Rightarrow> bool" where
  "is_broadcast m \<longleftrightarrow> octets m = [0xff, 0xff, 0xff, 0xff, 0xff, 0xff]"

definition is_zero :: "mac_addr \<Rightarrow> bool" where
  "is_zero m \<longleftrightarrow> octets m = [0, 0, 0, 0, 0, 0]"

lemma octets_inject: "octets a = octets b \<longleftrightarrow> a = b"
  by (cases a; cases b) simp

text \<open>The derived order compares the octets from the first.\<close>

instantiation mac_addr :: linorder
begin

definition less_eq_mac_addr :: "mac_addr \<Rightarrow> mac_addr \<Rightarrow> bool" where
  "a \<le> b \<longleftrightarrow> octets a \<le> octets b"

definition less_mac_addr :: "mac_addr \<Rightarrow> mac_addr \<Rightarrow> bool" where
  "a < b \<longleftrightarrow> octets a < octets b"

instance
  by standard (auto simp: less_eq_mac_addr_def less_mac_addr_def simp flip: octets_inject)

end

section \<open>The text form\<close>

text \<open>\<open>char::to_digit(16)\<close>.\<close>

definition hex_digit :: "char \<Rightarrow> nat option" where
  "hex_digit c =
     (let n = of_char c :: nat in
      if is_ascii_digit c then Some (n - 48)
      else if 65 \<le> n \<and> n \<le> 70 then Some (n - 55)
      else if 97 \<le> n \<and> n \<le> 102 then Some (n - 87)
      else None)"

text \<open>
  \<open>u8::from_str_radix(_, 16)\<close>: an empty text, a lone sign and a character that is no digit are
  refused, one leading \<open>+\<close> is skipped, and a value past \<open>u8::MAX\<close> is refused.
\<close>

fun radix16_loop :: "u8 \<Rightarrow> string \<Rightarrow> u8 option" where
  "radix16_loop acc [] = Some acc"
| "radix16_loop acc (c # cs) =
     (case (checked_mul acc 16, hex_digit c) of
        (Some shifted, Some d) \<Rightarrow>
          (case checked_add shifted (of_nat d) of None \<Rightarrow> None | Some acc' \<Rightarrow> radix16_loop acc' cs)
      | _ \<Rightarrow> None)"

fun u8_from_str_radix16 :: "string \<Rightarrow> u8 option" where
  "u8_from_str_radix16 [] = None"
| "u8_from_str_radix16 [c] = (if c = CHR ''+'' \<or> c = CHR ''-'' then None else radix16_loop 0 [c])"
| "u8_from_str_radix16 (c # cs) = (if c = CHR ''+'' then radix16_loop 0 cs else radix16_loop 0 (c # cs))"

text \<open>
  One turn of the loop over the octets.  The length the source compares is in bytes; a part that has
  two bytes and is not two characters holds a character outside ASCII, which the number parser
  refuses, so both readings refuse it.
\<close>

definition mac_octet :: "string \<Rightarrow> u8 option" where
  "mac_octet part = (if length part \<noteq> 2 then None else u8_from_str_radix16 part)"

definition mac_from_str :: "string \<Rightarrow> mac_addr_parse_error + mac_addr" where
  "mac_from_str s =
     (case split_by (\<lambda>c. c = CHR '':'' \<or> c = CHR ''-'') (trim s) of
        [p, q, r, t, u, v] \<Rightarrow>
          (case (mac_octet p, mac_octet q, mac_octet r, mac_octet t, mac_octet u, mac_octet v) of
             (Some a, Some b, Some c, Some d, Some e, Some f) \<Rightarrow> Inr (MacAddr a b c d e f)
           | _ \<Rightarrow> Inl (MacAddrParseError s))
      | _ \<Rightarrow> Inl (MacAddrParseError s))"

definition hex_char :: "nat \<Rightarrow> char" where
  "hex_char d = (if d < 10 then char_of (48 + d) else char_of (87 + d))"

text \<open>\<open>{:02x}\<close> of an octet.\<close>

definition show_octet :: "u8 \<Rightarrow> string" where
  "show_octet w = [hex_char (unat w div 16), hex_char (unat w mod 16)]"

definition mac_display :: "mac_addr \<Rightarrow> string" where
  "mac_display m = join '':'' (map show_octet (octets m))"

lemma hex_digit_char: "d < 16 \<Longrightarrow> hex_digit (hex_char d) = Some d"
  by (auto simp: hex_digit_def hex_char_def is_ascii_digit_def)

lemma hex_char_range:
  "d < 16 \<Longrightarrow> 48 \<le> (of_char (hex_char d) :: nat) \<and> (of_char (hex_char d) :: nat) \<noteq> 58 \<and> (of_char (hex_char d) :: nat) \<le> 102"
  by (auto simp: hex_char_def)

lemma hex_char_plain:
  assumes "d < 16"
  shows "hex_char d \<noteq> CHR ''+''" "hex_char d \<noteq> CHR ''-''" "hex_char d \<noteq> CHR '':''" "\<not> is_whitespace (hex_char d)"
proof -
  have "(of_char (hex_char d) :: nat) \<notin> {43, 45, 58}" using hex_char_range [OF assms] by auto
  then show "hex_char d \<noteq> CHR ''+''" "hex_char d \<noteq> CHR ''-''" "hex_char d \<noteq> CHR '':''" by auto
  show "\<not> is_whitespace (hex_char d)" using hex_char_range [OF assms] by (auto simp: is_whitespace_def)
qed

lemma octet_nibbles: "unat (w :: u8) div 16 < 16" "unat w mod 16 < 16"
  using unat_lt_size [of w] by simp_all

lemma mac_octet_show: "mac_octet (show_octet w) = Some w"
proof -
  note n = octet_nibbles [of w]
  have "checked_mul (of_nat (unat w div 16)) (16 :: u8) = Some (of_nat (unat w div 16) * 16)"
    using n by (simp add: checked_mul_def uint_nat unat_of_nat) 
  moreover have "checked_add (of_nat (unat w div 16) * 16 :: u8) (of_nat (unat w mod 16)) = Some w"
    using n unfolding checked_add_Some by (auto simp: unat_word_ariths unat_of_nat word_unat_eq_iff)
  moreover have "checked_mul 0 (16 :: u8) = Some 0"
    "checked_add 0 (of_nat (unat w div 16) :: u8) = Some (of_nat (unat w div 16))"
    using n by (simp_all add: checked_mul_def checked_add_Some unat_of_nat)
  ultimately show ?thesis
    using n by (simp add: mac_octet_def show_octet_def hex_digit_char hex_char_plain)
qed

lemma show_octet_plain:
  "c \<in> set (show_octet w) \<Longrightarrow> c \<noteq> CHR '':'' \<and> c \<noteq> CHR ''-'' \<and> \<not> is_whitespace c"
  using octet_nibbles [of w] by (auto simp: show_octet_def hex_char_plain)

lemma split_octets:
  assumes "p sep" and "\<forall>w \<in> set ws. \<forall>c \<in> set w. \<not> p c" and "ws \<noteq> []"
  shows "split_by p (join [sep] ws) = ws"
  using assms(2,3)
proof (induction "[sep]" ws rule: join.induct)
  case (3 w v vs)
  then show ?case using split_by_append [of w p sep "join [sep] (v # vs)"] assms(1) by simp
qed (simp_all add: split_by_none)

lemma trim_plain: "\<forall>c \<in> set s. \<not> is_whitespace c \<Longrightarrow> trim s = s"
proof -
  assume *: "\<forall>c \<in> set s. \<not> is_whitespace c"
  then have "dropWhile is_whitespace s = s" "dropWhile is_whitespace (rev s) = rev s"
    by (auto simp: dropWhile_eq_self_iff hd_rev)
  then show "trim s = s" by (simp add: trim_def)
qed

lemma set_join: "set (join sep ws) \<subseteq> set sep \<union> (\<Union>w \<in> set ws. set w)"
  by (induction sep ws rule: join.induct) auto

lemma from_str_octets:
  assumes "sep = CHR '':'' \<or> sep = CHR ''-''"
  shows "mac_from_str (join [sep] (map show_octet (octets m))) = Inr m"
proof -
  let ?text = "join [sep] (map show_octet (octets m))"
  have "\<not> is_whitespace sep" using assms by (auto simp: is_whitespace_def)
  then have "\<forall>c \<in> set ?text. \<not> is_whitespace c"
    using set_join [of "[sep]" "map show_octet (octets m)"] show_octet_plain by auto
  then have "trim ?text = ?text" by (rule trim_plain)
  moreover have "split_by (\<lambda>c. c = CHR '':'' \<or> c = CHR ''-'') ?text = map show_octet (octets m)"
    using assms show_octet_plain by (intro split_octets) (auto, cases m, simp, cases m, simp)
  ultimately show ?thesis by (cases m) (simp add: mac_from_str_def mac_octet_show)
qed

text \<open>
  A hardware address reads back from its own rendering, and from the same octets written with
  hyphens.
\<close>

theorem mac_round_trip:
  "mac_from_str (mac_display m) = Inr m \<and> mac_from_str (join ''-'' (map show_octet (octets m))) = Inr m"
  using from_str_octets by (simp add: mac_display_def)

text \<open>An octet may carry the sign the number parser accepts: this text is not six hexadecimal octets.\<close>

lemma mac_sign_accepted: "mac_from_str ''+1:+2:+3:+4:+5:+6'' = Inr (MacAddr 1 2 3 4 5 6)"
  by code_simp

end
