(* ===== verification/Exclusion.thy ===== *)
theory Exclusion
  imports Target Mac
begin

text \<open>
  The addresses a scan may not touch, as in \<open>src/src/model/exclusion.rs\<close>: a policy over a set of
  addresses and their other spellings, how policies are layered, how a neighbour table widens one to
  the other addresses of the machines it names, and how targets are held to it.  A \<open>BTreeSet\<close> is
  the ascending list of its elements.
\<close>

unbundle bit_operations_syntax

text \<open>The derived order of addresses: IPv4 before IPv6, and by number in each.\<close>

fun ip_addr_le :: "ip_addr \<Rightarrow> ip_addr \<Rightarrow> bool" where
  "ip_addr_le (V4 a) (V4 b) = (a \<le> b)"
| "ip_addr_le (V4 _) (V6 _) = True"
| "ip_addr_le (V6 _) (V4 _) = False"
| "ip_addr_le (V6 a) (V6 b) = (a \<le> b)"

instantiation ip_addr :: linorder
begin

definition less_eq_ip_addr :: "ip_addr \<Rightarrow> ip_addr \<Rightarrow> bool" where
  "less_eq_ip_addr = ip_addr_le"

definition less_ip_addr :: "ip_addr \<Rightarrow> ip_addr \<Rightarrow> bool" where
  "less_ip_addr a b \<longleftrightarrow> ip_addr_le a b \<and> \<not> ip_addr_le b a"

instance
proof
  fix a b c :: ip_addr
  show "a < b \<longleftrightarrow> a \<le> b \<and> \<not> b \<le> a" by (simp add: less_eq_ip_addr_def less_ip_addr_def)
  show "a \<le> a" by (cases a) (simp_all add: less_eq_ip_addr_def)
  show "a \<le> b \<Longrightarrow> b \<le> c \<Longrightarrow> a \<le> c" by (cases a; cases b; cases c) (simp_all add: less_eq_ip_addr_def)
  show "a \<le> b \<Longrightarrow> b \<le> a \<Longrightarrow> a = b" by (cases a; cases b) (simp_all add: less_eq_ip_addr_def)
  show "a \<le> b \<or> b \<le> a" by (cases a; cases b) (auto simp: less_eq_ip_addr_def)
qed

end

definition btree_set :: "'a::linorder list \<Rightarrow> 'a list" where
  "btree_set xs = sorted_list_of_set (set xs)"

section \<open>The policy\<close>

record exclusions =
  ex_set :: ip_set
  ex_twins :: ip_set

text \<open>\<open>Ipv4Addr::to_ipv6_mapped\<close>: the address inside \<open>::ffff:0:0/96\<close>.\<close>

definition to_ipv6_mapped :: "ipv4_addr \<Rightarrow> ipv6_addr" where
  "to_ipv6_mapped a = push_bit 32 0xffff OR ucast a"

definition twin_v4 :: "ip_set \<Rightarrow> ipv4_range \<Rightarrow> ip_set" where
  "twin_v4 twins r =
     (case ipv6_new (to_ipv6_mapped (start_addr4 r)) (to_ipv6_mapped (end_addr4 r)) of
        Inr mapped \<Rightarrow> push_v6_range twins mapped
      | Inl _ \<Rightarrow> twins)"

definition twin_v6 :: "ip_set \<Rightarrow> ipv6_range \<Rightarrow> ip_set" where
  "twin_v6 twins r =
     (case spelled_ipv4 r of Some spelled \<Rightarrow> push_v4_range twins spelled | None \<Rightarrow> twins)"

definition twins_of :: "ip_set \<Rightarrow> ip_set" where
  "twins_of s = canonicalize (foldl twin_v6 (foldl twin_v4 ip_set_new (v4 s)) (v6 s))"

definition exclusions_none :: exclusions where
  "exclusions_none = \<lparr>ex_set = ip_set_new, ex_twins = ip_set_new\<rparr>"

definition exclusions_new :: "ip_set \<Rightarrow> exclusions" where
  "exclusions_new ips =
     (let ips' = canonicalize ips in \<lparr>ex_set = ips', ex_twins = twins_of ips'\<rparr>)"

definition exclusions_is_empty :: "exclusions \<Rightarrow> bool" where
  "exclusions_is_empty e = is_empty (ex_set e)"

definition excludes :: "exclusions \<Rightarrow> ip_addr \<Rightarrow> bool" where
  "excludes e ip =
     (if is_empty (ex_set e) then False else contains (ex_set e) ip \<or> contains (ex_twins e) ip)"

definition exclusions_ranges :: "exclusions \<Rightarrow> ip_range list" where
  "exclusions_ranges e = map RangeV4 (v4 (ex_set e)) @ map RangeV6 (v6 (ex_set e))"

definition exclusions_extend :: "exclusions \<Rightarrow> exclusions \<Rightarrow> exclusions" where
  "exclusions_extend e other =
     (if exclusions_is_empty other then e
      else let s = canonicalize (foldl push_v6_range (foldl push_v4_range (ex_set e) (v4 (ex_set other)))
                                   (v6 (ex_set other)))
           in e\<lparr>ex_set := s, ex_twins := twins_of s\<rparr>)"

section \<open>Machines\<close>

type_synonym neighbours = "(ip_addr \<times> mac_addr option) list"

definition hardware_in :: "exclusions \<Rightarrow> neighbours \<Rightarrow> mac_addr list" where
  "hardware_in e table =
     (if exclusions_is_empty e then []
      else btree_set (filter (\<lambda>mac. \<not> is_multicast mac \<and> octets mac \<noteq> [0, 0, 0, 0, 0, 0])
             (List.map_filter snd (filter (\<lambda>entry. excludes e (fst entry)) table))))"

definition tied_to :: "exclusions \<Rightarrow> mac_addr list \<Rightarrow> neighbours \<Rightarrow> ip_addr list" where
  "tied_to e machines table =
     (if machines = [] then []
      else btree_set (filter (\<lambda>ip. \<not> excludes e ip)
             (map fst (filter (\<lambda>entry. case snd entry of Some mac \<Rightarrow> mac \<in> set machines | None \<Rightarrow> False) table))))"

definition widened :: "exclusions \<Rightarrow> ip_addr list \<Rightarrow> exclusions" where
  "widened e addresses =
     (if addresses = [] then e else exclusions_new (foldl insert_addr (ex_set e) addresses))"

definition tied_in :: "exclusions \<Rightarrow> neighbours \<Rightarrow> exclusions" where
  "tied_in e table = widened e (tied_to e (hardware_in e table) table)"

section \<open>Withholding\<close>

definition withhold :: "exclusions \<Rightarrow> ip_set \<Rightarrow> (ip_set \<times> u128) option" where
  "withhold e ips =
     (if exclusions_is_empty e then Some (ips, 0)
      else (case subtract ips (ex_set e) of
              None \<Rightarrow> None
            | Some ips1 \<Rightarrow>
                (case subtract ips1 (ex_twins e) of
                   None \<Rightarrow> None
                 | Some ips2 \<Rightarrow> Some (ips2, saturating_sub (set_len ips) (set_len ips2)))))"

fun withhold_loop ::
  "exclusions \<Rightarrow> u128 \<Rightarrow> target_set list \<Rightarrow> target_set list \<Rightarrow> (target_set list \<times> u128) option" where
  "withhold_loop e withheld kept [] = Some (kept, withheld)"
| "withhold_loop e withheld kept (t # ts) =
     (case withhold e (set_ips t) of
        None \<Rightarrow> None
      | Some (ips, n) \<Rightarrow>
          withhold_loop e (saturating_add withheld n)
            (if \<not> is_empty ips then kept @ [target_set_new ips (set_ports t)] else kept) ts)"

definition withhold_targets :: "exclusions \<Rightarrow> target_map \<Rightarrow> (target_map \<times> u128) option" where
  "withhold_targets e m =
     (if exclusions_is_empty e then Some (m, 0)
      else (case withhold_loop e 0 [] (units m) of
              None \<Rightarrow> None
            | Some (kept, withheld) \<Rightarrow> Some (m\<lparr>units := kept\<rparr>, withheld)))"

end
