(* ===== verification/Exclusion_Correct.thy ===== *)
theory Exclusion_Correct
  imports Exclusion Target_Correct
begin

text \<open>
  What a policy excludes, and that withholding takes exactly that: nothing excluded is left among the
  targets in either spelling, and nothing else is lost.
\<close>

unbundle bit_operations_syntax

section \<open>The two spellings of an IPv4 address\<close>

lemma unat_mapped: "unat (to_ipv6_mapped a) = 0xffff * 2 ^ 32 + unat a"
proof -
  have "push_bit 32 x AND (ucast a :: u128) = 0" for x :: u128
    by (rule bit_eqI) (auto simp: bit_and_iff bit_push_bit_iff bit_ucast_iff dest: bit_imp_le_length)
  then have "to_ipv6_mapped a = push_bit 32 0xffff + ucast a"
    unfolding to_ipv6_mapped_def by (intro disjunctive_add_eq_or [symmetric])
  also have "push_bit 32 0xffff = (of_nat (0xffff * 2 ^ 32) :: u128)" by (simp add: push_bit_eq_mult)
  finally show ?thesis
    using unat_lt_size [of a] by (simp add: unat_word_ariths)
qed

lemma mapped_le: "to_ipv6_mapped a \<le> to_ipv6_mapped b \<longleftrightarrow> a \<le> b"
  by (simp add: word_le_nat_alt unat_mapped)

lemma div_mod_unique: "r < d \<Longrightarrow> (n :: nat) = q * d + r \<longleftrightarrow> n div d = q \<and> n mod d = r"
  by (auto simp: div_mult_mod_eq)

lemma to_ipv4_mapped_iff: "to_ipv4_mapped b = Some a \<longleftrightarrow> b = to_ipv6_mapped a"
proof -
  have "drop_bit 32 b = 0xffff \<longleftrightarrow> unat b div 2 ^ 32 = 0xffff"
    unfolding word_unat_eq_iff unat_drop_bit by simp
  moreover have "unat (ucast b :: u32) = unat b mod 2 ^ 32"
    by (simp add: unsigned_ucast_eq take_bit_eq_mod)
  moreover have "unat b = 0xffff * 2 ^ 32 + unat a \<longleftrightarrow> unat b div 2 ^ 32 = 0xffff \<and> unat b mod 2 ^ 32 = unat a"
    using unat_lt_size [of a] by (intro div_mod_unique) simp
  ultimately show ?thesis
    by (auto simp: to_ipv4_mapped_def word_unat_eq_iff [of b] word_unat_eq_iff [of _ a] unat_mapped)
qed

lemma mapped_between:
  assumes "to_ipv6_mapped a \<le> b" and "b \<le> to_ipv6_mapped c"
  obtains m where "b = to_ipv6_mapped m" and "a \<le> m" and "m \<le> c"
proof -
  let ?m = "of_nat (unat b - 0xffff * 2 ^ 32) :: u32"
  have le: "0xffff * 2 ^ 32 + unat a \<le> unat b" "unat b \<le> 0xffff * 2 ^ 32 + unat c"
    using assms by (simp_all add: word_le_nat_alt unat_mapped)
  then have "unat ?m = unat b - 0xffff * 2 ^ 32"
    using unat_lt_size [of c] by (intro unat_of_nat_lt) auto
  then have "b = to_ipv6_mapped ?m" "a \<le> ?m" "?m \<le> c"
    using le by (simp_all add: word_unat_eq_iff word_le_nat_alt unat_mapped)
  then show ?thesis by (rule that)
qed

section \<open>What a policy excludes\<close>

definition other_spellings :: "ip_set \<Rightarrow> ip_addr set" where
  "other_spellings s =
     {V6 (to_ipv6_mapped a) | a. V4 a \<in> addrs s}
     \<union> {V4 a | a. \<exists>r \<in> set (v6 s). \<exists>first last. start_addr6 r = to_ipv6_mapped first
            \<and> end_addr6 r = to_ipv6_mapped last \<and> first \<le> a \<and> a \<le> last}"

definition exclusions_inv :: "exclusions \<Rightarrow> bool" where
  "exclusions_inv e \<longleftrightarrow> ip_set_inv (ex_set e) \<and> \<not> v4_dirty (ex_set e) \<and> \<not> v6_dirty (ex_set e)
     \<and> ex_twins e = twins_of (ex_set e)"

definition forbidden :: "exclusions \<Rightarrow> ip_addr set" where
  "forbidden e = addrs (ex_set e) \<union> other_spellings (ex_set e)"

lemma twin_v4_correct:
  assumes "ip_set_inv s" and "ok4 r"
  shows "ip_set_inv (twin_v4 s r) \<and> scoped_addrs (twin_v4 s r)
    = scoped_addrs s \<union> {(V6 (to_ipv6_mapped a), None) | a. ipv4_contains r a}"
proof -
  let ?m = "\<lparr>start_addr6 = to_ipv6_mapped (start_addr4 r), end_addr6 = to_ipv6_mapped (end_addr4 r), zone6 = None\<rparr>"
  have t: "twin_v4 s r = insert_range s (RangeV6 ?m)"
    using assms(2) by (simp add: twin_v4_def ipv6_new_def ipv6_scoped_def mapped_le ok4_def)
  have "range_addrs (RangeV6 ?m) = {(V6 (to_ipv6_mapped a), None) | a. ipv4_contains r a}"
    by (auto simp: scoped6_def ipv6_contains_def ipv4_contains_def mapped_le elim: mapped_between)
  moreover have "range_ok (RangeV6 ?m)" using assms(2) by (simp add: ok4_def ok6_def mapped_le)
  ultimately show ?thesis using insert_range_correct [OF assms(1), of "RangeV6 ?m"] unfolding t by simp
qed

lemma spelled_ipv4_iff:
  "spelled_ipv4 r = Some q \<longleftrightarrow> start_addr6 r = to_ipv6_mapped (start_addr4 q)
     \<and> end_addr6 r = to_ipv6_mapped (end_addr4 q) \<and> ok4 q"
  by (cases q) (auto simp: spelled_ipv4_def ipv4_new_def ok4_def
      split: option.splits if_splits simp flip: to_ipv4_mapped_iff)

lemma twin_v6_correct:
  assumes "ip_set_inv s" and "ok6 r"
  shows "ip_set_inv (twin_v6 s r) \<and> scoped_addrs (twin_v6 s r)
    = scoped_addrs s \<union> {(V4 a, None) | a. \<exists>first last. start_addr6 r = to_ipv6_mapped first
            \<and> end_addr6 r = to_ipv6_mapped last \<and> first \<le> a \<and> a \<le> last}"
proof (cases "spelled_ipv4 r")
  case None
  have "\<not> (start_addr6 r = to_ipv6_mapped first \<and> end_addr6 r = to_ipv6_mapped last)" for first last
    using None assms(2) spelled_ipv4_iff [of r "\<lparr>start_addr4 = first, end_addr4 = last\<rparr>"]
    by (auto simp: ok4_def ok6_def mapped_le)
  then show ?thesis using None assms(1) by (auto simp: twin_v6_def)
next
  case (Some q)
  then have q: "start_addr6 r = to_ipv6_mapped (start_addr4 q)" "end_addr6 r = to_ipv6_mapped (end_addr4 q)" "ok4 q"
    by (simp_all add: spelled_ipv4_iff)
  have inj: "to_ipv6_mapped a = to_ipv6_mapped b \<longleftrightarrow> a = b" for a b
    by (metis mapped_le order.antisym order.refl)
  have "range_addrs (RangeV4 q) = {(V4 a, None) | a. \<exists>first last. start_addr6 r = to_ipv6_mapped first
            \<and> end_addr6 r = to_ipv6_mapped last \<and> first \<le> a \<and> a \<le> last}"
    by (auto simp: q inj scoped4_def ipv4_contains_def)
  then show ?thesis
    using insert_range_correct [OF assms(1), of "RangeV4 q"] q(3) Some by (simp add: twin_v6_def)
qed

lemma addrs_ex: "ip \<in> addrs s \<longleftrightarrow> (\<exists>z. (ip, z) \<in> scoped_addrs s)"
  by (force simp: addrs_def)

lemma twins_of_correct:
  assumes "ip_set_inv s"
  shows "ip_set_inv (twins_of s)" "\<not> v4_dirty (twins_of s)" "\<not> v6_dirty (twins_of s)"
    "addrs (twins_of s) = other_spellings s"
proof -
  let ?a = "foldl twin_v4 ip_set_new (v4 s)" and ?b = "foldl twin_v6 (foldl twin_v4 ip_set_new (v4 s)) (v6 s)"
  have ok: "\<forall>r \<in> set (v4 s). ok4 r" "\<forall>r \<in> set (v6 s). ok6 r" using assms by (simp_all add: ip_set_inv_def)
  have a: "ip_set_inv ?a \<and> scoped_addrs ?a = scoped_addrs ip_set_new
      \<union> (\<Union>r \<in> set (v4 s). {(V6 (to_ipv6_mapped a), None) | a. ipv4_contains r a})"
    by (rule foldl_adds [where ok = ok4, OF twin_v4_correct]) (use ip_set_new_correct ok(1) in simp_all)
  have b: "ip_set_inv ?b \<and> scoped_addrs ?b = scoped_addrs ?a
      \<union> (\<Union>r \<in> set (v6 s). {(V4 a, None) | a. \<exists>first last. start_addr6 r = to_ipv6_mapped first
            \<and> end_addr6 r = to_ipv6_mapped last \<and> first \<le> a \<and> a \<le> last})"
    by (rule foldl_adds [where ok = ok6, OF twin_v6_correct]) (use a ok(2) in simp_all)
  then have b': "ip_set_inv ?b" by blast
  note c = canonicalize_correct [OF b']
  show "ip_set_inv (twins_of s)" "\<not> v4_dirty (twins_of s)" "\<not> v6_dirty (twins_of s)"
    unfolding twins_of_def using c by blast+
  have "ip \<in> addrs (twins_of s) \<longleftrightarrow> (\<exists>z. (ip, z) \<in> scoped_addrs ?b)" for ip
    unfolding twins_of_def addrs_ex using c by simp
  then show "addrs (twins_of s) = other_spellings s"
    unfolding conjunct2 [OF b] conjunct2 [OF a] conjunct2 [OF ip_set_new_correct] other_spellings_def addrs_iff
    by (intro set_eqI) (auto, blast)
qed

lemma exclusions_new_inv: "ip_set_inv s \<Longrightarrow> exclusions_inv (exclusions_new s)"
  using canonicalize_correct [of s] by (simp add: exclusions_inv_def exclusions_new_def Let_def)

lemma empty_addrs: "ip_set_inv s \<Longrightarrow> is_empty s \<longleftrightarrow> scoped_addrs s = {}"
proof
  assume inv: "ip_set_inv s" and none: "scoped_addrs s = {}"
  have "v4 s = []"
  proof (rule ccontr)
    assume "v4 s \<noteq> []"
    then have "(V4 (start_addr4 (hd (v4 s))), None) \<in> scoped_addrs s"
      using inv by (auto simp: scoped_iff ip_set_inv_def ok4_def ipv4_contains_def intro!: bexI [of _ "hd (v4 s)"])
    then show False using none by simp
  qed
  moreover have "v6 s = []"
  proof (rule ccontr)
    assume "v6 s \<noteq> []"
    then have "(V6 (start_addr6 (hd (v6 s))), zone6 (hd (v6 s))) \<in> scoped_addrs s"
      using inv by (auto simp: scoped_iff ip_set_inv_def ok6_def ipv6_contains_def intro!: bexI [of _ "hd (v6 s)"])
    then show False using none by simp
  qed
  ultimately show "is_empty s" by (simp add: is_empty_def)
qed (simp add: is_empty_def scoped_addrs_def scoped4_def scoped6_def)

lemma excludes_iff:
  assumes "exclusions_inv e"
  shows "excludes e ip \<longleftrightarrow> ip \<in> forbidden e"
proof -
  have inv: "ip_set_inv (ex_set e)" "ex_twins e = twins_of (ex_set e)"
    using assms by (simp_all add: exclusions_inv_def)
  have "forbidden e = {}" if "is_empty (ex_set e)"
    using that by (auto simp: forbidden_def other_spellings_def addrs_def is_empty_def scoped_addrs_def
        scoped4_def scoped6_def)
  then show ?thesis
    using contains_iff [OF inv(1)] contains_iff [OF twins_of_correct(1) [OF inv(1)]] twins_of_correct(4) [OF inv(1)] inv(2)
    by (auto simp: excludes_def forbidden_def)
qed

section \<open>Layering policies\<close>

lemma push_v4_adds:
  "ip_set_inv s \<Longrightarrow> ok4 r \<Longrightarrow>
   ip_set_inv (push_v4_range s r) \<and> scoped_addrs (push_v4_range s r) = scoped_addrs s \<union> scoped4 [r]"
  using insert_range_correct [of s "RangeV4 r"] by simp

lemma push_v6_adds:
  "ip_set_inv s \<Longrightarrow> ok6 r \<Longrightarrow>
   ip_set_inv (push_v6_range s r) \<and> scoped_addrs (push_v6_range s r) = scoped_addrs s \<union> scoped6 [r]"
  using insert_range_correct [of s "RangeV6 r"] by simp

lemma extend_inv:
  assumes "exclusions_inv e" and "exclusions_inv other"
  shows "exclusions_inv (exclusions_extend e other)
    \<and> scoped_addrs (ex_set (exclusions_extend e other)) = scoped_addrs (ex_set e) \<union> scoped_addrs (ex_set other)"
proof (cases "exclusions_is_empty other")
  case True
  then show ?thesis using assms empty_addrs [of "ex_set other"]
    by (simp add: exclusions_extend_def exclusions_is_empty_def exclusions_inv_def)
next
  case False
  let ?a = "foldl push_v4_range (ex_set e) (v4 (ex_set other))"
  let ?b = "foldl push_v6_range ?a (v6 (ex_set other))"
  have inv: "ip_set_inv (ex_set e)" "ip_set_inv (ex_set other)" using assms by (simp_all add: exclusions_inv_def)
  have a: "ip_set_inv ?a \<and> scoped_addrs ?a = scoped_addrs (ex_set e) \<union> (\<Union>r \<in> set (v4 (ex_set other)). scoped4 [r])"
    by (rule foldl_adds [where ok = ok4, OF push_v4_adds]) (use inv in \<open>simp_all add: ip_set_inv_def\<close>)
  have b: "ip_set_inv ?b \<and> scoped_addrs ?b = scoped_addrs ?a \<union> (\<Union>r \<in> set (v6 (ex_set other)). scoped6 [r])"
    by (rule foldl_adds [where ok = ok6, OF push_v6_adds]) (use a inv in \<open>simp_all add: ip_set_inv_def\<close>)
  then have "ip_set_inv ?b" by blast
  note c = canonicalize_correct [OF this]
  have "scoped_addrs (ex_set other)
      = (\<Union>r \<in> set (v4 (ex_set other)). scoped4 [r]) \<union> (\<Union>r \<in> set (v6 (ex_set other)). scoped6 [r])"
    by (auto simp: scoped_addrs_def scoped4_def scoped6_def)
  then show ?thesis using False a b c
    by (simp add: exclusions_extend_def exclusions_inv_def Let_def Un_assoc)
qed

text \<open>
  A layer can only name more addresses, and every IPv4 address named stays excluded in its IPv6
  spelling.  The other direction is not kept: a range of the mapped block that merges into a wider
  one no longer speaks for IPv4, so a layer can let an address back in.
\<close>

lemma extend_names_more:
  assumes "exclusions_inv e" and "exclusions_inv other"
  shows "addrs (ex_set (exclusions_extend e other)) = addrs (ex_set e) \<union> addrs (ex_set other)"
  using extend_inv [OF assms] by (simp add: addrs_def image_Un)

definition mapped_layer :: exclusions where
  "mapped_layer = exclusions_new (from_range (RangeV6
     \<lparr>start_addr6 = to_ipv6_mapped 0x0a000000, end_addr6 = to_ipv6_mapped 0x0affffff, zone6 = None\<rparr>))"

definition every_ipv6_layer :: exclusions where
  "every_ipv6_layer = exclusions_new (from_range (RangeV6 \<lparr>start_addr6 = 0, end_addr6 = - 1, zone6 = None\<rparr>))"

lemma layer_lets_back_in:
  "excludes mapped_layer (V4 0x0a000001)
   \<and> \<not> excludes (exclusions_extend mapped_layer every_ipv6_layer) (V4 0x0a000001)"
  by code_simp

section \<open>Withholding\<close>

lemma by_position:
  fixes f :: "'a \<Rightarrow> nat"
  assumes "sorted_wrt (<) (map f xs)" and "sorted_wrt (<) (map f ys)" and "set xs = set ys"
  shows "xs = ys"
proof -
  have "map f xs = map f ys" using assms by (intro strict_sorted_equal) simp_all
  moreover have "inj_on f (set xs \<union> set ys)"
    using assms strict_sorted_iff [of "map f xs"] by (simp add: distinct_map)
  ultimately show ?thesis by (simp add: inj_on_map_eq_map)
qed

lemma iter_scoped_filter:
  assumes "ip_set_inv s" and "ip_set_inv s'" and "scoped_addrs s' = {x \<in> scoped_addrs s. P x}"
  shows "iter_scoped s' = filter P (iter_scoped s)"
proof -
  note m = eq_merged_correct [OF assms(1)] and m' = eq_merged_correct [OF assms(2)]
  let ?s = "eq_merged s" and ?s' = "eq_merged s'"
  have sc: "scoped_addrs ?s' = {x \<in> scoped_addrs ?s. P x}" using assms(3) m(4) m'(4) by simp
  have sorted: "sorted_wrt (<) (map line_pos (scoped_list4 (v4 t)))" "sorted_wrt (<) (map line_pos (scoped_list6 (v6 t)))"
    if "ip_set_inv t" "\<not> v4_dirty t" "\<not> v6_dirty t" for t
    unfolding line_pos_list4 line_pos_list6 using that by (auto intro!: enum_ivals_sorted simp: ip_set_inv_def)
  have narrowed: "sorted_wrt (<) (map line_pos xs) \<Longrightarrow> sorted_wrt (<) (map line_pos (filter P xs))" for xs
    by (simp add: sorted_wrt_map sorted_wrt_filter)
  have "scoped_list4 (v4 ?s') = filter P (scoped_list4 (v4 ?s))"
    by (rule by_position [OF sorted(1) narrowed [OF sorted(1)]])
      (use m m' sc in \<open>auto simp: set_scoped_list scoped_split\<close>)
  moreover have "scoped_list6 (v6 ?s') = filter P (scoped_list6 (v6 ?s))"
    by (rule by_position [OF sorted(2) narrowed [OF sorted(2)]])
      (use m m' sc in \<open>auto simp: set_scoped_list scoped_split\<close>)
  ultimately show ?thesis by (simp add: iter_scoped_lists)
qed

lemma set_iter_scoped: "ip_set_inv s \<Longrightarrow> set_iter s = map fst (iter_scoped s)"
  by (simp add: set_iter_lists iter_scoped_lists map_fst_scoped_list)

lemma set_iter_filter:
  assumes "ip_set_inv s" and "ip_set_inv s'" and "scoped_addrs s' = {x \<in> scoped_addrs s. Q (fst x)}"
  shows "set_iter s' = filter Q (set_iter s)"
  using iter_scoped_filter [OF assms] assms(1,2) by (simp add: set_iter_scoped filter_map comp_def)

text \<open>What withholding leaves of a set, and the count it gives.\<close>

lemma withhold_leaves:
  assumes "exclusions_inv e" and "ip_set_inv s"
  shows "\<exists>s' n. withhold e s = Some (s', n) \<and> ip_set_inv s'
    \<and> scoped_addrs s' = {x \<in> scoped_addrs s. \<not> excludes e (fst x)}
    \<and> unat n = unat (set_len s) - unat (set_len s')"
proof (cases "exclusions_is_empty e")
  case True
  then show ?thesis using assms(2) by (auto simp: withhold_def excludes_def exclusions_is_empty_def)
next
  case False
  have e: "ip_set_inv (ex_set e)" "ex_twins e = twins_of (ex_set e)" using assms(1) by (simp_all add: exclusions_inv_def)
  obtain a where a: "subtract s (ex_set e) = Some a" "ip_set_inv a" "scoped_addrs a = kept_from (scoped_addrs s) (ex_set e)"
    using subtract_total [OF assms(2) e(1)] by blast
  obtain b where b: "subtract a (ex_twins e) = Some b" "ip_set_inv b" "scoped_addrs b = kept_from (scoped_addrs a) (ex_twins e)"
    using subtract_total [OF a(2) twins_of_correct(1) [OF e(1)]] e(2) by auto
  have "scoped_addrs b = {x \<in> scoped_addrs s. \<not> excludes e (fst x)}"
    using a(3) b(3) e twins_of_correct(4) [OF e(1)]
    by (auto simp: kept_from_def excludes_iff [OF assms(1)] forbidden_def)
  then show ?thesis using False a b by (simp add: withhold_def unat_saturating_sub)
qed

lemma set_len_card:
  assumes "ip_set_inv s"
  shows "unat (set_len s) = min (card (scoped_addrs s)) (2 ^ 128 - 1)"
proof -
  note m = eq_merged_correct [OF assms]
  show ?thesis using unat_len_gross [OF m(1)] card_scoped_addrs [OF m(1-3)] m(4) by (simp only: set_len_canonical)
qed

definition withheld_from :: "exclusions \<Rightarrow> ip_set \<Rightarrow> nat" where
  "withheld_from e s = card {x \<in> scoped_addrs s. excludes e (fst x)}"

lemma withhold_count:
  assumes "ip_set_inv s" and "ip_set_inv s'" and "scoped_addrs s' = {x \<in> scoped_addrs s. \<not> excludes e (fst x)}"
    and "card (scoped_addrs s) < 2 ^ 128"
  shows "unat (set_len s) - unat (set_len s') = withheld_from e s"
proof -
  have fin: "finite (scoped_addrs s)" by (simp add: scoped_addrs_def finite_scoped)
  then have "card (scoped_addrs s) = card (scoped_addrs s') + withheld_from e s"
    unfolding assms(3) withheld_from_def
    by (subst card_Un_disjoint [symmetric]) (auto intro: arg_cong [of _ _ card])
  then show ?thesis using assms(4) by (simp add: set_len_card [OF assms(1)] set_len_card [OF assms(2)])
qed

lemma blocks_filter:
  "filter (\<lambda>t. Q (target_ip t)) (concat (map (\<lambda>ip. map (target_of ip) ps) ips))
   = concat (map (\<lambda>ip. map (target_of ip) ps) (filter Q ips))"
  by (induction ips) (auto simp: target_of_def filter_map comp_def)

lemma target_set_new_iter:
  assumes "ip_set_inv (set_ips t)" and "ip_set_inv s'" and "scoped_addrs s' = {x \<in> scoped_addrs (set_ips t). Q (fst x)}"
  shows "target_set_iter (target_set_new s' (set_ports t)) = filter (\<lambda>t. Q (target_ip t)) (target_set_iter t)"
proof -
  note c = canonicalize_correct [OF assms(2)]
  have "set_iter (canonicalize s') = filter Q (set_iter (set_ips t))"
    using set_iter_filter [OF assms(1) c(1)] c assms(3) by simp
  then show ?thesis by (simp add: target_set_iter_blocks target_set_new_def blocks_filter)
qed

lemma target_set_new_inv:
  "ip_set_inv s \<Longrightarrow> port_set_inv ps \<Longrightarrow> target_set_inv (target_set_new s ps)"
  using canonicalize_correct [of s] by (simp add: target_set_inv_def target_set_new_def)

lemma empty_no_targets: "is_empty s \<Longrightarrow> target_set_iter (target_set_new s ps) = []"
  by (simp add: is_empty_def target_set_iter_def target_set_new_def set_iter_def canonicalize_def
      canonicalize_v4_def canonicalize_v6_def merge_v4_def merge_v6_def into_iter_def)

lemma withhold_loop_correct:
  assumes "exclusions_inv e" and "\<forall>t \<in> set ts. target_set_inv t"
  shows "\<exists>kept' n. withhold_loop e w kept ts = Some (kept @ kept', n)
    \<and> (\<forall>t \<in> set kept'. target_set_inv t \<and> \<not> is_empty (set_ips t))
    \<and> concat (map target_set_iter kept')
        = filter (\<lambda>t. \<not> excludes e (target_ip t)) (concat (map target_set_iter ts))
    \<and> ((\<forall>t \<in> set ts. card (scoped_addrs (set_ips t)) < 2 ^ 128) \<longrightarrow>
         unat n = min (unat w + (\<Sum>t\<leftarrow>ts. withheld_from e (set_ips t))) (2 ^ 128 - 1))"
  using assms(2)
proof (induction ts arbitrary: w kept)
  case Nil
  then show ?case using unat_lt_size [of w] by simp
next
  case (Cons t ts)
  let ?Q = "\<lambda>ip. \<not> excludes e ip"
  have t: "ip_set_inv (set_ips t)" "port_set_inv (set_ports t)" using Cons.prems by (simp_all add: target_set_inv_def)
  obtain s' n where s': "withhold e (set_ips t) = Some (s', n)" "ip_set_inv s'"
    "scoped_addrs s' = {x \<in> scoped_addrs (set_ips t). ?Q (fst x)}"
    "unat n = unat (set_len (set_ips t)) - unat (set_len s')"
    using withhold_leaves [OF assms(1) t(1)] by blast
  let ?unit = "target_set_new s' (set_ports t)"
  let ?new = "if \<not> is_empty s' then [?unit] else []"
  obtain kept' m where m: "withhold_loop e (saturating_add w n) (kept @ ?new) ts = Some ((kept @ ?new) @ kept', m)"
    "\<forall>t \<in> set kept'. target_set_inv t \<and> \<not> is_empty (set_ips t)"
    "concat (map target_set_iter kept') = filter (\<lambda>t. ?Q (target_ip t)) (concat (map target_set_iter ts))"
    "(\<forall>t \<in> set ts. card (scoped_addrs (set_ips t)) < 2 ^ 128) \<longrightarrow>
       unat m = min (unat (saturating_add w n) + (\<Sum>t\<leftarrow>ts. withheld_from e (set_ips t))) (2 ^ 128 - 1)"
    using Cons.IH [of "saturating_add w n" "kept @ ?new"] Cons.prems by auto
  have "concat (map target_set_iter ?new) = filter (\<lambda>t. ?Q (target_ip t)) (target_set_iter t)"
    using target_set_new_iter [OF t(1) s'(2,3)] empty_no_targets [of s'] by auto
  moreover have "\<forall>t \<in> set ?new. target_set_inv t \<and> \<not> is_empty (set_ips t)"
  proof -
    note c = canonicalize_correct [OF s'(2)]
    then show ?thesis using target_set_new_inv [OF s'(2) t(2)] empty_addrs [OF s'(2)] empty_addrs [OF c(1)]
      by (simp add: target_set_new_def)
  qed
  moreover have "withhold_loop e w kept (t # ts) = Some (kept @ ?new @ kept', m)"
    using m(1) s'(1) by (cases "is_empty s'") simp_all
  moreover have "unat m = min (unat w + (\<Sum>t\<leftarrow>t # ts. withheld_from e (set_ips t))) (2 ^ 128 - 1)"
    if fits: "\<forall>t \<in> set (t # ts). card (scoped_addrs (set_ips t)) < 2 ^ 128"
    using m(4) s'(4) fits withhold_count [OF t(1) s'(2,3)] by (simp add: unat_saturating_add min_def)
  ultimately show ?case
    using m(2,3) by (intro exI [of _ "?new @ kept'"] exI [of _ m]) auto
qed

text \<open>
  C3. Holding a target map to a policy takes exactly the excluded targets: the targets left are, in
  the order of the walk, those whose address is excluded in neither spelling, and the map stays well
  formed with no empty unit.  The count is what the units lost, saturating at \<open>u128::MAX\<close>, as long as
  no unit holds \<open>2 ^ 128\<close> addresses or more.
\<close>

theorem withhold_targets_exact:
  assumes "exclusions_inv e" and "target_map_inv m"
  shows "\<exists>m' n. withhold_targets e m = Some (m', n) \<and> target_map_inv m'
    \<and> target_map_iter m' = filter (\<lambda>t. target_ip t \<notin> forbidden e) (target_map_iter m)
    \<and> ((\<forall>t \<in> set (units m). card (scoped_addrs (set_ips t)) < 2 ^ 128) \<longrightarrow>
         unat n = min (\<Sum>t\<leftarrow>units m. withheld_from e (set_ips t)) (2 ^ 128 - 1))"
proof (cases "exclusions_is_empty e")
  case True
  then have none: "\<not> excludes e ip" for ip by (simp add: excludes_def exclusions_is_empty_def)
  then have "withheld_from e s = 0" for s by (simp add: withheld_from_def)
  then show ?thesis
    using True none assms(2) by (simp add: withhold_targets_def flip: excludes_iff [OF assms(1)])
next
  case False
  then show ?thesis
    using withhold_loop_correct [OF assms(1), of "units m" 0 "[]"] assms(2)
    by (auto simp: withhold_targets_def target_map_inv_def target_map_iter_def simp flip: excludes_iff [OF assms(1)])
qed

text \<open>A policy that names an IPv4 address by its IPv6 spelling.\<close>

definition sample_policy :: exclusions where
  "sample_policy = exclusions_new (from_addrs [V6 (to_ipv6_mapped 0xc0000202), V6 0xfe800000000000000000000000000001])"

lemma sample_policy_inv: "exclusions_inv sample_policy"
  unfolding sample_policy_def from_addrs_def extend_set_def foldl.simps
  by (intro exclusions_new_inv canonicalize_correct(1) conjunct1 [OF insert_addr_correct] conjunct1 [OF ip_set_new_correct])

theorem withhold_targets_exact_witness:
  "\<exists>m' n. withhold_targets sample_policy sample_map = Some (m', n)
    \<and> target_map_iter m' = filter (\<lambda>t. target_ip t \<notin> forbidden sample_policy) (target_map_iter sample_map)
    \<and> V4 0xc0000202 \<in> forbidden sample_policy"
proof -
  have "excludes sample_policy (V4 0xc0000202)" by code_simp
  then show ?thesis
    using withhold_targets_exact [OF sample_policy_inv sample_map_inv] excludes_iff [OF sample_policy_inv] by blast
qed

section \<open>Machines\<close>


lemma set_btree_set [simp]: "set (btree_set xs) = set xs"
  by (simp add: btree_set_def)






end
