(* ===== verification/Float64.thy ===== *)
theory Float64
  imports Complex_Main Rust_Std
begin

text \<open>
  The \<open>f64\<close> arithmetic the pacing code uses: IEEE 754 binary64 with rounding to nearest, ties to even.
  A value is an exact rational or one of the special values; the sign of a zero, which nothing here
  reads, is not kept.  \<open>nearest\<close> is the rounding of an exact result, before an overflow becomes an
  infinity.
\<close>

datatype f64 = Fin rat | PosInf | NegInf | NaN

fun log2 :: "nat \<Rightarrow> nat" where
  "log2 n = (if n < 2 then 0 else Suc (log2 (n div 2)))"

declare log2.simps [simp del]

text \<open>The exponent of the power of two at or below a positive number.\<close>

definition binade :: "rat \<Rightarrow> int" where
  "binade x =
     (let (n, d) = quotient_of x; k = int (log2 (nat n)) - int (log2 (nat d))
      in if 2 powi k \<le> x then k else k - 1)"

definition round_even :: "rat \<Rightarrow> int" where
  "round_even x =
     (let f = \<lfloor>x\<rfloor>; d = x - of_int f
      in if d < 1 / 2 then f else if d > 1 / 2 then f + 1 else if even f then f else f + 1)"

text \<open>The exponent of the last place of a positive number: 53 bits, and no finer than \<open>2 ^ -1074\<close>.\<close>

definition last_place :: "rat \<Rightarrow> int" where
  "last_place x = max (binade x - 52) (- 1074)"

definition nearest :: "rat \<Rightarrow> rat" where
  "nearest x =
     (if x = 0 then 0
      else let e = last_place \<bar>x\<bar> in of_int (round_even (x / 2 powi e)) * 2 powi e)"

definition f64_limit :: rat where
  "f64_limit = 2 ^ 1024"

definition f64_of :: "rat \<Rightarrow> f64" where
  "f64_of x =
     (let r = nearest x
      in if r \<ge> f64_limit then PosInf else if r \<le> - f64_limit then NegInf else Fin r)"

fun f64_add :: "f64 \<Rightarrow> f64 \<Rightarrow> f64" where
  "f64_add (Fin x) (Fin y) = f64_of (x + y)"
| "f64_add NaN _ = NaN"
| "f64_add _ NaN = NaN"
| "f64_add PosInf NegInf = NaN"
| "f64_add NegInf PosInf = NaN"
| "f64_add PosInf _ = PosInf"
| "f64_add _ PosInf = PosInf"
| "f64_add NegInf _ = NegInf"
| "f64_add _ NegInf = NegInf"

fun f64_sign :: "f64 \<Rightarrow> int" where
  "f64_sign (Fin x) = sgn (\<lceil>x\<rceil> + \<lfloor>x\<rfloor>)"
| "f64_sign PosInf = 1"
| "f64_sign NegInf = - 1"
| "f64_sign NaN = 0"

definition f64_infinity :: "int \<Rightarrow> f64" where
  "f64_infinity s = (if s > 0 then PosInf else if s < 0 then NegInf else NaN)"

fun f64_mul :: "f64 \<Rightarrow> f64 \<Rightarrow> f64" where
  "f64_mul (Fin x) (Fin y) = f64_of (x * y)"
| "f64_mul NaN _ = NaN"
| "f64_mul _ NaN = NaN"
| "f64_mul x y = f64_infinity (f64_sign x * f64_sign y)"

text \<open>Division; a zero divisor is the positive zero.\<close>

fun f64_div :: "f64 \<Rightarrow> f64 \<Rightarrow> f64" where
  "f64_div (Fin x) (Fin y) = (if y = 0 then f64_infinity (f64_sign (Fin x)) else f64_of (x / y))"
| "f64_div NaN _ = NaN"
| "f64_div _ NaN = NaN"
| "f64_div (Fin _) _ = Fin 0"
| "f64_div x (Fin y) = f64_infinity (f64_sign x * (if y < 0 then - 1 else 1))"
| "f64_div _ _ = NaN"

fun f64_less :: "f64 \<Rightarrow> f64 \<Rightarrow> bool" where
  "f64_less NaN _ = False"
| "f64_less _ NaN = False"
| "f64_less (Fin x) (Fin y) = (x < y)"
| "f64_less PosInf _ = False"
| "f64_less _ NegInf = False"
| "f64_less NegInf _ = True"
| "f64_less _ PosInf = True"

text \<open>\<open>f64::max\<close> and \<open>f64::min\<close>: a NaN loses.\<close>

definition f64_max :: "f64 \<Rightarrow> f64 \<Rightarrow> f64" where
  "f64_max x y = (if x = NaN then y else if y = NaN then x else if f64_less x y then y else x)"

definition f64_min :: "f64 \<Rightarrow> f64 \<Rightarrow> f64" where
  "f64_min x y = (if x = NaN then y else if y = NaN then x else if f64_less y x then y else x)"

text \<open>\<open>f64 as usize\<close>: truncated, saturating at both ends, zero for a NaN.\<close>

fun f64_as_usize :: "f64 \<Rightarrow> nat" where
  "f64_as_usize (Fin x) = nat (min \<lfloor>x\<rfloor> (2 ^ 64 - 1))"
| "f64_as_usize PosInf = nat (2 ^ 64 - 1)"
| "f64_as_usize NegInf = 0"
| "f64_as_usize NaN = 0"

section \<open>Rounding\<close>

lemma log2_bounds: "0 < n \<Longrightarrow> 2 ^ log2 n \<le> n \<and> n < 2 ^ Suc (log2 n)"
proof (induction n rule: log2.induct)
  case (1 n)
  show ?case
  proof (cases "n < 2")
    case True
    then show ?thesis using 1 by (simp add: log2.simps)
  next
    case False
    with 1 show ?thesis by (simp add: log2.simps [of n]) linarith
  qed
qed

lemma log2_rat:
  assumes "0 < m"
  shows "(2::rat) powi int (log2 (nat m)) \<le> of_int m" and "of_int m < (2::rat) powi (int (log2 (nat m)) + 1)"
proof -
  have "2 ^ log2 (nat m) \<le> m" "m < 2 ^ Suc (log2 (nat m))"
    using log2_bounds [of "nat m"] assms by (simp_all add: le_nat_iff nat_less_iff)
  then have "(of_int (2 ^ log2 (nat m)) :: rat) \<le> of_int m" "(of_int m :: rat) < of_int (2 ^ Suc (log2 (nat m)))"
    by (simp_all only: of_int_le_iff of_int_less_iff)
  then show "(2::rat) powi int (log2 (nat m)) \<le> of_int m" "of_int m < (2::rat) powi (int (log2 (nat m)) + 1)"
    by (simp_all add: power_int_add)
qed

lemma binade_bounds:
  assumes "0 < x"
  shows "2 powi binade x \<le> x" and "x < 2 powi (binade x + 1)"
proof -
  obtain n d where nd: "quotient_of x = (n, d)" by (cases "quotient_of x")
  then have d: "d > 0" and x: "x = of_int n / of_int d" by (simp_all add: quotient_of_denom_pos quotient_of_div)
  with assms have n: "n > 0" by (simp add: zero_less_divide_iff)
  let ?ln = "int (log2 (nat n))" and ?ld = "int (log2 (nat d))"
  note bn = log2_rat [OF n] and bd = log2_rat [OF d]
  let ?k = "?ln - ?ld"
  have up: "x < 2 powi (?k + 1)"
  proof -
    have "x < 2 powi (?ln + 1) / 2 powi ?ld"
      unfolding x using bn bd d n by (intro frac_less) simp_all
    also have "\<dots> = 2 powi (?k + 1)" by (simp add: power_int_diff power_int_add algebra_simps)
    finally show ?thesis .
  qed
  have lo: "2 powi (?k - 1) \<le> x"
  proof -
    have "2 powi (?k - 1) = 2 powi ?ln / (2::rat) powi (?ld + 1)" by (simp add: power_int_diff power_int_add)
    also have "\<dots> \<le> x"
      unfolding x using bn bd d n by (intro frac_le) simp_all
    finally show ?thesis .
  qed
  show "2 powi binade x \<le> x" "x < 2 powi (binade x + 1)"
    using up lo by (auto simp: binade_def nd Let_def)
qed

lemma binade_mono:
  assumes "0 < x" and "x \<le> y"
  shows "binade x \<le> binade y"
proof (rule ccontr)
  assume "\<not> binade x \<le> binade y"
  then have "(2::rat) powi (binade y + 1) \<le> 2 powi binade x" by (intro power_int_increasing) auto
  then show False using binade_bounds(1) [OF assms(1)] binade_bounds(2) [of y] assms by linarith
qed

text \<open>Rounding to an integer stays between the integers around.\<close>

lemma round_even_le: "x \<le> of_int j \<Longrightarrow> round_even x \<le> j"
proof -
  assume le: "x \<le> of_int j"
  have "\<lfloor>x\<rfloor> \<le> j" using le by linarith
  moreover have "\<lfloor>x\<rfloor> = j \<Longrightarrow> x - of_int \<lfloor>x\<rfloor> < 1 / 2" using le by linarith
  ultimately have "\<lfloor>x\<rfloor> + 1 \<le> j \<or> (\<lfloor>x\<rfloor> \<le> j \<and> x - of_int \<lfloor>x\<rfloor> < 1 / 2)" by linarith
  then show ?thesis by (auto simp: round_even_def Let_def)
qed

lemma round_even_ge: "of_int j \<le> x \<Longrightarrow> j \<le> round_even x"
proof -
  assume "of_int j \<le> x"
  then have "j \<le> \<lfloor>x\<rfloor>" by linarith
  then show ?thesis by (auto simp: round_even_def Let_def)
qed

lemma round_even_int [simp]: "round_even (of_int j) = j"
  by (simp add: order.antisym round_even_le round_even_ge)

lemma round_even_mono:
  assumes "x \<le> y"
  shows "round_even x \<le> round_even y"
proof (cases "\<lfloor>x\<rfloor> = \<lfloor>y\<rfloor>")
  case True
  then show ?thesis using assms by (auto simp: round_even_def Let_def)
next
  case False
  then have "\<lfloor>x\<rfloor> + 1 \<le> \<lfloor>y\<rfloor>" using floor_mono [OF assms] by linarith
  then have "x \<le> of_int \<lfloor>y\<rfloor>" "of_int \<lfloor>y\<rfloor> \<le> y" by linarith+
  then show ?thesis using round_even_le round_even_ge order.trans by blast
qed

text \<open>The numbers the format holds: 53 bits at some exponent.\<close>

definition representable :: "rat \<Rightarrow> bool" where
  "representable x \<longleftrightarrow> (\<exists>m e. x = of_int m * 2 powi e \<and> \<bar>m\<bar> \<le> 2 ^ 53 \<and> - 1074 \<le> e)"

lemma representable_int: "\<bar>m\<bar> \<le> 2 ^ 53 \<Longrightarrow> representable (of_int m)"
  unfolding representable_def by (rule exI [of _ m], rule exI [of _ 0]) simp

lemma representable_pow: "- 1074 \<le> k \<Longrightarrow> representable (2 powi k)"
  unfolding representable_def by (rule exI [of _ 1], rule exI [of _ k]) simp

lemma nearest_pos: "0 < x \<Longrightarrow> nearest x = of_int (round_even (x / 2 powi last_place x)) * 2 powi last_place x"
  by (simp add: nearest_def Let_def)

text \<open>A representable number next to \<open>x\<close> is a whole number of last places of \<open>x\<close>.\<close>

lemma whole_places:
  assumes "0 < x" and "representable g" and "2 powi binade x \<le> g"
  shows "\<exists>j. g = of_int j * 2 powi last_place x"
proof -
  obtain m e where g: "g = of_int m * 2 powi e" "\<bar>m\<bar> \<le> 2 ^ 53" "- 1074 \<le> e"
    using assms(2) by (auto simp: representable_def)
  show ?thesis
  proof (cases "last_place x \<le> e")
    case True
    then have "g = of_int (m * 2 ^ nat (e - last_place x)) * 2 powi last_place x"
      by (simp add: g(1) flip: power_int_add power_int_of_nat)
    then show ?thesis by blast
  next
    case False
    then have lp: "last_place x = binade x - 52" "e + 53 \<le> binade x"
      using g(3) by (auto simp: last_place_def)
    have "of_int m \<le> (2 ^ 53 :: rat)" using g(2) by (metis abs_le_D1 of_int_le_iff of_int_numeral of_int_power)
    then have "g \<le> 2 ^ 53 * 2 powi e" unfolding g(1) by (intro mult_right_mono) simp_all
    also have "\<dots> = 2 powi (e + 53)" by (simp add: power_int_add)
    also have "\<dots> \<le> 2 powi binade x" using lp(2) by (intro power_int_increasing) simp_all
    finally have "g = 2 powi binade x" using assms(3) by simp
    also have "\<dots> = 2 powi (52 + last_place x)" by (simp add: lp(1))
    also have "\<dots> = of_int (2 ^ 52) * 2 powi last_place x" by (simp add: power_int_add)
    finally show ?thesis by blast
  qed
qed

lemma nearest_le:
  assumes "0 < x" and "representable g" and "x \<le> g"
  shows "nearest x \<le> g"
proof -
  let ?u = "(2::rat) powi last_place x"
  obtain j where j: "g = of_int j * ?u"
    using whole_places [OF assms(1,2)] binade_bounds(1) [OF assms(1)] assms(3) by fastforce
  have "x / ?u \<le> of_int j" using assms(3) by (simp add: j pos_divide_le_eq)
  then have "round_even (x / ?u) \<le> j" by (rule round_even_le)
  then show ?thesis by (simp add: nearest_pos [OF assms(1)] j)
qed

lemma nearest_ge:
  assumes "0 < x" and "representable g" and "g \<le> x" and "2 powi binade x \<le> g"
  shows "g \<le> nearest x"
proof -
  let ?u = "(2::rat) powi last_place x"
  obtain j where j: "g = of_int j * ?u" using whole_places [OF assms(1,2,4)] by blast
  have "of_int j \<le> x / ?u" using assms(3) by (simp add: j pos_le_divide_eq)
  then have "j \<le> round_even (x / ?u)" by (rule round_even_ge)
  then show ?thesis by (simp add: nearest_pos [OF assms(1)] j)
qed

lemma nearest_binade:
  assumes "0 < x" and "- 1074 \<le> binade x"
  shows "2 powi binade x \<le> nearest x"
  by (rule nearest_ge [OF assms(1) representable_pow [OF assms(2)] binade_bounds(1) [OF assms(1)]]) simp

lemma nearest_nonneg: "0 \<le> x \<Longrightarrow> 0 \<le> nearest x"
proof (cases "x = 0")
  case False
  assume "0 \<le> x"
  then have "0 < x" using False by simp
  moreover have "0 \<le> round_even (x / 2 powi last_place x)" using \<open>0 < x\<close> by (intro round_even_ge) simp
  ultimately show ?thesis by (simp add: nearest_pos)
qed (simp add: nearest_def)

lemma nearest_mono:
  assumes "0 < x" and "x \<le> y"
  shows "nearest x \<le> nearest y"
proof (cases "last_place x = last_place y")
  case True
  have "round_even (x / 2 powi last_place y) \<le> round_even (y / 2 powi last_place y)"
    using assms(2) by (intro round_even_mono divide_right_mono) simp_all
  then show ?thesis using assms by (simp add: nearest_pos True)
next
  case False
  have "binade x \<le> binade y" by (rule binade_mono [OF assms])
  then have up: "binade x < binade y" "- 1074 \<le> binade y" using False by (auto simp: last_place_def max_def split: if_splits)
  have "x \<le> 2 powi binade y"
  proof -
    have "(2::rat) powi (binade x + 1) \<le> 2 powi binade y" using up(1) by (intro power_int_increasing) simp_all
    then show ?thesis using binade_bounds(2) [OF assms(1)] by linarith
  qed
  then have "nearest x \<le> 2 powi binade y" by (rule nearest_le [OF assms(1) representable_pow [OF up(2)]])
  also have "\<dots> \<le> nearest y" using assms by (intro nearest_binade up(2)) simp
  finally show ?thesis .
qed

lemma nearest_representable:
  assumes "0 < x" and "representable x"
  shows "nearest x = x"
proof -
  obtain j where "x = of_int j * 2 powi last_place x"
    using whole_places [OF assms] binade_bounds(1) [OF assms(1)] by blast
  then have "x / 2 powi last_place x = of_int j" by (metis nonzero_mult_div_cancel_right power_int_not_zero zero_neq_numeral)
  then show ?thesis by (simp add: nearest_pos [OF assms(1)]) (metis \<open>x = of_int j * 2 powi last_place x\<close>)
qed

lemma representable_nearest:
  assumes "0 < x"
  shows "representable (nearest x)"
proof -
  let ?e = "last_place x" and ?m = "round_even (x / 2 powi last_place x)"
  have "x < 2 powi (binade x + 1)" by (rule binade_bounds(2) [OF assms])
  also have "\<dots> \<le> 2 powi (?e + 53)" by (intro power_int_increasing) (simp_all add: last_place_def)
  finally have "x / 2 powi ?e \<le> of_int (2 ^ 53)" by (simp add: power_int_add pos_divide_le_eq mult.commute)
  then have "?m \<le> 2 ^ 53" by (rule round_even_le)
  moreover have "0 \<le> ?m" using assms by (intro round_even_ge) simp
  ultimately show ?thesis
    unfolding nearest_pos [OF assms] representable_def
    by (intro exI [of _ ?m] exI [of _ ?e]) (simp add: last_place_def)
qed

text \<open>Overflow is decided by the exponent, without the limit itself.\<close>

lemma f64_limit_powi: "f64_limit = 2 powi 1024"
  by (simp only: f64_limit_def power_int_numeral)

lemma reaches_limit:
  assumes "0 < r"
  shows "f64_limit \<le> r \<longleftrightarrow> 1024 \<le> binade r"
proof
  assume "f64_limit \<le> r"
  then have "(2::rat) powi 1024 < 2 powi (binade r + 1)"
    unfolding f64_limit_powi using binade_bounds(2) [OF assms] by (rule order.strict_trans1)
  then have "1024 < binade r + 1"
    using power_int_increasing [of "binade r + 1" 1024 "2::rat"] by (meson linorder_not_less one_le_numeral)
  then show "1024 \<le> binade r" by simp
next
  assume "1024 \<le> binade r"
  then have "(2::rat) powi 1024 \<le> 2 powi binade r" by (rule power_int_increasing) simp
  then show "f64_limit \<le> r"
    unfolding f64_limit_powi using binade_bounds(1) [OF assms] by (rule order.trans)
qed

lemma f64_of_code [code]:
  "f64_of x =
     (let r = nearest x
      in if 0 < r \<and> 1024 \<le> binade r then PosInf else if r < 0 \<and> 1024 \<le> binade (- r) then NegInf else Fin r)"
proof -
  have pos: "0 < f64_limit" unfolding f64_limit_def by (rule zero_less_power) simp
  let ?r = "nearest x"
  have "f64_limit \<le> ?r \<longleftrightarrow> 0 < ?r \<and> 1024 \<le> binade ?r" using reaches_limit [of ?r] pos by linarith
  moreover have "?r \<le> - f64_limit \<longleftrightarrow> ?r < 0 \<and> 1024 \<le> binade (- ?r)" using reaches_limit [of "- ?r"] pos by linarith
  ultimately show ?thesis by (simp only: f64_of_def Let_def)
qed

section \<open>Operations on values in range\<close>

lemma representable_nat: "n \<le> 2 ^ 53 \<Longrightarrow> representable (of_nat n)"
  using representable_int [of "int n"] by simp

lemma nearest_zero [simp]: "nearest 0 = 0"
  by (simp add: nearest_def)

lemma nearest_fixed: "0 \<le> x \<Longrightarrow> representable x \<Longrightarrow> nearest x = x"
  using nearest_representable [of x] by (cases "x = 0") auto

lemma nearest_grows:
  assumes "0 \<le> w" and "representable w" and "w \<le> x"
  shows "w \<le> nearest x"
proof (cases "w = 0")
  case True
  then show ?thesis using assms(3) by (simp add: nearest_nonneg)
next
  case False
  then have "0 < w" using assms(1) by simp
  then show ?thesis using nearest_mono [OF _ assms(3)] nearest_fixed [OF assms(1,2)] by simp
qed

text \<open>A non-negative result is finite or overflows upwards, and a small one is finite.\<close>

lemma f64_limit_bounds: "(2::rat) ^ 53 < f64_limit" "0 < f64_limit"
  unfolding f64_limit_def by (rule power_strict_increasing) simp_all

lemma f64_of_cases:
  assumes "0 \<le> x"
  obtains "f64_of x = PosInf" | "f64_of x = Fin (nearest x)"
proof -
  have "\<not> nearest x \<le> - f64_limit" using nearest_nonneg [OF assms] f64_limit_bounds by linarith
  then show ?thesis using that by (cases "f64_limit \<le> nearest x") (simp_all add: f64_of_def Let_def)
qed

lemma f64_of_small:
  assumes "0 \<le> x" and "x \<le> 2 ^ 53"
  shows "f64_of x = Fin (nearest x)"
proof -
  have "nearest x \<le> 2 ^ 53"
  proof (cases "x = 0")
    case False
    then show ?thesis using nearest_le [of x "2 ^ 53"] representable_int [of "2 ^ 53"] assms by simp
  qed simp
  then have "\<not> f64_limit \<le> nearest x" using f64_limit_bounds by linarith
  moreover have "\<not> nearest x \<le> - f64_limit" using nearest_nonneg [OF assms(1)] f64_limit_bounds by linarith
  ultimately show ?thesis by (simp add: f64_of_def Let_def)
qed

end
