(* ===== verification/Congestion.thy ===== *)
theory Congestion
  imports Float64
begin

text \<open>
  How many probes a scan may have outstanding, after \<open>scanner/pacing/congestion.rs\<close>.  The window is an
  \<open>f64\<close>.  The balance of silence against answers is an \<open>i64\<close> in the source and an \<open>int\<close> here: it moves
  by at most five per outcome, so it would take more outcomes than a scan has to leave its range.
\<close>

definition SILENCE_WEIGHT :: int where "SILENCE_WEIGHT = 5"

definition LOSS_EVIDENCE :: int where "LOSS_EVIDENCE = 12 * SILENCE_WEIGHT"

record window_limits =
  wl_initial :: u32
  wl_floor :: u32
  wl_ceiling :: u32
  wl_slow_start_threshold :: u32

definition window_limits_new :: "u32 \<Rightarrow> u32 \<Rightarrow> u32 \<Rightarrow> u32 \<Rightarrow> window_limits" where
  "window_limits_new initial least most slow_start_threshold =
     \<lparr>wl_initial = initial, wl_floor = least, wl_ceiling = most, wl_slow_start_threshold = slow_start_threshold\<rparr>"

definition window_limits_fixed :: "u32 \<Rightarrow> window_limits" where
  "window_limits_fixed capacity =
     \<lparr>wl_initial = capacity, wl_floor = capacity, wl_ceiling = capacity, wl_slow_start_threshold = capacity\<rparr>"

definition adaptive :: "window_limits \<Rightarrow> bool" where
  "adaptive l \<longleftrightarrow> wl_floor l < wl_ceiling l"

record congestion_window =
  cw_limits :: window_limits
  cw_window :: f64
  cw_threshold :: f64
  cw_in_flight :: u32
  cw_since_reduction :: u32
  cw_epoch :: u32
  cw_peak :: nat
  cw_reductions :: u32
  cw_silence_evidence :: int
  cw_admission_over :: bool

record window_summary =
  ws_capacity :: nat
  ws_peak :: nat
  ws_reductions :: u32
  ws_adaptive :: bool
  ws_at_floor :: bool

text \<open>\<open>f64::from(u32)\<close> is exact; so is a \<open>u32\<close> widened to \<open>usize\<close>.\<close>

definition f64_from_u32 :: "u32 \<Rightarrow> f64" where
  "f64_from_u32 n = Fin (of_int (uint n))"

definition clamp :: "'a::linorder \<Rightarrow> 'a \<Rightarrow> 'a \<Rightarrow> 'a" where
  "clamp lo hi x = (if x < lo then lo else if x > hi then hi else x)"

definition congestion_new :: "window_limits \<Rightarrow> congestion_window" where
  "congestion_new limits =
     (let window = f64_from_u32 (clamp (wl_floor limits) (max (wl_ceiling limits) (wl_floor limits)) (wl_initial limits))
      in \<lparr>cw_limits = limits, cw_window = window, cw_threshold = f64_from_u32 (wl_slow_start_threshold limits),
          cw_in_flight = 0, cw_since_reduction = 0, cw_epoch = 0, cw_peak = f64_as_usize window,
          cw_reductions = 0, cw_silence_evidence = 0, cw_admission_over = False\<rparr>)"

definition capacity :: "congestion_window \<Rightarrow> nat" where
  "capacity c = max (f64_as_usize (cw_window c)) 1"

definition in_flight :: "congestion_window \<Rightarrow> nat" where
  "in_flight c = unat (cw_in_flight c)"

definition has_room :: "congestion_window \<Rightarrow> bool" where
  "has_room c \<longleftrightarrow> in_flight c < capacity c"

definition record_send :: "congestion_window \<Rightarrow> congestion_window" where
  "record_send c =
     c\<lparr>cw_in_flight := saturating_add (cw_in_flight c) 1,
       cw_since_reduction := saturating_add (cw_since_reduction c) 1\<rparr>"

definition record_resend :: "congestion_window \<Rightarrow> congestion_window" where
  "record_resend c = c\<lparr>cw_since_reduction := saturating_add (cw_since_reduction c) 1\<rparr>"

definition release :: "congestion_window \<Rightarrow> congestion_window" where
  "release c = c\<lparr>cw_in_flight := saturating_sub (cw_in_flight c) 1\<rparr>"

definition credit_in_flight :: "congestion_window \<Rightarrow> int" where
  "credit_in_flight c = - SILENCE_WEIGHT * uint (cw_in_flight c)"

definition observe_first_outcome :: "bool \<Rightarrow> congestion_window \<Rightarrow> congestion_window" where
  "observe_first_outcome silent c =
     c\<lparr>cw_silence_evidence :=
         max (cw_silence_evidence c + (if silent then SILENCE_WEIGHT else - 1)) (credit_in_flight c)\<rparr>"

definition record_progress :: "congestion_window \<Rightarrow> congestion_window" where
  "record_progress c =
     (if \<not> adaptive (cw_limits c) then c
      else let step = (if f64_less (cw_window c) (cw_threshold c) then Fin 1 else f64_div (Fin 1) (cw_window c));
               c' = c\<lparr>cw_window := f64_min (f64_add (cw_window c) step) (f64_from_u32 (wl_ceiling (cw_limits c)))\<rparr>
           in c'\<lparr>cw_peak := max (cw_peak c') (capacity c')\<rparr>)"

definition record_congestion :: "congestion_window \<Rightarrow> congestion_window" where
  "record_congestion c =
     (if \<not> adaptive (cw_limits c) \<or> cw_since_reduction c < cw_epoch c then c
      else let threshold = f64_max (f64_div (cw_window c) (Fin 2)) (f64_from_u32 (wl_floor (cw_limits c)));
               c' = c\<lparr>cw_threshold := threshold, cw_window := threshold\<rparr>
           in c'\<lparr>cw_epoch := of_nat (capacity c'), cw_since_reduction := 0,
                 cw_reductions := saturating_add (cw_reductions c') 1,
                 cw_silence_evidence := credit_in_flight c'\<rparr>)"

definition record_answer :: "congestion_window \<Rightarrow> congestion_window" where
  "record_answer c = record_progress (observe_first_outcome False c)"

definition record_loss :: "congestion_window \<Rightarrow> congestion_window" where
  "record_loss c = (if \<not> cw_admission_over c then record_congestion c else c)"

definition record_ambiguous_silence :: "congestion_window \<Rightarrow> congestion_window" where
  "record_ambiguous_silence c =
     (if \<not> cw_admission_over c
      then let c' = observe_first_outcome True c
           in if cw_silence_evidence c' > LOSS_EVIDENCE then record_congestion c' else c'
      else c)"

definition stop_admitting :: "congestion_window \<Rightarrow> congestion_window" where
  "stop_admitting c = c\<lparr>cw_admission_over := True\<rparr>"

definition release_all :: "congestion_window \<Rightarrow> congestion_window" where
  "release_all c = c\<lparr>cw_in_flight := 0\<rparr>"

definition window_summary_of :: "congestion_window \<Rightarrow> window_summary" where
  "window_summary_of c =
     \<lparr>ws_capacity = capacity c, ws_peak = cw_peak c, ws_reductions = cw_reductions c,
      ws_adaptive = adaptive (cw_limits c),
      ws_at_floor = (adaptive (cw_limits c) \<and> capacity c \<le> unat (wl_floor (cw_limits c)))\<rparr>"

section \<open>Scans\<close>

text \<open>
  What a scan reports to its window.  A first attempt is sent only when there is room; everything else
  may happen at any time.
\<close>

datatype signal =
    Send | Resend | Release | Answer | Loss | Ambiguous_silence | Progress | Congested | Stop_admitting | Release_all

fun heed :: "signal \<Rightarrow> congestion_window \<Rightarrow> congestion_window" where
  "heed Send c = record_send c"
| "heed Resend c = record_resend c"
| "heed Release c = release c"
| "heed Answer c = record_answer c"
| "heed Loss c = record_loss c"
| "heed Ambiguous_silence c = record_ambiguous_silence c"
| "heed Progress c = record_progress c"
| "heed Congested c = record_congestion c"
| "heed Stop_admitting c = stop_admitting c"
| "heed Release_all c = release_all c"

inductive paced :: "window_limits \<Rightarrow> congestion_window \<Rightarrow> bool" for limits where
  paced_new: "paced limits (congestion_new limits)"
| paced_heed: "paced limits c \<Longrightarrow> (x = Send \<longrightarrow> has_room c) \<Longrightarrow> paced limits (heed x c)"

end
