(* ===== verification/Congestion_Correct.thy ===== *)
theory Congestion_Correct
  imports Congestion
begin

text \<open>
  The window stays between its bounds whatever a scan reports, a scan that asks only when there is
  room never has more outstanding than the window has ever allowed, and one burst of losses is one
  reduction.
\<close>

declare of_nat_unat [simp del]

section \<open>Bounds\<close>

lemma f64_from_u32_nat: "f64_from_u32 n = Fin (of_nat (unat n))"
  by (simp add: f64_from_u32_def uint_nat)

definition most :: "window_limits \<Rightarrow> nat" where
  "most l = max (unat (wl_ceiling l)) (unat (wl_floor l))"

definition window_ok :: "window_limits \<Rightarrow> f64 \<Rightarrow> bool" where
  "window_ok l x \<longleftrightarrow> (\<exists>w. x = Fin w \<and> representable w \<and> of_nat (unat (wl_floor l)) \<le> w \<and> w \<le> of_nat (most l))"

lemma u32_representable: "representable (of_nat (unat (n :: u32)))"
  using unat_lt_size [of n] by (intro representable_nat) simp

lemma most_bound: "most l < 2 ^ 32"
  using unat_lt_size [of "wl_ceiling l"] unat_lt_size [of "wl_floor l"] by (simp add: most_def)

lemma window_okD:
  assumes "window_ok l x"
  obtains w where "x = Fin w" "representable w" "of_nat (unat (wl_floor l)) \<le> w" "w \<le> of_nat (most l)" "0 \<le> w" "w < 2 ^ 32"
proof -
  obtain w where w: "x = Fin w" "representable w" "of_nat (unat (wl_floor l)) \<le> w" "w \<le> of_nat (most l)"
    using assms by (auto simp: window_ok_def)
  moreover have "0 \<le> w" using w(3) order.trans of_nat_0_le_iff by blast
  moreover have "(of_nat (most l) :: rat) < 2 ^ 32"
    using most_bound [of l] by (metis of_nat_less_iff of_nat_numeral of_nat_power)
  ultimately show ?thesis using that by simp
qed

lemma window_ok_u32: "unat (wl_floor l) \<le> unat n \<Longrightarrow> unat n \<le> most l \<Longrightarrow> window_ok l (f64_from_u32 n)"
  by (auto simp: window_ok_def f64_from_u32_nat u32_representable)

lemma usize_mono: "x \<le> y \<Longrightarrow> f64_as_usize (Fin x) \<le> f64_as_usize (Fin y)"
  using floor_mono [of x y] by (auto intro!: nat_mono min.mono)

lemma usize_small: "0 \<le> x \<Longrightarrow> x < 2 ^ 32 \<Longrightarrow> f64_as_usize (Fin x) = nat \<lfloor>x\<rfloor>"
  by (simp add: min_def)

lemma grown_window:
  assumes "adaptive l" and "window_ok l x" and "step = Fin 1 \<or> step = f64_div (Fin 1) x"
  shows "window_ok l (f64_min (f64_add x step) (f64_from_u32 (wl_ceiling l)))
    \<and> f64_as_usize x \<le> f64_as_usize (f64_min (f64_add x step) (f64_from_u32 (wl_ceiling l)))"
proof -
  obtain w where w: "x = Fin w" "representable w" "of_nat (unat (wl_floor l)) \<le> w" "w \<le> of_nat (most l)" "0 \<le> w" "w < 2 ^ 32"
    using window_okD [OF assms(2)] .
  have ad: "unat (wl_floor l) < unat (wl_ceiling l)" using assms(1) by (simp add: adaptive_def word_less_nat_alt)
  then have top: "most l = unat (wl_ceiling l)" by (simp add: most_def)
  have "step = PosInf \<or> (\<exists>s \<ge> 0. step = Fin s)"
  proof -
    have "f64_div (Fin 1) x = PosInf \<or> (\<exists>s \<ge> 0. f64_div (Fin 1) x = Fin s)"
    proof (cases "w = 0")
      case True
      then show ?thesis by (simp add: w(1) f64_infinity_def)
    next
      case False
      have inv: "0 \<le> 1 / w" using w(5) by simp
      then show ?thesis
        using nearest_nonneg [OF inv] False w(1) by (cases rule: f64_of_cases [of "1 / w"]) auto
    qed
    then show ?thesis using assms(3) by auto
  qed
  then have "f64_add x step = PosInf \<or> (\<exists>r. f64_add x step = Fin r \<and> representable r \<and> w \<le> r)"
  proof
    assume "\<exists>s \<ge> 0. step = Fin s"
    then obtain s where s: "0 \<le> s" "step = Fin s" by blast
    have r: "0 \<le> w + s" using s w(5) by simp
    have "representable (nearest (w + s))"
      using representable_nearest [of "w + s"] r representable_nat [of 0] by (cases "w + s = 0") auto
    then show ?thesis
      using nearest_grows [OF w(5,2), of "w + s"] s w(1) by (auto intro: f64_of_cases [OF r])
  qed (simp add: w(1))
  then have "f64_min (f64_add x step) (f64_from_u32 (wl_ceiling l)) = f64_from_u32 (wl_ceiling l)
      \<or> (\<exists>r. f64_min (f64_add x step) (f64_from_u32 (wl_ceiling l)) = Fin r \<and> representable r \<and> w \<le> r
            \<and> r \<le> of_nat (unat (wl_ceiling l)))"
    by (auto simp: f64_min_def f64_from_u32_nat not_less)
  then consider (ceil) "f64_min (f64_add x step) (f64_from_u32 (wl_ceiling l)) = f64_from_u32 (wl_ceiling l)"
    | (grown) r where "f64_min (f64_add x step) (f64_from_u32 (wl_ceiling l)) = Fin r" "representable r" "w \<le> r"
        "r \<le> of_nat (unat (wl_ceiling l))"
    by blast
  then show ?thesis
  proof cases
    case ceil
    then show ?thesis
      using ad top w window_ok_u32 [of l "wl_ceiling l"] usize_mono by (simp add: f64_from_u32_nat del: f64_as_usize.simps)
  next
    case grown
    then show ?thesis
      using w top usize_mono by (simp add: window_ok_def del: f64_as_usize.simps)
  qed
qed

lemma cut_window:
  assumes "adaptive l" and "window_ok l x"
  shows "window_ok l (f64_max (f64_div x (Fin 2)) (f64_from_u32 (wl_floor l)))"
proof -
  obtain w where w: "x = Fin w" "representable w" "of_nat (unat (wl_floor l)) \<le> w" "w \<le> of_nat (most l)" "0 \<le> w" "w < 2 ^ 32"
    using window_okD [OF assms(2)] .
  have h: "0 \<le> w / 2" using w(5) by simp
  have "f64_div x (Fin 2) = Fin (nearest (w / 2))"
    using w f64_of_small [OF h] by simp
  moreover have "nearest (w / 2) \<le> w"
    using nearest_mono [of "w / 2" w] nearest_fixed [OF w(5,2)] w(5) by (cases "w = 0") auto
  moreover have "representable (nearest (w / 2))"
    using representable_nearest [of "w / 2"] w(5) representable_nat [of 0] by (cases "w = 0") auto
  ultimately show ?thesis
    using w by (auto simp: window_ok_def f64_max_def f64_from_u32_nat u32_representable most_def not_less)
qed

lemma usize_ok:
  assumes "window_ok l x"
  shows "unat (wl_floor l) \<le> f64_as_usize x" and "f64_as_usize x \<le> most l"
proof -
  obtain w where w: "x = Fin w" "representable w" "of_nat (unat (wl_floor l)) \<le> w" "w \<le> of_nat (most l)" "0 \<le> w" "w < 2 ^ 32"
    using window_okD [OF assms] .
  have "int (unat (wl_floor l)) \<le> \<lfloor>w\<rfloor>" "\<lfloor>w\<rfloor> \<le> int (most l)"
    using w(3,4) by (simp_all add: le_floor_iff floor_le_iff)
  then show "unat (wl_floor l) \<le> f64_as_usize x" "f64_as_usize x \<le> most l"
    using w(1,3) most_bound [of l] unat_lt_size [of "wl_floor l"] usize_small [OF w(5,6)]
    by (simp_all add: nat_le_iff le_nat_iff del: f64_as_usize.simps)
qed

definition window_inv :: "window_limits \<Rightarrow> congestion_window \<Rightarrow> bool" where
  "window_inv l c \<longleftrightarrow> cw_limits c = l \<and> window_ok l (cw_window c)
     \<and> f64_as_usize (cw_window c) \<le> cw_peak c \<and> cw_peak c \<le> most l \<and> in_flight c \<le> max 1 (cw_peak c)"

lemma progress_inv:
  assumes "window_inv l c"
  shows "window_inv l (record_progress c) \<and> f64_as_usize (cw_window c) \<le> f64_as_usize (cw_window (record_progress c))"
proof (cases "adaptive l")
  case True
  let ?step = "if f64_less (cw_window c) (cw_threshold c) then Fin 1 else f64_div (Fin 1) (cw_window c)"
  let ?x = "f64_min (f64_add (cw_window c) ?step) (f64_from_u32 (wl_ceiling l))"
  have g: "window_ok l ?x" "f64_as_usize (cw_window c) \<le> f64_as_usize ?x"
    using grown_window [OF True, of "cw_window c" ?step] assms by (auto simp: window_inv_def)
  moreover have "1 \<le> most l" using True by (simp add: adaptive_def most_def word_less_nat_alt)
  ultimately show ?thesis
    using True assms usize_ok(2) [OF g(1)]
    by (auto simp: window_inv_def record_progress_def Let_def capacity_def in_flight_def)
qed (use assms in \<open>simp add: record_progress_def window_inv_def\<close>)

lemma congestion_inv:
  assumes "window_inv l c"
  shows "window_inv l (record_congestion c)"
proof (cases "adaptive l \<and> \<not> cw_since_reduction c < cw_epoch c")
  case True
  let ?x = "f64_max (f64_div (cw_window c) (Fin 2)) (f64_from_u32 (wl_floor l))"
  have "window_ok l ?x" using cut_window True assms by (simp add: window_inv_def)
  moreover have "f64_as_usize ?x \<le> f64_as_usize (cw_window c)"
  proof -
    obtain w where w: "cw_window c = Fin w" "representable w" "of_nat (unat (wl_floor l)) \<le> w" "w \<le> of_nat (most l)" "0 \<le> w" "w < 2 ^ 32"
      using window_okD assms by (auto simp: window_inv_def)
    have "nearest (w / 2) \<le> w" "f64_of (w / 2) = Fin (nearest (w / 2))"
      using nearest_mono [of "w / 2" w] nearest_fixed [OF w(5,2)] w(5) f64_of_small [of "w / 2"] w(6) by (cases "w = 0"; simp)+
    then show ?thesis
      using w usize_mono by (auto simp: f64_max_def f64_from_u32_nat simp del: f64_as_usize.simps)
  qed
  ultimately show ?thesis using True assms by (simp add: record_congestion_def window_inv_def Let_def in_flight_def)
qed (use assms in \<open>auto simp: record_congestion_def window_inv_def\<close>)

lemma observe_inv: "window_inv l c \<Longrightarrow> window_inv l (observe_first_outcome b c)"
  by (simp add: window_inv_def observe_first_outcome_def in_flight_def)

lemma heed_inv:
  assumes "window_inv l c" and "x = Send \<longrightarrow> has_room c"
  shows "window_inv l (heed x c)"
proof (cases x)
  case Send
  then have "in_flight c < max (f64_as_usize (cw_window c)) 1" using assms(2) by (simp add: has_room_def capacity_def)
  then show ?thesis
    using Send assms(1) by (auto simp: window_inv_def record_send_def in_flight_def unat_saturating_add)
next
  case Release
  then show ?thesis using assms(1) by (auto simp: window_inv_def release_def in_flight_def unat_saturating_sub)
next
  case Answer
  then show ?thesis using progress_inv [OF observe_inv [OF assms(1)]] by (simp add: record_answer_def)
next
  case Loss
  then show ?thesis using congestion_inv assms(1) by (simp add: record_loss_def)
next
  case Ambiguous_silence
  then show ?thesis
    using congestion_inv observe_inv assms(1) by (simp add: record_ambiguous_silence_def Let_def)
next
  case Progress
  then show ?thesis using progress_inv [OF assms(1)] by simp
next
  case Congested
  then show ?thesis using congestion_inv [OF assms(1)] by simp
qed (use assms(1) in \<open>simp_all add: record_resend_def stop_admitting_def release_all_def window_inv_def in_flight_def\<close>)

lemma new_inv: "window_inv l (congestion_new l)"
proof -
  let ?n = "clamp (wl_floor l) (max (wl_ceiling l) (wl_floor l)) (wl_initial l)"
  have "unat (wl_floor l) \<le> unat ?n" "unat ?n \<le> most l"
    by (auto simp: clamp_def most_def max_def not_less word_le_nat_alt word_less_nat_alt)
  then have "window_ok l (f64_from_u32 ?n)" by (rule window_ok_u32)
  then show ?thesis
    using usize_ok(2) by (simp add: window_inv_def congestion_new_def Let_def in_flight_def)
qed

lemma paced_inv: "paced l c \<Longrightarrow> window_inv l c"
  by (induction rule: paced.induct) (simp_all add: new_inv heed_inv)

text \<open>
  C20. Whatever a scan reports, its window stays between the floor and the ceiling and allows at least
  one probe; a scan that sends a first attempt only when there is room never has more outstanding than
  the largest window it reached.
\<close>

theorem paced_window:
  assumes "paced l c"
  shows "unat (wl_floor l) \<le> capacity c \<and> 1 \<le> capacity c
    \<and> capacity c \<le> max 1 (max (unat (wl_ceiling l)) (unat (wl_floor l)))
    \<and> in_flight c \<le> max 1 (cw_peak c) \<and> cw_peak c \<le> max (unat (wl_ceiling l)) (unat (wl_floor l))"
proof -
  have inv: "window_inv l c" by (rule paced_inv [OF assms])
  then have "window_ok l (cw_window c)" by (simp add: window_inv_def)
  note u = usize_ok [OF this]
  show ?thesis using u inv by (auto simp: window_inv_def capacity_def most_def)
qed

definition sample_limits :: window_limits where
  "sample_limits = window_limits_new 32 4 1024 128"

definition sample_signals :: "signal list" where
  "sample_signals = [Send, Send, Answer, Release, Answer, Release, Congested, Congested, Loss]"

fun allowed :: "signal list \<Rightarrow> congestion_window \<Rightarrow> bool" where
  "allowed [] c = True"
| "allowed (x # xs) c = ((x = Send \<longrightarrow> has_room c) \<and> allowed xs (heed x c))"

lemma paced_fold: "paced l c \<Longrightarrow> allowed xs c \<Longrightarrow> paced l (fold heed xs c)"
  by (induction xs arbitrary: c) (auto intro: paced_heed)

theorem paced_window_witness:
  "4 \<le> capacity (fold heed sample_signals (congestion_new sample_limits))
   \<and> capacity (fold heed sample_signals (congestion_new sample_limits)) = 17"
proof -
  have "allowed sample_signals (congestion_new sample_limits)" by code_simp
  then have "paced sample_limits (fold heed sample_signals (congestion_new sample_limits))"
    by (rule paced_fold [OF paced_new])
  moreover have "wl_floor sample_limits = 4" by code_simp
  moreover have "capacity (fold heed sample_signals (congestion_new sample_limits)) = 17" by code_simp
  ultimately show ?thesis using paced_window by fastforce
qed

section \<open>One burst, one reduction\<close>

definition packets :: "signal list \<Rightarrow> nat" where
  "packets xs = length (filter (\<lambda>x. x = Send \<or> x = Resend) xs)"

definition settled_window :: "window_limits \<Rightarrow> congestion_window \<Rightarrow> bool" where
  "settled_window l c \<longleftrightarrow> cw_limits c = l \<and> window_ok l (cw_window c)"

lemma progress_window:
  assumes "settled_window l c"
  shows "settled_window l (record_progress c) \<and> capacity c \<le> capacity (record_progress c)
    \<and> cw_reductions (record_progress c) = cw_reductions c \<and> cw_epoch (record_progress c) = cw_epoch c
    \<and> cw_since_reduction (record_progress c) = cw_since_reduction c"
proof (cases "adaptive l")
  case True
  let ?step = "if f64_less (cw_window c) (cw_threshold c) then Fin 1 else f64_div (Fin 1) (cw_window c)"
  have "window_ok l (f64_min (f64_add (cw_window c) ?step) (f64_from_u32 (wl_ceiling l)))
    \<and> f64_as_usize (cw_window c) \<le> f64_as_usize (f64_min (f64_add (cw_window c) ?step) (f64_from_u32 (wl_ceiling l)))"
    using assms by (intro grown_window [OF True]) (simp_all add: settled_window_def)
  then show ?thesis using True assms by (auto simp: settled_window_def record_progress_def Let_def capacity_def)
qed (use assms in \<open>simp add: settled_window_def record_progress_def\<close>)

lemma damped: "cw_since_reduction c < cw_epoch c \<Longrightarrow> record_congestion c = c"
  by (simp add: record_congestion_def)

lemma observe_frame [simp]:
  "cw_limits (observe_first_outcome b c) = cw_limits c" "cw_window (observe_first_outcome b c) = cw_window c"
  "cw_reductions (observe_first_outcome b c) = cw_reductions c" "cw_epoch (observe_first_outcome b c) = cw_epoch c"
  "cw_since_reduction (observe_first_outcome b c) = cw_since_reduction c"
  "capacity (observe_first_outcome b c) = capacity c"
  by (simp_all add: observe_first_outcome_def capacity_def)

lemma heed_damped:
  assumes "settled_window l c" and "unat (cw_since_reduction c) + packets [x] < unat (cw_epoch c)"
  shows "settled_window l (heed x c) \<and> capacity c \<le> capacity (heed x c)
    \<and> cw_reductions (heed x c) = cw_reductions c \<and> cw_epoch (heed x c) = cw_epoch c
    \<and> unat (cw_since_reduction (heed x c)) = unat (cw_since_reduction c) + packets [x]"
proof -
  have idle: "record_congestion c = c" "record_congestion (observe_first_outcome True c) = observe_first_outcome True c"
    using assms(2) by (auto intro!: damped simp: word_less_nat_alt)
  note g = progress_window [OF assms(1)]
  have g': "settled_window l (observe_first_outcome False c)" using assms(1) by (simp add: settled_window_def)
  note g' = progress_window [OF g']
  show ?thesis
    using assms idle g g' unat_lt_size [of "cw_epoch c"]
    by (cases x) (simp_all add: packets_def record_send_def record_resend_def release_def record_answer_def record_loss_def
        record_ambiguous_silence_def Let_def stop_admitting_def release_all_def settled_window_def capacity_def unat_saturating_add)
qed

lemma fold_damped:
  assumes "settled_window l c" and "unat (cw_since_reduction c) + packets xs < unat (cw_epoch c)"
  shows "cw_reductions (fold heed xs c) = cw_reductions c \<and> capacity c \<le> capacity (fold heed xs c)"
  using assms
proof (induction xs arbitrary: c)
  case (Cons x xs)
  have split: "packets (x # xs) = packets [x] + packets xs" by (simp add: packets_def)
  note h = heed_damped [OF Cons.prems(1), of x]
  show ?case using Cons.IH [of "heed x c"] Cons.prems h unfolding split by fastforce
qed simp

lemma exact_half:
  assumes "1 \<le> w" and "representable w"
  shows "nearest (w / 2) = w / 2"
proof -
  obtain m e where m: "w = of_int m * 2 powi e" "\<bar>m\<bar> \<le> 2 ^ 53" "- 1074 \<le> e"
    using assms(2) by (auto simp: representable_def)
  have "- 1074 \<noteq> e"
  proof
    assume "- 1074 = e"
    have "of_int m \<le> (2 ^ 53 :: rat)" using m(2) by (metis abs_le_D1 of_int_le_iff of_int_numeral of_int_power)
    then have "w \<le> 2 ^ 53 * 2 powi e" unfolding m(1) by (intro mult_right_mono) simp_all
    also have "\<dots> = 2 powi (53 + e)" by (simp add: power_int_add)
    also have "\<dots> < 2 powi 0" using \<open>- 1074 = e\<close> by (intro power_int_strict_increasing) simp_all
    finally show False using assms(1) by simp
  qed
  then have "- 1074 \<le> e - 1" using m(3) by simp
  moreover have "w / 2 = of_int m * 2 powi (e - 1)" by (simp add: m(1) power_int_diff)
  ultimately have "representable (w / 2)" using m(2) unfolding representable_def by blast
  then show ?thesis using assms(1) by (intro nearest_fixed) simp_all
qed

lemma cut_capacity:
  assumes "settled_window l c" and "adaptive l" and "cw_epoch c \<le> cw_since_reduction c" and "1 \<le> unat (wl_floor l)"
  shows "capacity (record_congestion c) = max (unat (wl_floor l)) (capacity c div 2)"
proof -
  obtain w where w: "cw_window c = Fin w" "representable w" "of_nat (unat (wl_floor l)) \<le> w" "w \<le> of_nat (most l)" "0 \<le> w" "w < 2 ^ 32"
    using window_okD assms(1) by (auto simp: settled_window_def)
  have one: "1 \<le> w" using w(3) assms(4) by (metis of_nat_1 of_nat_le_iff order.trans)
  have half: "f64_div (cw_window c) (Fin 2) = Fin (w / 2)"
    using w f64_of_small [of "w / 2"] exact_half [OF one w(2)] by simp
  have fl: "\<lfloor>w / 2\<rfloor> = \<lfloor>w\<rfloor> div 2" by (rule floor_unique) linarith+
  let ?f = "unat (wl_floor l)"
  have top: "(of_nat ?f :: rat) < 2 ^ 32" using w(3,6) by linarith
  have n: "capacity c = nat \<lfloor>w\<rfloor>" using w one usize_small [of w] le_nat_iff [of "\<lfloor>w\<rfloor>" 1] by (simp add: capacity_def max_def)
  have "f64_max (Fin (w / 2)) (f64_from_u32 (wl_floor l)) = Fin (max (w / 2) (of_nat ?f))"
    by (simp add: f64_max_def f64_from_u32_nat max_def not_less)
  moreover have "f64_as_usize (Fin (max (w / 2) (of_nat ?f))) = nat \<lfloor>max (w / 2) (of_nat ?f)\<rfloor>"
    using w(5,6) top by (intro usize_small) auto
  moreover have "\<lfloor>max (w / 2) (of_nat ?f)\<rfloor> = max (\<lfloor>w\<rfloor> div 2) (int ?f)"
    by (simp add: max_of_mono [symmetric] floor_mono monoI fl)
  ultimately have "f64_as_usize (f64_max (Fin (w / 2)) (f64_from_u32 (wl_floor l))) = max (nat \<lfloor>w\<rfloor> div 2) ?f"
    using w(5) by (auto simp: max_def nat_div_distrib nat_le_iff)
  then show ?thesis
    using assms n half by (simp add: record_congestion_def Let_def settled_window_def capacity_def not_less max.commute)
qed

text \<open>
  C12. A reduction halves the window, down to the floor, and then nothing a scan reports reduces it
  again, or shrinks it at all, until as many packets have left as the reduced window holds: a burst of
  losses is one reduction.
\<close>

theorem one_cut_per_window:
  assumes "paced l c" and "adaptive l" and "1 \<le> unat (wl_floor l)" and "cw_epoch c \<le> cw_since_reduction c"
    and "packets xs < capacity (record_congestion c)"
  shows "capacity (record_congestion c) = max (unat (wl_floor l)) (capacity c div 2)
    \<and> cw_reductions (fold heed xs (record_congestion c)) = cw_reductions (record_congestion c)
    \<and> capacity (record_congestion c) \<le> capacity (fold heed xs (record_congestion c))"
proof -
  let ?c = "record_congestion c"
  have inv: "window_inv l c" "window_inv l ?c" using paced_inv [OF assms(1)] congestion_inv by blast+
  then have ok: "settled_window l c" "settled_window l ?c" by (simp_all add: window_inv_def settled_window_def)
  have "capacity ?c < 2 ^ 32"
    using usize_ok(2) [of l "cw_window ?c"] ok(2) most_bound [of l] by (simp add: settled_window_def capacity_def)
  moreover have "cw_since_reduction ?c = 0" "cw_epoch ?c = of_nat (capacity ?c)"
    using assms(2,4) ok(1) by (auto simp: record_congestion_def Let_def settled_window_def capacity_def)
  ultimately have "unat (cw_since_reduction ?c) + packets xs < unat (cw_epoch ?c)"
    using assms(5) by (simp add: unat_of_nat)
  then show ?thesis
    using fold_damped [OF ok(2)] cut_capacity [OF ok(1) assms(2,4,3)] by blast
qed

theorem one_cut_per_window_witness:
  "cw_reductions (fold heed [Congested, Resend, Loss, Congested, Ambiguous_silence] (record_congestion (congestion_new sample_limits))) = 1"
proof -
  let ?c = "congestion_new sample_limits"
  have "adaptive sample_limits" "1 \<le> unat (wl_floor sample_limits)" "cw_epoch ?c \<le> cw_since_reduction ?c"
    "packets [Congested, Resend, Loss, Congested, Ambiguous_silence] < capacity (record_congestion ?c)"
    "cw_reductions (record_congestion ?c) = 1" by code_simp+
  then show ?thesis using one_cut_per_window [OF paced_new [of sample_limits]] by metis
qed

end
