(* ===== verification/Durations.thy ===== *)
theory Durations
  imports Float64
begin

text \<open>
  \<open>Duration\<close> and \<open>Instant\<close> of the standard library, and the two helpers the pacing code shares: \<open>later\<close> of
  \<open>scanner/pacing/timer.rs\<close> and \<open>saturating_mul\<close> of \<open>scanner/pacing/retry.rs\<close>.  Both types are numbers of
  nanoseconds; an \<open>Instant\<close> counts from the clock's zero and reaches as far as the 64-bit seconds of a Unix
  clock.
\<close>

type_synonym duration = int
type_synonym instant = int

definition NANOS :: int where "NANOS = 1000000000"

definition DURATION_MAX :: duration where "DURATION_MAX = 2 ^ 64 * NANOS - 1"

definition INSTANT_MAX :: instant where "INSTANT_MAX = 2 ^ 63 * NANOS - 1"

definition FAR_FUTURE :: duration where "FAR_FUTURE = 30 * 365 * 24 * 60 * 60 * NANOS"

definition checked_later :: "instant \<Rightarrow> duration \<Rightarrow> instant option" where
  "checked_later t0 by_time = (if t0 + by_time \<le> INSTANT_MAX then Some (t0 + by_time) else None)"

definition later :: "instant \<Rightarrow> duration \<Rightarrow> instant" where
  "later t0 by_time =
     (case checked_later t0 by_time of
        Some t \<Rightarrow> t
      | None \<Rightarrow> (case checked_later t0 FAR_FUTURE of Some t \<Rightarrow> t | None \<Rightarrow> t0))"

definition saturating_duration_since :: "instant \<Rightarrow> instant \<Rightarrow> duration" where
  "saturating_duration_since now earlier = max 0 (now - earlier)"

definition saturating_add_duration :: "duration \<Rightarrow> duration \<Rightarrow> duration" where
  "saturating_add_duration a b = min (a + b) DURATION_MAX"

definition saturating_mul_duration :: "duration \<Rightarrow> u32 \<Rightarrow> duration" where
  "saturating_mul_duration a n = min (a * uint n) DURATION_MAX"

text \<open>\<open>Duration::as_secs_f64\<close> and \<open>Duration::try_from_secs_f64\<close>.\<close>

definition as_secs_f64 :: "duration \<Rightarrow> f64" where
  "as_secs_f64 d =
     f64_add (f64_of (of_int (d div NANOS))) (f64_div (f64_of (of_int (d mod NANOS))) (Fin (of_int NANOS)))"

fun try_from_secs_f64 :: "f64 \<Rightarrow> duration option" where
  "try_from_secs_f64 (Fin x) =
     (if x < 0 then None
      else let n = round_even (x * of_int NANOS) in if n \<le> DURATION_MAX then Some n else None)"
| "try_from_secs_f64 _ = None"

definition saturating_mul :: "duration \<Rightarrow> f64 \<Rightarrow> duration" where
  "saturating_mul d factor =
     (let seconds = f64_mul (as_secs_f64 d) factor
      in case try_from_secs_f64 seconds of
           Some t \<Rightarrow> t
         | None \<Rightarrow> (if f64_less (Fin 0) seconds then DURATION_MAX else 0))"

text \<open>
  \<open>Duration::mul_f64\<close>, the operators \<open>+\<close> and \<open>/\<close> and \<open>Sum\<close>, which panic past \<open>Duration::MAX\<close> or on a zero
  divisor.
\<close>

definition mul_f64 :: "duration \<Rightarrow> f64 \<Rightarrow> duration option" where
  "mul_f64 d factor = try_from_secs_f64 (f64_mul factor (as_secs_f64 d))"

definition add_duration :: "duration \<Rightarrow> duration \<Rightarrow> duration option" where
  "add_duration a b = (if a + b \<le> DURATION_MAX then Some (a + b) else None)"

definition div_duration :: "duration \<Rightarrow> u32 \<Rightarrow> duration option" where
  "div_duration a n = (if n = 0 then None else Some (a div uint n))"

primrec sum_durations :: "duration \<Rightarrow> duration list \<Rightarrow> duration option" where
  "sum_durations acc [] = Some acc"
| "sum_durations acc (d # ds) = Option.bind (add_duration acc d) (\<lambda>acc. sum_durations acc ds)"

lemma later_exact: "t0 + d \<le> INSTANT_MAX \<Longrightarrow> later t0 d = t0 + d"
  by (simp add: later_def checked_later_def)

end
