(* ===== verification/Telemetry.thy ===== *)
theory Telemetry
  imports Durations
begin

text \<open>
  What a scan has measured of a host, after \<open>model/host/telemetry.rs\<close>: a bounded window of round trips, the
  newest last, and its summaries.  The time of a sample is an argument where the source reads the clock.
\<close>

section \<open>Samples\<close>

definition DEFAULT_RTT_SAMPLES :: nat where "DEFAULT_RTT_SAMPLES = 10"

definition MIN_RTT_SAMPLES :: nat where "MIN_RTT_SAMPLES = 1"

datatype rtt_source = Direct | SegmentWide | FirstToNeighbour

datatype status_protocol =
    Arp | Ndp | IcmpEcho | IcmpTimestamp | IcmpUnreachable | TcpSyn | TcpConnect | TcpAny | Dhcp | UdpAny | SctpAny
  | CustomProtocol string

record rtt_sample =
  taken :: instant
  sample_rtt :: duration
  sample_source :: rtt_source
  sample_protocol :: "status_protocol option"

definition resolves_the_link :: "rtt_sample \<Rightarrow> bool" where
  "resolves_the_link s \<longleftrightarrow> sample_protocol s = Some Arp \<or> sample_protocol s = Some Ndp"

text \<open>The addition of the even case stays between two durations and cannot overflow.\<close>

definition median :: "duration list \<Rightarrow> duration option" where
  "median samples =
     (if samples = [] then None
      else let s = sort samples; mid = length s div 2
           in if length s mod 2 = 1 then Some (s ! mid)
              else Some (s ! (mid - 1) + (s ! mid - s ! (mid - 1)) div 2))"

section \<open>The window\<close>

record host_telemetry =
  rtt_history :: "rtt_sample list"
  max_samples :: nat
  hop_counter :: "u8 option"

definition telemetry_new :: "nat \<Rightarrow> host_telemetry" where
  "telemetry_new n = \<lparr>rtt_history = [], max_samples = max n MIN_RTT_SAMPLES, hop_counter = None\<rparr>"

definition telemetry_default :: host_telemetry where
  "telemetry_default = telemetry_new DEFAULT_RTT_SAMPLES"

text \<open>The loop that drops the oldest while there are too many.\<close>

fun drop_oldest :: "nat \<Rightarrow> 'a list \<Rightarrow> 'a list" where
  "drop_oldest n [] = []"
| "drop_oldest n (x # xs) = (if length (x # xs) > n then drop_oldest n xs else x # xs)"

definition set_max_samples :: "nat \<Rightarrow> host_telemetry \<Rightarrow> host_telemetry" where
  "set_max_samples n t =
     t\<lparr>max_samples := max n MIN_RTT_SAMPLES, rtt_history := drop_oldest (max n MIN_RTT_SAMPLES) (rtt_history t)\<rparr>"

definition push_sample :: "rtt_sample \<Rightarrow> host_telemetry \<Rightarrow> host_telemetry" where
  "push_sample s t =
     (if max_samples t = 0 then t else t\<lparr>rtt_history := drop_oldest (max_samples t) (rtt_history t @ [s])\<rparr>)"

definition has_direct :: "host_telemetry \<Rightarrow> bool" where
  "has_direct t \<longleftrightarrow> (\<exists>s \<in> set (rtt_history t). sample_source s = Direct)"

definition direct :: "host_telemetry \<Rightarrow> duration list" where
  "direct t = map sample_rtt (filter (\<lambda>s. sample_source s = Direct) (rtt_history t))"

definition min_of :: "duration list \<Rightarrow> duration option" where
  "min_of ds = (case ds of [] \<Rightarrow> None | d # ds' \<Rightarrow> Some (fold min ds' d))"

definition max_of :: "duration list \<Rightarrow> duration option" where
  "max_of ds = (case ds of [] \<Rightarrow> None | d # ds' \<Rightarrow> Some (fold max ds' d))"

definition tightest_bound :: "host_telemetry \<Rightarrow> duration option" where
  "tightest_bound t = min_of (map sample_rtt (rtt_history t))"

definition round_trips :: "host_telemetry \<Rightarrow> duration list" where
  "round_trips t =
     (if \<not> has_direct t then (case tightest_bound t of None \<Rightarrow> [] | Some d \<Rightarrow> [d])
      else let crossed = map sample_rtt (filter (\<lambda>s. sample_source s = Direct \<and> \<not> resolves_the_link s) (rtt_history t))
           in if crossed = [] then direct t else crossed)"

definition add_rtt_at :: "instant \<Rightarrow> duration \<Rightarrow> status_protocol option \<Rightarrow> host_telemetry \<Rightarrow> host_telemetry" where
  "add_rtt_at now rtt protocol =
     push_sample \<lparr>taken = now, sample_rtt = rtt, sample_source = Direct, sample_protocol = protocol\<rparr>"

definition add_rtt :: "instant \<Rightarrow> duration \<Rightarrow> host_telemetry \<Rightarrow> host_telemetry" where
  "add_rtt now rtt = add_rtt_at now rtt None"

definition add_rtt_from :: "instant \<Rightarrow> duration \<Rightarrow> status_protocol \<Rightarrow> host_telemetry \<Rightarrow> host_telemetry" where
  "add_rtt_from now rtt protocol = add_rtt_at now rtt (Some protocol)"

definition restore_rtt ::
  "instant \<Rightarrow> duration \<Rightarrow> rtt_source \<Rightarrow> status_protocol option \<Rightarrow> host_telemetry \<Rightarrow> host_telemetry" where
  "restore_rtt now rtt src protocol =
     push_sample \<lparr>taken = now, sample_rtt = rtt, sample_source = src, sample_protocol = protocol\<rparr>"

definition add_first_to_neighbour_rtt_from ::
  "instant \<Rightarrow> duration \<Rightarrow> status_protocol \<Rightarrow> host_telemetry \<Rightarrow> host_telemetry" where
  "add_first_to_neighbour_rtt_from now rtt protocol =
     push_sample \<lparr>taken = now, sample_rtt = rtt, sample_source = FirstToNeighbour, sample_protocol = Some protocol\<rparr>"

definition add_segment_wide_rtt :: "instant \<Rightarrow> duration \<Rightarrow> host_telemetry \<Rightarrow> host_telemetry" where
  "add_segment_wide_rtt now rtt =
     push_sample \<lparr>taken = now, sample_rtt = rtt, sample_source = SegmentWide, sample_protocol = None\<rparr>"

definition add_segment_wide_rtt_from ::
  "instant \<Rightarrow> duration \<Rightarrow> status_protocol \<Rightarrow> host_telemetry \<Rightarrow> host_telemetry" where
  "add_segment_wide_rtt_from now rtt protocol =
     push_sample \<lparr>taken = now, sample_rtt = rtt, sample_source = SegmentWide, sample_protocol = Some protocol\<rparr>"

definition rtt_protocol :: "host_telemetry \<Rightarrow> status_protocol option" where
  "rtt_protocol t =
     (case List.map_filter sample_protocol (rtt_history t) of
        [] \<Rightarrow> None
      | p # ps \<Rightarrow> (if list_all (\<lambda>q. q = p) ps then Some p else None))"

definition record_hop_counter :: "u8 \<Rightarrow> host_telemetry \<Rightarrow> host_telemetry" where
  "record_hop_counter arrived t = t\<lparr>hop_counter := Some arrived\<rparr>"

section \<open>Summaries\<close>

definition min_rtt :: "host_telemetry \<Rightarrow> duration option" where
  "min_rtt t = (if has_direct t then min_of (direct t) else tightest_bound t)"

definition max_rtt :: "host_telemetry \<Rightarrow> duration option" where
  "max_rtt t = (if has_direct t then max_of (direct t) else tightest_bound t)"

definition median_rtt :: "host_telemetry \<Rightarrow> duration option" where
  "median_rtt t = (if \<not> has_direct t then tightest_bound t else median (direct t))"

definition median_round_trip :: "host_telemetry \<Rightarrow> duration option" where
  "median_round_trip t = median (round_trips t)"

definition round_trips_resolve_the_link :: "host_telemetry \<Rightarrow> bool" where
  "round_trips_resolve_the_link t \<longleftrightarrow>
     (let ds = filter (\<lambda>s. sample_source s = Direct) (rtt_history t)
      in ds \<noteq> [] \<and> list_all resolves_the_link ds)"

definition average_rtt :: "host_telemetry \<Rightarrow> duration option" where
  "average_rtt t =
     (if \<not> has_direct t then tightest_bound t
      else case fold (\<lambda>rtt (acc, count). (saturating_add_duration acc rtt, saturating_add count (1 :: u32)))
                  (direct t) (0, 0) of
             (acc, count) \<Rightarrow> (if count > 0 then Some (acc div uint count) else None))"

fun gaps_of :: "duration \<Rightarrow> duration list \<Rightarrow> duration \<Rightarrow> u32 \<Rightarrow> duration \<times> u32" where
  "gaps_of prev [] acc n = (acc, n)"
| "gaps_of prev (d # ds) acc n =
     gaps_of d ds (saturating_add_duration acc \<bar>d - prev\<bar>) (saturating_add n 1)"

definition telemetry_jitter :: "host_telemetry \<Rightarrow> duration option" where
  "telemetry_jitter t =
     (case direct t of
        [] \<Rightarrow> None
      | d # ds \<Rightarrow> (case gaps_of d ds 0 0 of (acc, n) \<Rightarrow> (if n > 0 then Some (acc div uint n) else None)))"

section \<open>Joining two windows\<close>

definition take_window :: "host_telemetry \<Rightarrow> host_telemetry \<Rightarrow> host_telemetry" where
  "take_window t newer =
     (if rtt_history newer = [] then t
      else let n = max (max_samples t) (max_samples newer)
           in t\<lparr>max_samples := n, rtt_history := drop_oldest n (rtt_history newer)\<rparr>)"

definition merge_telemetry :: "host_telemetry \<Rightarrow> host_telemetry \<Rightarrow> host_telemetry" where
  "merge_telemetry t other =
     (let t = (case hop_counter other of Some h \<Rightarrow> t\<lparr>hop_counter := Some h\<rparr> | None \<Rightarrow> t);
          t = (if max_samples other > max_samples t then t\<lparr>max_samples := max_samples other\<rparr> else t)
      in if max_samples t = 0 then t
         else let combined = sort_key taken (rtt_history t @ rtt_history other)
              in t\<lparr>rtt_history := drop (length combined - max_samples t) combined\<rparr>)"

end
