(* ===== verification/Retry.thy ===== *)
theory Retry
  imports Durations Telemetry Ip_Range
begin

text \<open>
  Asking again, after \<open>scanner/pacing/retry.rs\<close>: the retry policy, the round-trip estimate, and the ledger
  of outstanding probes with its timers.

  A \<open>HashMap\<close> is a map.  A \<open>BinaryHeap\<close> is
  the list of its entries, and which of several entries with the same deadline it yields first is left
  open by its documentation, so that choice is the parameter \<open>peek\<close>.  The precision of \<open>f64::powi\<close> is
  left open by the language, so it is the parameter \<open>powi64\<close>.  The array of an attempt's tokens is the list
  of its filled slots, which are always the first ones.

  The products \<open>Duration * u32\<close> of the estimator panic past \<open>Duration::MAX\<close>; they are written here without
  that bound, and \<open>estimate_stays_in_range\<close> in \<open>Retry_Run\<close> shows that no round trip below an eighth of
  it -- seventy billion years -- reaches it.  The count of a host's outstanding probes wraps like the word it is,
  as in a release build.
\<close>

unbundle bit_operations_syntax

section \<open>The policy\<close>

record silent_host_policy =
  sh_threshold :: u16
  sh_reduced_attempts :: u8

record retry_policy =
  max_attempts :: u8
  initial_rto :: duration
  min_rto :: duration
  max_rto :: duration
  backoff :: f64
  jitter_spread :: f64
  silent_host :: "silent_host_policy option"
  cross_host_estimate :: bool

definition silent_host_policy_new :: "u16 \<Rightarrow> u8 \<Rightarrow> silent_host_policy" where
  "silent_host_policy_new threshold reduced_attempts =
     \<lparr>sh_threshold = threshold, sh_reduced_attempts = reduced_attempts\<rparr>"

definition retry_policy_new ::
  "u8 \<Rightarrow> duration \<Rightarrow> duration \<Rightarrow> duration \<Rightarrow> f64 \<Rightarrow> f64 \<Rightarrow> silent_host_policy option \<Rightarrow> retry_policy" where
  "retry_policy_new attempts initial lowest highest factor share silent =
     \<lparr>max_attempts = attempts, initial_rto = initial, min_rto = lowest, max_rto = highest, backoff = factor,
      jitter_spread = share, silent_host = silent, cross_host_estimate = True\<rparr>"

definition without_cross_host_estimate :: "retry_policy \<Rightarrow> retry_policy" where
  "without_cross_host_estimate p = p\<lparr>cross_host_estimate := False\<rparr>"

datatype scan_effort = Single | Fast | Balanced | Thorough

text \<open>\<open>RetryConfig\<close>: the attempt count is a \<open>NonZeroU8\<close> and the scale a positive finite factor.\<close>

record retry_config =
  effort :: scan_effort
  config_max_attempts :: "u8 option"
  timeout_scale :: "f64 option"
  dampen_silent_hosts :: bool

definition scaled :: "retry_policy \<Rightarrow> f64 \<Rightarrow> retry_policy" where
  "scaled p factor =
     p\<lparr>initial_rto := saturating_mul (initial_rto p) factor,
       max_rto := max (saturating_mul (max_rto p) factor) (min_rto p)\<rparr>"

text \<open>The factors \<open>0.6\<close> and \<open>1.5\<close> of the effort levels, as the nearest \<open>f64\<close>.\<close>

definition configured :: "retry_policy \<Rightarrow> retry_config \<Rightarrow> retry_policy" where
  "configured p config =
     (let q = (case effort config of
                 Single \<Rightarrow> p\<lparr>max_attempts := 1\<rparr>
               | Fast \<Rightarrow> scaled (p\<lparr>max_attempts := max (saturating_sub (max_attempts p) 1) 1\<rparr>) (f64_of (6 / 10))
               | Balanced \<Rightarrow> p
               | Thorough \<Rightarrow> scaled (p\<lparr>max_attempts := saturating_add (max_attempts p) 2\<rparr>) (f64_of (15 / 10)));
          q = (if effort config = Thorough \<or> \<not> dampen_silent_hosts config then q\<lparr>silent_host := None\<rparr> else q);
          q = (case config_max_attempts config of Some n \<Rightarrow> q\<lparr>max_attempts := n\<rparr> | None \<Rightarrow> q)
      in case timeout_scale config of Some s \<Rightarrow> scaled q s | None \<Rightarrow> q)"

definition f64_clamp01 :: "f64 \<Rightarrow> f64" where
  "f64_clamp01 x = (if f64_less x (Fin 0) then Fin 0 else if f64_less (Fin 1) x then Fin 1 else x)"

definition longest_timeout :: "retry_policy \<Rightarrow> duration" where
  "longest_timeout p =
     saturating_mul (max (max_rto p) (min_rto p)) (f64_add (Fin 1) (f64_clamp01 (jitter_spread p)))"

definition longest_probe_lifetime :: "retry_policy \<Rightarrow> duration" where
  "longest_probe_lifetime p = saturating_mul_duration (longest_timeout p) (ucast (max (max_attempts p) 1))"

definition longest_spaced_probe_lifetime :: "retry_policy \<Rightarrow> duration option \<Rightarrow> duration" where
  "longest_spaced_probe_lifetime p gap =
     saturating_mul_duration (max (longest_timeout p) (case gap of Some g \<Rightarrow> g | None \<Rightarrow> 0))
       (ucast (max (max_attempts p) 1))"

section \<open>Round trips\<close>

definition ANSWERING_ONE_IN :: int where "ANSWERING_ONE_IN = 10"

definition MIN_HEADROOM_DIVISOR :: int where "MIN_HEADROOM_DIVISOR = 4"

record rtt_estimator =
  smoothed :: "duration option"
  variation :: duration
  is_seeded :: bool

definition estimator_default :: rtt_estimator where
  "estimator_default = \<lparr>smoothed = None, variation = 0, is_seeded = False\<rparr>"

definition record_rtt :: "duration \<Rightarrow> rtt_estimator \<Rightarrow> rtt_estimator" where
  "record_rtt sample e =
     (case (if is_seeded e then None else smoothed e) of
        None \<Rightarrow> \<lparr>smoothed = Some sample, variation = sample div 2, is_seeded = False\<rparr>
      | Some s \<Rightarrow>
          \<lparr>smoothed = Some ((s * 7 + sample) div 8),
           variation = (variation e * 3 + \<bar>s - sample\<bar>) div 4, is_seeded = False\<rparr>)"

definition rtt_timeout :: "rtt_estimator \<Rightarrow> duration option" where
  "rtt_timeout e =
     map_option (\<lambda>s. saturating_add_duration s (max (variation e * 4) (s div MIN_HEADROOM_DIVISOR))) (smoothed e)"

definition estimator_is_empty :: "rtt_estimator \<Rightarrow> bool" where
  "estimator_is_empty e \<longleftrightarrow> smoothed e = None"

definition seed_rtt :: "duration \<Rightarrow> rtt_estimator \<Rightarrow> rtt_estimator" where
  "seed_rtt rtt e = (if estimator_is_empty e then (record_rtt rtt e)\<lparr>is_seeded := True\<rparr> else e)"

section \<open>One probe\<close>

definition MAX_TRACKED_ATTEMPTS :: nat where "MAX_TRACKED_ATTEMPTS = 4"

record 't attempt =
  at_token :: 't
  sent_at :: instant
  at_witnessed :: bool

record ('t, 'p) probe_record =
  payload :: 'p
  pr_host :: ip_addr
  attempts :: "'t attempt list"
  sends :: u8
  witnessed :: u8
  recorded :: u8
  budget :: u8
  generation :: u32
  deferred :: bool

definition record_new :: "ip_addr \<Rightarrow> u8 \<Rightarrow> u32 \<Rightarrow> 'p \<Rightarrow> ('t, 'p) probe_record" where
  "record_new host b g p =
     \<lparr>payload = p, pr_host = host, attempts = [], sends = 1, witnessed = 0, recorded = 0, budget = b,
      generation = g, deferred = False\<rparr>"

definition record_attempt :: "'t \<Rightarrow> instant \<Rightarrow> ('t, 'p) probe_record \<Rightarrow> ('t, 'p) probe_record" where
  "record_attempt token t0 r =
     (let fresh = \<lparr>at_token = token, sent_at = t0, at_witnessed = False\<rparr>
      in r\<lparr>recorded := saturating_add (recorded r) 1,
           attempts := (if length (attempts r) = MAX_TRACKED_ATTEMPTS then tl (attempts r) else attempts r) @ [fresh]\<rparr>)"

fun mark_seen :: "'t \<Rightarrow> 't attempt list \<Rightarrow> 't attempt list \<times> bool" where
  "mark_seen token [] = ([], False)"
| "mark_seen token (a # as) =
     (if at_token a = token
      then (if at_witnessed a then (a # as, False) else (a\<lparr>at_witnessed := True\<rparr> # as, True))
      else (case mark_seen token as of (as', seen) \<Rightarrow> (a # as', seen)))"

definition record_witness :: "'t \<Rightarrow> ('t, 'p) probe_record \<Rightarrow> ('t, 'p) probe_record \<times> bool" where
  "record_witness token r =
     (case mark_seen token (attempts r) of
        (as, seen) \<Rightarrow>
          (if seen then (r\<lparr>attempts := as, witnessed := saturating_add (witnessed r) 1\<rparr>, True) else (r, False)))"

fun find_token :: "'t \<Rightarrow> 't attempt list \<Rightarrow> (nat \<times> instant) option" where
  "find_token token [] = None"
| "find_token token (a # as) =
     (if at_token a = token then Some (0, sent_at a)
      else map_option (\<lambda>(slot, t0). (Suc slot, t0)) (find_token token as))"

definition attempt_of :: "'t \<Rightarrow> ('t, 'p) probe_record \<Rightarrow> (u8 \<times> instant) option" where
  "attempt_of token r =
     map_option (\<lambda>(slot, t0). (saturating_sub (recorded r) (of_nat (length (attempts r) - 1 - slot)), t0))
       (find_token token (attempts r))"

definition unambiguous_sent_at :: "('t, 'p) probe_record \<Rightarrow> instant option" where
  "unambiguous_sent_at r =
     (if sends r \<noteq> 1 then None
      else (case attempts r of [] \<Rightarrow> None | a # _ \<Rightarrow> Some (sent_at a)))"

section \<open>The ledger\<close>

record host_state =
  estimator :: rtt_estimator
  outstanding :: u32
  answers :: u32
  silences :: u32
  exhausted_silently :: u16

definition host_default :: host_state where
  "host_default =
     \<lparr>estimator = estimator_default, outstanding = 0, answers = 0, silences = 0, exhausted_silently = 0\<rparr>"

definition budget_for :: "retry_policy \<Rightarrow> host_state option \<Rightarrow> u8" where
  "budget_for p host =
     (case (silent_host p, host) of
        (Some rule, Some h) \<Rightarrow>
          (if answers h = 0 \<and> exhausted_silently h \<ge> sh_threshold rule
           then min (sh_reduced_attempts rule) (max_attempts p) else max_attempts p)
      | _ \<Rightarrow> max_attempts p)"

record 'k probe_timer =
  due_at :: instant
  tm_key :: 'k
  tm_generation :: u32

datatype ('k, 'p) due = Retry 'k u8 | Exhausted 'k 'p u8 u8

record 'p resolution =
  rs_payload :: 'p
  rs_rtt :: "duration option"
  rs_attempts :: u8
  rs_answered_attempt :: "u8 option"

record ('k, 't, 'p) ledger =
  policy :: retry_policy
  probe_records :: "'k \<rightharpoonup> ('t, 'p) probe_record"
  timers :: "'k probe_timer list"
  hosts :: "ip_addr \<rightharpoonup> host_state"
  global_rtt :: rtt_estimator
  next_generation :: u32
  jitter :: u64

definition ledger_seeded :: "retry_policy \<Rightarrow> u64 \<Rightarrow> ('k, 't, 'p) ledger" where
  "ledger_seeded p seed =
     \<lparr>policy = p, probe_records = Map.empty, timers = [], hosts = Map.empty, global_rtt = estimator_default,
      next_generation = 0, jitter = seed\<rparr>"

subsection \<open>Timeouts\<close>

definition jitter_next :: "u64 \<Rightarrow> u64 \<times> u64" where
  "jitter_next s =
     (let s = s + 0x9E3779B97F4A7C15;
          z = (s XOR drop_bit 30 s) * 0xBF58476D1CE4E5B9;
          z = (z XOR drop_bit 27 z) * 0x94D049BB133111EB
      in (s, z XOR drop_bit 31 z))"

definition next_unit :: "u64 \<Rightarrow> u64 \<times> f64" where
  "next_unit s = (case jitter_next s of (s', z) \<Rightarrow> (s', f64_of (of_int (uint (drop_bit 11 z)) / 2 ^ 53)))"

definition spread :: "u64 \<Rightarrow> duration \<Rightarrow> f64 \<Rightarrow> u64 \<times> duration" where
  "spread s base share =
     (if f64_less share (Fin 0) \<or> share = Fin 0 then (s, base)
      else let share = f64_min share (Fin 1)
           in case next_unit s of
                (s', unit) \<Rightarrow> (s', saturating_mul base (f64_add (Fin 1) (f64_mul unit share))))"

definition scale :: "(f64 \<Rightarrow> int \<Rightarrow> f64) \<Rightarrow> duration \<Rightarrow> f64 \<Rightarrow> u8 \<Rightarrow> duration \<Rightarrow> duration" where
  "scale powi64 base factor attempt ceil =
     (if attempt \<le> 1 \<or> f64_less factor (Fin 1) \<or> factor = Fin 1 then min base ceil
      else min (saturating_mul base (powi64 factor (uint (attempt - 1)))) ceil)"

definition timeout_for ::
  "(f64 \<Rightarrow> int \<Rightarrow> f64) \<Rightarrow> ip_addr \<Rightarrow> u8 \<Rightarrow> ('k, 't, 'p) ledger \<Rightarrow> duration \<times> ('k, 't, 'p) ledger" where
  "timeout_for powi64 host attempt l =
     (let measured =
            (case Option.bind (hosts l host) (\<lambda>h. rtt_timeout (estimator h)) of
               Some t \<Rightarrow> Some t
             | None \<Rightarrow> (if cross_host_estimate (policy l) then rtt_timeout (global_rtt l) else None));
          ceil = max (max_rto (policy l)) (min_rto (policy l));
          base = (case measured of Some t \<Rightarrow> t | None \<Rightarrow> initial_rto (policy l));
          base = (if base < min_rto (policy l) then min_rto (policy l) else if base > ceil then ceil else base);
          scaled = scale powi64 base (backoff (policy l)) attempt ceil
      in case spread (jitter l) scaled (jitter_spread (policy l)) of (s, t) \<Rightarrow> (t, l\<lparr>jitter := s\<rparr>))"

definition take_generation :: "('k, 't, 'p) ledger \<Rightarrow> u32 \<times> ('k, 't, 'p) ledger" where
  "take_generation l = (next_generation l + 1, l\<lparr>next_generation := next_generation l + 1\<rparr>)"

definition entry_or_default :: "('k, 't, 'p) ledger \<Rightarrow> ip_addr \<Rightarrow> host_state" where
  "entry_or_default l host = (case hosts l host of Some h \<Rightarrow> h | None \<Rightarrow> host_default)"

definition update_host :: "ip_addr \<Rightarrow> (host_state \<Rightarrow> host_state) \<Rightarrow> ('k, 't, 'p) ledger \<Rightarrow> ('k, 't, 'p) ledger" where
  "update_host host f l = l\<lparr>hosts := (hosts l)(host \<mapsto> f (entry_or_default l host))\<rparr>"

definition schedule ::
  "(f64 \<Rightarrow> int \<Rightarrow> f64) \<Rightarrow> ip_addr \<Rightarrow> 'k \<Rightarrow> u8 \<Rightarrow> u32 \<Rightarrow> instant \<Rightarrow> ('k, 't, 'p) ledger \<Rightarrow> ('k, 't, 'p) ledger" where
  "schedule powi64 host key attempt g now l =
     (case timeout_for powi64 host attempt l of
        (t, l') \<Rightarrow> l'\<lparr>timers := timers l' @ [\<lparr>due_at = later now t, tm_key = key, tm_generation = g\<rparr>]\<rparr>)"

subsection \<open>Arming and resolving\<close>

definition arm_inner ::
  "(f64 \<Rightarrow> int \<Rightarrow> f64) \<Rightarrow> ip_addr \<Rightarrow> 'k \<Rightarrow> 't \<Rightarrow> 'p option \<Rightarrow> instant \<Rightarrow> ('k, 't, 'p) ledger \<Rightarrow> ('k, 't, 'p) ledger" where
  "arm_inner powi64 host key token pl now l =
     (case take_generation l of
        (g, l) \<Rightarrow>
          (let l = update_host host (\<lambda>h. h) l;
               b = budget_for (policy l) (Some (entry_or_default l host))
           in case probe_records l key of
                Some r \<Rightarrow>
                  (let r = r\<lparr>budget := b, generation := g, deferred := False,
                             payload := (case pl of Some p \<Rightarrow> p | None \<Rightarrow> payload r)\<rparr>;
                       r = record_attempt token now r
                   in schedule powi64 host key (sends r) g now (l\<lparr>probe_records := (probe_records l)(key \<mapsto> r)\<rparr>))
              | None \<Rightarrow>
                  (case pl of
                     None \<Rightarrow> l
                   | Some p \<Rightarrow>
                       (let l = update_host host (\<lambda>h. h\<lparr>outstanding := outstanding h + 1\<rparr>) l;
                            r = record_attempt token now (record_new host b g p)
                        in schedule powi64 host key (sends r) g now (l\<lparr>probe_records := (probe_records l)(key \<mapsto> r)\<rparr>)))))"

definition arm ::
  "(f64 \<Rightarrow> int \<Rightarrow> f64) \<Rightarrow> ip_addr \<Rightarrow> 'k \<Rightarrow> 't \<Rightarrow> 'p \<Rightarrow> instant \<Rightarrow> ('k, 't, 'p) ledger \<Rightarrow> ('k, 't, 'p) ledger" where
  "arm powi64 host key token p now l = arm_inner powi64 host key token (Some p) now l"

definition rearm ::
  "(f64 \<Rightarrow> int \<Rightarrow> f64) \<Rightarrow> ip_addr \<Rightarrow> 'k \<Rightarrow> 't \<Rightarrow> instant \<Rightarrow> ('k, 't, 'p) ledger \<Rightarrow> ('k, 't, 'p) ledger" where
  "rearm powi64 host key token now l = arm_inner powi64 host key token None now l"

definition resolve_probe ::
  "'k \<Rightarrow> 't option \<Rightarrow> instant \<Rightarrow> ('k, 't, 'p) ledger \<Rightarrow> 'p resolution option \<times> ('k, 't, 'p) ledger" where
  "resolve_probe key token now l =
     (case probe_records l key of
        None \<Rightarrow> (None, l)
      | Some r \<Rightarrow>
          (case (case token of
                   Some t \<Rightarrow> map_option Some (attempt_of t r)
                 | None \<Rightarrow> Some (map_option (\<lambda>t0. (1, t0)) (unambiguous_sent_at r))) of
             None \<Rightarrow> (None, l)
           | Some attributed \<Rightarrow>
               (let rtt = map_option (\<lambda>(_, t0). saturating_duration_since now t0) attributed;
                    l = l\<lparr>probe_records := (probe_records l)(key := None)\<rparr>;
                    l = update_host (pr_host r)
                          (\<lambda>h. h\<lparr>outstanding := saturating_sub (outstanding h) 1,
                                  answers := saturating_add (answers h) 1,
                                  estimator := (case rtt of Some d \<Rightarrow> record_rtt d (estimator h) | None \<Rightarrow> estimator h)\<rparr>) l;
                    l = (case rtt of Some d \<Rightarrow> l\<lparr>global_rtt := record_rtt d (global_rtt l)\<rparr> | None \<Rightarrow> l)
                in (Some \<lparr>rs_payload = payload r, rs_rtt = rtt, rs_attempts = sends r,
                          rs_answered_attempt = map_option fst attributed\<rparr>, l))))"

subsection \<open>Timers that fire\<close>

definition retire :: "ip_addr \<Rightarrow> ('k, 't, 'p) ledger \<Rightarrow> ('k, 't, 'p) ledger" where
  "retire host l =
     update_host host
       (\<lambda>h. let h = h\<lparr>outstanding := saturating_sub (outstanding h) 1\<rparr>
            in if answers h = 0 then h\<lparr>exhausted_silently := saturating_add (exhausted_silently h) 1\<rparr> else h) l"

text \<open>What becomes of a timer taken off the queue: one turn of the loop of \<open>drain_due\<close>.\<close>

definition fire ::
  "(f64 \<Rightarrow> int \<Rightarrow> f64) \<Rightarrow> instant \<Rightarrow> 'k probe_timer \<Rightarrow> ('k, 't, 'p) ledger \<Rightarrow> ('k, 'p) due list \<times> ('k, 't, 'p) ledger" where
  "fire powi64 now timer l =
     (let key = tm_key timer
      in case probe_records l key of
           None \<Rightarrow> ([], l)
         | Some r \<Rightarrow>
             (if generation r \<noteq> tm_generation timer then ([], l)
              else let l = (if sends r = 1
                            then update_host (pr_host r) (\<lambda>h. h\<lparr>silences := saturating_add (silences h) 1\<rparr>) l else l)
                   in if sends r \<ge> budget r
                      then ([Exhausted key (payload r) (sends r) (witnessed r)],
                            retire (pr_host r) (l\<lparr>probe_records := (probe_records l)(key := None)\<rparr>))
                      else (let attempt = sends r + 1
                            in case take_generation l of
                                 (g, l) \<Rightarrow>
                                   ([Retry key attempt],
                                    schedule powi64 (pr_host r) key attempt g now
                                      (l\<lparr>probe_records := (probe_records l)(key \<mapsto> r\<lparr>sends := attempt, generation := g\<rparr>)\<rparr>)))))"

text \<open>
  The loop.  \<open>peek\<close> gives the entry at the top of the heap; a choice that is no entry, which no heap
  makes, ends it.  The loop ends by itself: a turn drops a timer or charges an attempt.
\<close>

definition attempts_left :: "('k, 't, 'p) ledger \<Rightarrow> 'k probe_timer \<Rightarrow> nat" where
  "attempts_left l t = (case probe_records l (tm_key t) of None \<Rightarrow> 1 | Some r \<Rightarrow> 257 - unat (sends r))"

lemma schedule_frame [simp]:
  "probe_records (schedule powi64 host key n g now l) = probe_records l"
  "policy (schedule powi64 host key n g now l) = policy l"
  "hosts (schedule powi64 host key n g now l) = hosts l"
  "next_generation (schedule powi64 host key n g now l) = next_generation l"
  by (simp_all add: schedule_def timeout_for_def Let_def split: prod.split)

lemma schedule_timers [simp]:
  "timers (schedule powi64 host key n g now l)
   = timers l @ [\<lparr>due_at = later now (fst (timeout_for powi64 host n l)), tm_key = key, tm_generation = g\<rparr>]"
  by (simp add: schedule_def timeout_for_def Let_def split: prod.split)

lemma update_host_frame [simp]:
  "probe_records (update_host host f l) = probe_records l" "timers (update_host host f l) = timers l"
  "policy (update_host host f l) = policy l" "next_generation (update_host host f l) = next_generation l"
  by (simp_all add: update_host_def)

lemma retire_frame [simp]:
  "probe_records (retire host l) = probe_records l" "timers (retire host l) = timers l"
  "policy (retire host l) = policy l" "next_generation (retire host l) = next_generation l"
  by (simp_all add: retire_def)

lemma fire_decreases:
  assumes "t \<in> set (timers l)" and "fire powi64 now t (l\<lparr>timers := remove1 t (timers l)\<rparr>) = (ds, l')"
  shows "sum_list (map (attempts_left l') (timers l')) < sum_list (map (attempts_left l) (timers l))"
proof -
  have split: "sum_list (map (attempts_left l) (timers l))
      = attempts_left l t + sum_list (map (attempts_left l) (remove1 t (timers l)))"
    by (rule sum_list_map_remove1 [OF assms(1)])
  have pos: "0 < attempts_left l t"
    using unat_lt_size [of "sends (the (probe_records l (tm_key t)))"] by (cases "probe_records l (tm_key t)") (simp_all add: attempts_left_def)
  have same: "attempts_left (l\<lparr>timers := ts\<rparr>) = attempts_left l" for ts
    by (rule ext) (simp add: attempts_left_def)
  show ?thesis
  proof (cases "probe_records l (tm_key t)")
    case None
    then show ?thesis using assms(2) split pos by (auto simp: fire_def same)
  next
    case (Some r)
    have lt: "unat (sends r) < 256" using unat_lt_size [of "sends r"] by simp
    consider (stale) "generation r \<noteq> tm_generation t" | (spent) "generation r = tm_generation t" "sends r \<ge> budget r"
      | (again) "generation r = tm_generation t" "\<not> sends r \<ge> budget r" by blast
    then show ?thesis
    proof cases
      case stale
      then show ?thesis using assms(2) Some split pos by (auto simp: fire_def same)
    next
      case spent
      then have "probe_records l' = (probe_records l)(tm_key t := None)" "timers l' = remove1 t (timers l)"
        using assms(2) Some by (auto simp: fire_def Let_def split: if_splits)
      moreover from this have "attempts_left l' u \<le> attempts_left l u" for u
        using lt Some by (auto simp: attempts_left_def split: option.split)
      ultimately show ?thesis
        using split pos sum_list_mono [of "remove1 t (timers l)" "attempts_left l'" "attempts_left l"] by simp
    next
      case again
      then have "unat (sends r) < unat (budget r)" by (simp add: word_le_nat_alt)
      then have up: "unat (sends r + 1) = Suc (unat (sends r))"
        using unat_lt_size [of "budget r"] by (simp add: unat_word_ariths)
      obtain g d where l': "probe_records l' = (probe_records l)(tm_key t \<mapsto> r\<lparr>sends := sends r + 1, generation := g\<rparr>)"
        "timers l' = remove1 t (timers l) @ [\<lparr>due_at = d, tm_key = tm_key t, tm_generation = g\<rparr>]"
        using assms(2) again Some by (auto simp: fire_def Let_def take_generation_def split: if_splits)
      have "attempts_left l' u \<le> attempts_left l u" for u
        using lt Some up by (auto simp: attempts_left_def l' split: option.split)
      moreover have "attempts_left l' \<lparr>due_at = d, tm_key = tm_key t, tm_generation = g\<rparr> < attempts_left l t"
        using Some up lt by (simp add: attempts_left_def l')
      ultimately show ?thesis
        using split sum_list_mono [of "remove1 t (timers l)" "attempts_left l'" "attempts_left l"] by (simp add: l'(2))
    qed
  qed
qed

function drain_due ::
  "('k probe_timer list \<Rightarrow> 'k probe_timer) \<Rightarrow> (f64 \<Rightarrow> int \<Rightarrow> f64) \<Rightarrow> instant \<Rightarrow> ('k, 't, 'p) ledger \<Rightarrow> ('k, 'p) due list
     \<Rightarrow> ('k, 'p) due list \<times> ('k, 't, 'p) ledger" where
  "drain_due peek powi64 now l out =
     (if timers l = [] then (out, l)
      else let t = peek (timers l)
           in if t \<notin> set (timers l) \<or> due_at t > now then (out, l)
              else (case fire powi64 now t (l\<lparr>timers := remove1 t (timers l)\<rparr>) of
                      (ds, l') \<Rightarrow> drain_due peek powi64 now l' (out @ ds)))"
  by pat_completeness auto
termination
  by (relation "measure (\<lambda>(peek, powi64, now, l, out). sum_list (map (attempts_left l) (timers l)))")
    (auto dest: fire_decreases simp: eq_commute [of "(_, _)" "fire _ _ _ _"])

declare drain_due.simps [simp del]

section \<open>Queries and the rest\<close>

definition next_due :: "('k probe_timer list \<Rightarrow> 'k probe_timer) \<Rightarrow> ('k, 't, 'p) ledger \<Rightarrow> instant option" where
  "next_due peek l = (if timers l = [] then None else Some (due_at (peek (timers l))))"

definition defer_probe :: "'k \<Rightarrow> ('k, 't, 'p) ledger \<Rightarrow> ('k, 't, 'p) ledger" where
  "defer_probe key l =
     (case take_generation l of
        (g, l) \<Rightarrow>
          (case probe_records l key of
             None \<Rightarrow> l
           | Some r \<Rightarrow> l\<lparr>probe_records := (probe_records l)(key \<mapsto> r\<lparr>generation := g, deferred := True\<rparr>)\<rparr>))"

text \<open>\<open>resume\<close> draws the timeout before it takes the generation; neither touches what the other reads.\<close>

definition resume_probe :: "(f64 \<Rightarrow> int \<Rightarrow> f64) \<Rightarrow> 'k \<Rightarrow> instant \<Rightarrow> ('k, 't, 'p) ledger \<Rightarrow> ('k, 't, 'p) ledger" where
  "resume_probe powi64 key now l =
     (case probe_records l key of
        None \<Rightarrow> l
      | Some r \<Rightarrow>
          (if \<not> deferred r then l
           else (case take_generation l of
                   (g, l) \<Rightarrow>
                     schedule powi64 (pr_host r) key (sends r) g now
                       (l\<lparr>probe_records := (probe_records l)(key \<mapsto> r\<lparr>deferred := False, generation := g\<rparr>)\<rparr>))))"

text \<open>The keys come in no particular order, so they are a set.\<close>

definition drain_unresolved :: "('k, 't, 'p) ledger \<Rightarrow> 'k set \<times> ('k, 't, 'p) ledger" where
  "drain_unresolved l =
     (dom (probe_records l),
      l\<lparr>timers := [], probe_records := Map.empty,
        hosts := (\<lambda>host. map_option (\<lambda>h. h\<lparr>outstanding := 0\<rparr>) (hosts l host))\<rparr>)"

definition ledger_len :: "('k, 't, 'p) ledger \<Rightarrow> nat" where
  "ledger_len l = card (dom (probe_records l))"

definition ledger_is_empty :: "('k, 't, 'p) ledger \<Rightarrow> bool" where
  "ledger_is_empty l \<longleftrightarrow> dom (probe_records l) = {}"

definition ledger_witness :: "'k \<Rightarrow> 't \<Rightarrow> ('k, 't, 'p) ledger \<Rightarrow> bool \<times> ('k, 't, 'p) ledger" where
  "ledger_witness key token l =
     (case probe_records l key of
        None \<Rightarrow> (False, l)
      | Some r \<Rightarrow>
          (case record_witness token r of
             (r', seen) \<Rightarrow> (seen, l\<lparr>probe_records := (probe_records l)(key \<mapsto> r')\<rparr>)))"

definition ledger_contains :: "'k \<Rightarrow> ('k, 't, 'p) ledger \<Rightarrow> bool" where
  "ledger_contains key l \<longleftrightarrow> probe_records l key \<noteq> None"

definition names_attempt :: "'k \<Rightarrow> 't option \<Rightarrow> ('k, 't, 'p) ledger \<Rightarrow> bool" where
  "names_attempt key token l =
     (case probe_records l key of
        None \<Rightarrow> False
      | Some r \<Rightarrow> (case token of Some t \<Rightarrow> attempt_of t r \<noteq> None | None \<Rightarrow> True))"

definition host_has_answered :: "ip_addr \<Rightarrow> ('k, 't, 'p) ledger \<Rightarrow> bool" where
  "host_has_answered host l = (case hosts l host of None \<Rightarrow> False | Some h \<Rightarrow> answers h > 0)"

definition host_is_answering :: "ip_addr \<Rightarrow> ('k, 't, 'p) ledger \<Rightarrow> bool" where
  "host_is_answering host l =
     (case hosts l host of
        None \<Rightarrow> False
      | Some h \<Rightarrow>
          (let as = ucast (answers h) :: u64; ss = ucast (silences h) :: u64
           in as * of_int ANSWERING_ONE_IN > as + ss))"

definition seed_host_rtt :: "ip_addr \<Rightarrow> duration \<Rightarrow> ('k, 't, 'p) ledger \<Rightarrow> ('k, 't, 'p) ledger" where
  "seed_host_rtt host rtt l =
     (let l = update_host host (\<lambda>h. h\<lparr>estimator := seed_rtt rtt (estimator h)\<rparr>) l
      in if cross_host_estimate (policy l) then l\<lparr>global_rtt := seed_rtt rtt (global_rtt l)\<rparr> else l)"

text \<open>\<open>seed_host\<close>, given what earlier phases measured of the host.\<close>

definition seed_host :: "ip_addr \<Rightarrow> host_telemetry \<Rightarrow> ('k, 't, 'p) ledger \<Rightarrow> ('k, 't, 'p) ledger" where
  "seed_host host telemetry l =
     (case median_round_trip telemetry of
        None \<Rightarrow> l
      | Some rtt \<Rightarrow>
          (if round_trips_resolve_the_link telemetry
              \<and> (case rtt_timeout (record_rtt rtt estimator_default) of
                    None \<Rightarrow> True
                  | Some t \<Rightarrow> t \<ge> initial_rto (policy l))
           then l else seed_host_rtt host rtt l))"

end
