(* ===== verification/Retry_Correct.thy ===== *)
theory Retry_Correct
  imports Retry
begin

text \<open>
  The ledger of outstanding probes: every probe armed ends exactly once, is asked no more often than the
  policy allows, and is never left without a timer, so silence ends it; a reply is attributed to the
  attempt it answers.
\<close>

section \<open>The heap\<close>

text \<open>What \<open>BinaryHeap::peek\<close> promises: an entry, none of the others being earlier.\<close>

definition heap_peek :: "('k probe_timer list \<Rightarrow> 'k probe_timer) \<Rightarrow> bool" where
  "heap_peek peek \<longleftrightarrow> (\<forall>ts. ts \<noteq> [] \<longrightarrow> peek ts \<in> set ts \<and> (\<forall>u \<in> set ts. due_at (peek ts) \<le> due_at u))"

section \<open>What a timer does\<close>

definition heard :: "('t, 'p) probe_record \<Rightarrow> ('k, 't, 'p) ledger \<Rightarrow> ('k, 't, 'p) ledger" where
  "heard r l =
     (if sends r = 1 then update_host (pr_host r) (\<lambda>h. h\<lparr>silences := saturating_add (silences h) 1\<rparr>) l else l)"

lemma heard_frame [simp]:
  "probe_records (heard r l) = probe_records l" "timers (heard r l) = timers l"
  "policy (heard r l) = policy l" "next_generation (heard r l) = next_generation l"
  by (simp_all add: heard_def)

lemma fire_idle:
  assumes "\<And>r. probe_records l (tm_key t) = Some r \<Longrightarrow> generation r \<noteq> tm_generation t"
  shows "fire powi64 now t l = ([], l)"
  using assms by (cases "probe_records l (tm_key t)") (auto simp: fire_def)

lemma fire_spent:
  assumes "probe_records l (tm_key t) = Some r" and "generation r = tm_generation t" and "budget r \<le> sends r"
  shows "fire powi64 now t l
    = ([Exhausted (tm_key t) (payload r) (sends r) (witnessed r)],
       retire (pr_host r) (heard r l\<lparr>probe_records := (probe_records l)(tm_key t := None)\<rparr>))"
  using assms by (simp add: fire_def heard_def Let_def)

lemma fire_again:
  assumes "probe_records l (tm_key t) = Some r" and "generation r = tm_generation t" and "\<not> budget r \<le> sends r"
  shows "fire powi64 now t l
    = ([Retry (tm_key t) (sends r + 1)],
       schedule powi64 (pr_host r) (tm_key t) (sends r + 1) (next_generation l + 1) now
         (heard r l\<lparr>next_generation := next_generation l + 1,
            probe_records := (probe_records l)(tm_key t \<mapsto> r\<lparr>sends := sends r + 1, generation := next_generation l + 1\<rparr>)\<rparr>))"
  using assms by (simp add: fire_def heard_def Let_def take_generation_def)

lemma fire_cases:
  obtains (idle) "\<And>r. probe_records l (tm_key t) = Some r \<Longrightarrow> generation r \<noteq> tm_generation t"
  | (spent) r where "probe_records l (tm_key t) = Some r" "generation r = tm_generation t" "budget r \<le> sends r"
  | (again) r where "probe_records l (tm_key t) = Some r" "generation r = tm_generation t" "\<not> budget r \<le> sends r"
  by (cases "probe_records l (tm_key t)") blast+

lemma fire_policy [simp]: "policy (snd (fire powi64 now t l)) = policy l"
  by (rule fire_cases [of l t]) (simp_all add: fire_idle fire_spent fire_again)

lemma next_send: "\<not> b \<le> (s :: u8) \<Longrightarrow> unat (s + 1) = Suc (unat s) \<and> s + 1 \<le> b"
  using unat_lt_size [of b] by (auto simp: word_le_nat_alt unat_word_ariths)

section \<open>The invariant\<close>

definition live_timer :: "('k, 't, 'p) ledger \<Rightarrow> 'k \<Rightarrow> ('t, 'p) probe_record \<Rightarrow> 'k probe_timer \<Rightarrow> bool" where
  "live_timer l k r t \<longleftrightarrow> t \<in> set (timers l) \<and> tm_key t = k \<and> tm_generation t = generation r"

definition most_sends :: "retry_policy \<Rightarrow> nat" where
  "most_sends p = max 1 (unat (max_attempts p))"

definition probe_ok :: "('k, 't, 'p) ledger \<Rightarrow> 'k \<Rightarrow> ('t, 'p) probe_record \<Rightarrow> bool" where
  "probe_ok l k r \<longleftrightarrow> 1 \<le> unat (sends r) \<and> unat (sends r) \<le> most_sends (policy l)
     \<and> unat (budget r) \<le> unat (max_attempts (policy l)) \<and> (\<not> deferred r \<longrightarrow> (\<exists>t. live_timer l k r t))"

definition ledger_inv :: "('k, 't, 'p) ledger \<Rightarrow> bool" where
  "ledger_inv l \<longleftrightarrow> finite (dom (probe_records l)) \<and> (\<forall>k r. probe_records l k = Some r \<longrightarrow> probe_ok l k r)"

lemma ledger_invD: "ledger_inv l \<Longrightarrow> probe_records l k = Some r \<Longrightarrow> probe_ok l k r"
  by (simp add: ledger_inv_def)

lemma budget_bound: "unat (budget_for p h) \<le> unat (max_attempts p)"
  by (auto simp: budget_for_def min_def word_le_nat_alt split: option.split)

text \<open>Taking a timer off the queue leaves every other probe its own.\<close>

lemma fire_inv:
  assumes "ledger_inv l" and "t \<in> set (timers l)" and "fire powi64 now t (l\<lparr>timers := remove1 t (timers l)\<rparr>) = (ds, l')"
  shows "ledger_inv l'"
proof -
  let ?l = "l\<lparr>timers := remove1 t (timers l)\<rparr>"
  have other: "\<exists>u. u \<in> set (remove1 t (timers l)) \<and> tm_key u = k \<and> tm_generation u = generation r"
    if g: "probe_records l k = Some r" "\<not> deferred r" "k \<noteq> tm_key t \<or> generation r \<noteq> tm_generation t" for k r
  proof -
    obtain u where "u \<in> set (timers l)" "tm_key u = k" "tm_generation u = generation r"
      using ledger_invD [OF assms(1) g(1)] g(2) by (auto simp: probe_ok_def live_timer_def)
    moreover from this have "u \<noteq> t" using g(3) by auto
    ultimately have "u \<in> set (remove1 t (timers l))" by (simp add: in_set_remove1)
    then show ?thesis using \<open>tm_key u = k\<close> \<open>tm_generation u = generation r\<close> by blast
  qed
  have base: "probe_ok l k r" if "probe_records l k = Some r" for k r using assms(1) that by (rule ledger_invD)
  have fin: "finite (dom (probe_records l))" using assms(1) by (simp add: ledger_inv_def)
  show ?thesis
  proof (cases rule: fire_cases [of ?l t])
    case idle
    then have "fire powi64 now t ?l = ([], ?l)" by (rule fire_idle)
    then have l': "l' = ?l" using assms(3) by simp
    have "probe_ok l' k r" if "probe_records l k = Some r" for k r
      using idle other [OF that] base [OF that] that by (fastforce simp: l' probe_ok_def live_timer_def)
    then show ?thesis using fin by (simp add: ledger_inv_def l')
  next
    case (spent r)
    have l': "probe_records l' = (probe_records l)(tm_key t := None)" "timers l' = remove1 t (timers l)" "policy l' = policy l"
      using assms(3) fire_spent [OF spent] by auto
    have "probe_ok l' k q" if "probe_records l k = Some q" "k \<noteq> tm_key t" for k q
      using other [OF that(1)] base [OF that(1)] that by (fastforce simp: l' probe_ok_def live_timer_def)
    then show ?thesis using fin by (simp add: ledger_inv_def l')
  next
    case (again r)
    let ?g = "next_generation l + 1"
    obtain d where l': "probe_records l' = (probe_records l)(tm_key t \<mapsto> r\<lparr>sends := sends r + 1, generation := ?g\<rparr>)"
      "timers l' = remove1 t (timers l) @ [\<lparr>due_at = d, tm_key = tm_key t, tm_generation = ?g\<rparr>]" "policy l' = policy l"
      using assms(3) fire_again [OF again] by auto
    have r: "probe_records l (tm_key t) = Some r" "\<not> budget r \<le> sends r" using again by simp_all
    have "probe_ok l' (tm_key t) (r\<lparr>sends := sends r + 1, generation := ?g\<rparr>)"
      using base [OF r(1)] next_send [OF r(2)] l' by (auto simp: probe_ok_def live_timer_def most_sends_def word_le_nat_alt)
    moreover have "probe_ok l' k q" if "probe_records l k = Some q" "k \<noteq> tm_key t" for k q
      using base [OF that(1)] other [of k q] that l' by (fastforce simp: probe_ok_def live_timer_def)
    ultimately show ?thesis using fin by (simp add: ledger_inv_def l'(1))
  qed
qed

section \<open>Draining\<close>

text \<open>A property each firing keeps, along the whole loop.\<close>

lemma drain_stops:
  assumes "timers l = [] \<or> peek (timers l) \<notin> set (timers l) \<or> now < due_at (peek (timers l))"
  shows "drain_due peek powi64 now l out = (out, l)"
proof (cases "timers l = []")
  case False
  then have "peek (timers l) \<notin> set (timers l) \<or> now < due_at (peek (timers l))" using assms by blast
  with False show ?thesis by (subst drain_due.simps) (simp only: Let_def if_False if_True simp_thms)
qed (simp add: drain_due.simps [of peek powi64 now l])

lemma drain_goes_on:
  assumes "timers l \<noteq> []" and "peek (timers l) \<in> set (timers l)" and "due_at (peek (timers l)) \<le> now"
    and "fire powi64 now (peek (timers l)) (l\<lparr>timers := remove1 (peek (timers l)) (timers l)\<rparr>) = (ds, m)"
  shows "drain_due peek powi64 now l out = drain_due peek powi64 now m (out @ ds)"
proof -
  have "\<not> (peek (timers l) \<notin> set (timers l) \<or> now < due_at (peek (timers l)))" using assms(2,3) by simp
  with assms(1,4) show ?thesis by (subst drain_due.simps) (simp only: Let_def if_False simp_thms prod.case)
qed

lemma drain_due_induct [consumes 1, case_names stop turn]:
  assumes "drain_due peek powi64 now l out = (out', l')"
    and "\<And>l out. timers l = [] \<or> peek (timers l) \<notin> set (timers l) \<or> now < due_at (peek (timers l)) \<Longrightarrow> Q l out out l"
    and "\<And>l out ds m. peek (timers l) \<in> set (timers l) \<Longrightarrow> due_at (peek (timers l)) \<le> now \<Longrightarrow>
      fire powi64 now (peek (timers l)) (l\<lparr>timers := remove1 (peek (timers l)) (timers l)\<rparr>) = (ds, m) \<Longrightarrow>
      Q m (out @ ds) out' l' \<Longrightarrow> Q l out out' l'"
  shows "Q l out out' l'"
  using assms
proof (induction peek powi64 now l out rule: drain_due.induct)
  case (1 peek powi64 now l out)
  show ?case
  proof (cases "timers l = [] \<or> peek (timers l) \<notin> set (timers l) \<or> now < due_at (peek (timers l))")
    case True
    then have "out' = out" "l' = l" using 1(2) drain_stops [of l peek now powi64 out] by simp_all
    then show ?thesis using 1(3) [OF True] by simp
  next
    case False
    then have stay: "timers l \<noteq> []" "peek (timers l) \<in> set (timers l)" "due_at (peek (timers l)) \<le> now"
      "\<not> (peek (timers l) \<notin> set (timers l) \<or> now < due_at (peek (timers l)))" by auto
    obtain ds m where f: "fire powi64 now (peek (timers l)) (l\<lparr>timers := remove1 (peek (timers l)) (timers l)\<rparr>) = (ds, m)"
      by fastforce
    then have "drain_due peek powi64 now m (out @ ds) = (out', l')"
      using 1(2) drain_goes_on [of l peek, OF stay(1-3) f] by simp
    then have "Q m (out @ ds) out' l'" by (rule 1(1) [OF stay(1) refl stay(4) f [symmetric]]) (fact 1(3,4))+
    then show ?thesis by (rule 1(4) [OF stay(2,3) f])
  qed
qed

lemma drain_invariant:
  assumes "P l out"
    and "\<And>l out t ds l'. P l out \<Longrightarrow> t \<in> set (timers l) \<Longrightarrow> due_at t \<le> now \<Longrightarrow>
      fire powi64 now t (l\<lparr>timers := remove1 t (timers l)\<rparr>) = (ds, l') \<Longrightarrow> P l' (out @ ds)"
    and "drain_due peek powi64 now l out = (out', l')"
  shows "P l' out'"
  using assms(3,1) by (induction rule: drain_due_induct) (blast intro: assms(2))+

text \<open>A loop over a heap stops only when no timer is due.\<close>

lemma drain_empties:
  assumes "drain_due peek powi64 now l out = (out', l')" and "heap_peek peek" and "t \<in> set (timers l')"
  shows "now < due_at t"
  using assms(1,3)
proof (induction rule: drain_due_induct)
  case (stop l out)
  then have "timers l \<noteq> []" by auto
  then have "peek (timers l) \<in> set (timers l)" "due_at (peek (timers l)) \<le> due_at t"
    using assms(2) stop(2) by (simp_all add: heap_peek_def)
  then show ?case using stop(1) \<open>timers l \<noteq> []\<close> by auto
qed

lemma drain_inv:
  assumes "ledger_inv l" and "drain_due peek powi64 now l out = (out', l')"
  shows "ledger_inv l'"
  by (rule drain_invariant [of "\<lambda>l _. ledger_inv l", OF assms(1) _ assms(2)]) (rule fire_inv)

lemma fire_policy_drained: "fire powi64 now t l = (ds, l') \<Longrightarrow> policy l' = policy l"
  by (metis fire_policy snd_conv)

lemma drain_policy:
  assumes "drain_due peek powi64 now l out = (out', l')"
  shows "policy l' = policy l"
proof (rule drain_invariant [of "\<lambda>m _. policy m = policy l", OF refl _ assms])
  fix m out t ds m'
  assume "policy m = policy l" and "fire powi64 now t (m\<lparr>timers := remove1 t (timers m)\<rparr>) = (ds, m')"
  then show "policy m' = policy l" using fire_policy_drained by fastforce
qed

text \<open>
  What draining does to one probe that was due: it is gone, or has been charged another attempt.  On the way
  its timer stays due.
\<close>

definition chargeable :: "'k \<Rightarrow> nat \<Rightarrow> instant \<Rightarrow> ('k, 't, 'p) ledger \<Rightarrow> bool" where
  "chargeable k n now l \<longleftrightarrow>
     (case probe_records l k of
        None \<Rightarrow> True
      | Some r \<Rightarrow> n < unat (sends r) \<or> (n \<le> unat (sends r) \<and> (\<exists>t. live_timer l k r t \<and> due_at t \<le> now)))"

lemma chargeable_frame:
  assumes "chargeable k n now l" and "probe_records l' k = probe_records l k"
    and "\<And>r t. probe_records l k = Some r \<Longrightarrow> live_timer l k r t \<Longrightarrow> t \<in> set (timers l')"
  shows "chargeable k n now l'"
proof (cases "probe_records l k")
  case (Some r)
  then have "live_timer l' k r t" if "live_timer l k r t" for t
    using assms(3) [OF Some that] that by (simp add: live_timer_def)
  then show ?thesis using assms(1) Some by (auto simp: chargeable_def assms(2))
qed (simp add: chargeable_def assms(2))

lemma other_timer [intro]: "t \<in> set ts \<Longrightarrow> tm_key t \<noteq> tm_key u \<Longrightarrow> t \<in> set (remove1 u ts)"
  by (metis in_set_remove1)

lemma fire_chargeable:
  assumes "chargeable k n now l" and "u \<in> set (timers l)"
    and "fire powi64 now u (l\<lparr>timers := remove1 u (timers l)\<rparr>) = (ds, l')"
  shows "chargeable k n now l'"
proof -
  let ?l = "l\<lparr>timers := remove1 u (timers l)\<rparr>"
  show ?thesis
  proof (cases rule: fire_cases [of ?l u])
    case idle
    then have l': "l' = ?l" using assms(3) fire_idle [of ?l u] by simp
    show ?thesis
    proof (rule chargeable_frame [OF assms(1)])
      fix r t assume "probe_records l k = Some r" and "live_timer l k r t"
      then have "t \<noteq> u" using idle by (auto simp: live_timer_def)
      then show "t \<in> set (timers l')" using \<open>live_timer l k r t\<close> by (simp add: live_timer_def l')
    qed (simp add: l')
  next
    case (spent q)
    have l': "probe_records l' = (probe_records l)(tm_key u := None)" "timers l' = remove1 u (timers l)"
      using assms(3) fire_spent [OF spent] by auto
    show ?thesis
    proof (cases "k = tm_key u")
      case False
      show ?thesis
        by (rule chargeable_frame [OF assms(1)]) (use False in \<open>auto simp: l' live_timer_def\<close>)
    qed (simp add: chargeable_def l')
  next
    case (again q)
    let ?g = "next_generation l + 1"
    obtain d where l': "probe_records l' = (probe_records l)(tm_key u \<mapsto> q\<lparr>sends := sends q + 1, generation := ?g\<rparr>)"
      "timers l' = remove1 u (timers l) @ [\<lparr>due_at = d, tm_key = tm_key u, tm_generation = ?g\<rparr>]"
      using assms(3) fire_again [OF again] by auto
    show ?thesis
    proof (cases "k = tm_key u")
      case True
      then have "n \<le> unat (sends q)" using assms(1) again(1) by (auto simp: chargeable_def)
      then show ?thesis using True next_send [OF again(3)] by (simp add: chargeable_def l'(1))
    next
      case False
      show ?thesis
        by (rule chargeable_frame [OF assms(1)]) (use False in \<open>auto simp: l' live_timer_def\<close>)
    qed
  qed
qed

lemma drain_charges:
  assumes "heap_peek peek" and "ledger_inv l" and "probe_records l k = Some r" and "\<not> deferred r"
    and "\<forall>t \<in> set (timers l). due_at t \<le> now" and "drain_due peek powi64 now l out = (out', l')"
    and "probe_records l' k = Some r'"
  shows "unat (sends r) < unat (sends r')"
proof -
  have "chargeable k (unat (sends r)) now l"
    using ledger_invD [OF assms(2,3)] assms(3-5) by (auto simp: chargeable_def probe_ok_def live_timer_def)
  then have "chargeable k (unat (sends r)) now l'"
    by (rule drain_invariant [of "\<lambda>l _. chargeable k (unat (sends r)) now l", OF _ _ assms(6)]) (rule fire_chargeable)
  then show ?thesis using drain_empties [OF assms(6,1)] assms(7) by (fastforce simp: chargeable_def live_timer_def)
qed

section \<open>The other operations\<close>

lemma ledger_inv_mono:
  assumes "ledger_inv l" and "policy l' = policy l" and "set (timers l) \<subseteq> set (timers l')" and "finite (dom (probe_records l'))"
    and "\<And>k r. probe_records l' k = Some r \<Longrightarrow> probe_ok l' k r
      \<or> (\<exists>q. probe_records l k = Some q \<and> sends r = sends q \<and> budget r = budget q \<and> generation r = generation q \<and> deferred r = deferred q)"
  shows "ledger_inv l'"
  unfolding ledger_inv_def
proof (intro conjI allI impI)
  fix k r assume "probe_records l' k = Some r"
  then consider "probe_ok l' k r"
    | q where "probe_records l k = Some q" "sends r = sends q" "budget r = budget q" "generation r = generation q" "deferred r = deferred q"
    using assms(5) by blast
  then show "probe_ok l' k r"
  proof cases
    case (2 q)
    have "live_timer l' k r t" if "live_timer l k q t" for t
      using that assms(3) 2(4) by (auto simp: live_timer_def)
    then show ?thesis using ledger_invD [OF assms(1) 2(1)] 2 assms(2) by (auto simp: probe_ok_def)
  qed
qed (fact assms(4))

lemma record_attempt_frame [simp]:
  "sends (record_attempt tok t r) = sends r" "budget (record_attempt tok t r) = budget r"
  "generation (record_attempt tok t r) = generation r" "deferred (record_attempt tok t r) = deferred r"
  "pr_host (record_attempt tok t r) = pr_host r"
  by (simp_all add: record_attempt_def Let_def)

lemma record_new_frame [simp]:
  "sends (record_new h b g p) = 1" "budget (record_new h b g p) = b" "generation (record_new h b g p) = g"
  "deferred (record_new h b g p) = False"
  by (simp_all add: record_new_def)

text \<open>What arming leaves in the record, and that it starts a timer for it.\<close>

lemma arm_inner_effect:
  fixes l :: "('k, 't, 'p) ledger" and powi64 host key tok pl now
  defines "l' \<equiv> arm_inner powi64 host key tok pl now l"
  defines "r \<equiv> the (probe_records l' key)"
  assumes "probe_records l key \<noteq> None \<or> pl \<noteq> None"
  shows "probe_records l' = (probe_records l)(key \<mapsto> r)"
    and "timers l' = timers l @ [\<lparr>due_at = due_at (last (timers l')), tm_key = key, tm_generation = generation r\<rparr>]"
    and "policy l' = policy l"
    and "sends r = (case probe_records l key of None \<Rightarrow> 1 | Some q \<Rightarrow> sends q)"
    and "unat (budget r) \<le> unat (max_attempts (policy l))"
  using assms(3) budget_bound
  by (cases "probe_records l key"; cases pl; auto simp: l'_def r_def arm_inner_def take_generation_def Let_def)+

lemma arm_inner_absent:
  assumes "probe_records l key = None"
  shows "probe_records (arm_inner powi64 host key tok None now l) = probe_records l"
    and "timers (arm_inner powi64 host key tok None now l) = timers l"
    and "policy (arm_inner powi64 host key tok None now l) = policy l"
  using assms by (simp_all add: arm_inner_def take_generation_def Let_def)

lemma most_sends_pos: "1 \<le> most_sends p"
  by (simp add: most_sends_def)

lemma arm_inner_inv:
  assumes "ledger_inv l"
  shows "ledger_inv (arm_inner powi64 host key tok pl now l)"
proof (cases "probe_records l key \<noteq> None \<or> pl \<noteq> None")
  case True
  let ?l = "arm_inner powi64 host key tok pl now l"
  define r where "r = the (probe_records ?l key)"
  note r = arm_inner_effect [OF True, of powi64 host tok now, folded r_def]
  have "1 \<le> unat (sends r) \<and> unat (sends r) \<le> most_sends (policy l)"
    using ledger_invD [OF assms] most_sends_pos by (cases "probe_records l key") (auto simp: r(4) probe_ok_def)
  moreover have "\<exists>t. live_timer ?l key r t"
    unfolding live_timer_def by (subst r(2)) (rule exI, auto)
  ultimately have "probe_ok ?l key r" using r(3,5) by (simp add: probe_ok_def)
  moreover have "set (timers l) \<subseteq> set (timers ?l)" by (subst r(2)) auto
  ultimately show ?thesis
    using assms by (intro ledger_inv_mono [OF assms]) (auto simp: r(1,3) ledger_inv_def split: if_splits)
next
  case False
  then show ?thesis
    using assms arm_inner_absent [of l key] by (intro ledger_inv_mono [OF assms]) (auto simp: ledger_inv_def)
qed

lemma resolve_effect:
  assumes "resolve_probe key tok now l = (out, l')"
  shows "probe_records l' = (if out = None then probe_records l else (probe_records l)(key := None))"
    and "timers l' = timers l" and "policy l' = policy l" and "out \<noteq> None \<Longrightarrow> probe_records l key \<noteq> None"
  using assms by (auto simp: resolve_probe_def Let_def split: option.splits)

lemma resolve_inv:
  assumes "ledger_inv l" and "resolve_probe key tok now l = (out, l')"
  shows "ledger_inv l'"
  using assms(1) by (intro ledger_inv_mono [OF assms(1)]) (auto simp: resolve_effect [OF assms(2)] ledger_inv_def split: if_splits)

lemma defer_inv: "ledger_inv l \<Longrightarrow> ledger_inv (defer_probe key l)"
  by (rule ledger_inv_mono [of l])
    (auto simp: ledger_inv_def defer_probe_def take_generation_def probe_ok_def split: option.splits if_splits)

lemma resume_inv: "ledger_inv l \<Longrightarrow> ledger_inv (resume_probe powi64 key now l)"
  by (rule ledger_inv_mono [of l])
    (auto simp: ledger_inv_def resume_probe_def take_generation_def probe_ok_def live_timer_def split: option.splits if_splits)

lemma witness_record_frame [simp]:
  "sends (fst (record_witness tok r)) = sends r" "budget (fst (record_witness tok r)) = budget r"
  "generation (fst (record_witness tok r)) = generation r" "deferred (fst (record_witness tok r)) = deferred r"
  by (simp_all add: record_witness_def split: prod.split)

lemma witness_effect:
  assumes "ledger_witness key tok l = (seen, l')"
  shows "probe_records l' = (case probe_records l key of None \<Rightarrow> probe_records l
      | Some r \<Rightarrow> (probe_records l)(key \<mapsto> fst (record_witness tok r)))"
    and "timers l' = timers l" and "policy l' = policy l"
  using assms by (auto simp: ledger_witness_def split: option.splits prod.splits)

lemma witness_inv:
  assumes "ledger_inv l" and "ledger_witness key tok l = (seen, l')"
  shows "ledger_inv l'"
  using assms(1) by (intro ledger_inv_mono [OF assms(1)])
    (auto simp: witness_effect [OF assms(2)] ledger_inv_def split: option.splits if_splits)

lemma seed_frame [simp]:
  "probe_records (seed_host_rtt host rtt l) = probe_records l" "timers (seed_host_rtt host rtt l) = timers l"
  "policy (seed_host_rtt host rtt l) = policy l"
  by (simp_all add: seed_host_rtt_def Let_def)

lemma ledger_inv_cong:
  "probe_records l' = probe_records l \<Longrightarrow> timers l' = timers l \<Longrightarrow> policy l' = policy l \<Longrightarrow> ledger_inv l' = ledger_inv l"
  by (simp add: ledger_inv_def probe_ok_def live_timer_def)

end
