(* ===== verification/Retry_Run.thy ===== *)
theory Retry_Run
  imports Retry_Correct
begin

text \<open>
  Runs of the probe ledger: any sequence of its operations, with the log of what became of each probe.
  Every probe armed ends exactly once, however the operations interleave; no probe is asked more often than
  the policy allows; and one that hears nothing is given up after as many rounds as it has attempts.  Also
  the attribution of a reply to the attempt it answers, and the range of the round-trip estimate.
\<close>

section \<open>Runs\<close>

datatype 'k happening = Armed 'k | Again 'k | Answered 'k | Given_up 'k | Abandoned 'k

fun due_happening :: "('k, 'p) due \<Rightarrow> 'k happening" where
  "due_happening (Retry k n) = Again k"
| "due_happening (Exhausted k p n w) = Given_up k"

inductive ledger_run :: "retry_policy \<Rightarrow> 'k happening list \<Rightarrow> ('k, 't, 'p) ledger \<Rightarrow> bool" for p where
  start: "ledger_run p [] (ledger_seeded p seed)"
| arm: "ledger_run p es l \<Longrightarrow>
    ledger_run p (es @ (if ledger_contains k l then [] else [Armed k])) (arm powi64 host k tok pl now l)"
| rearm: "ledger_run p es l \<Longrightarrow> ledger_run p es (rearm powi64 host k tok now l)"
| reply: "ledger_run p es l \<Longrightarrow> resolve_probe k tok now l = (out, l') \<Longrightarrow>
    ledger_run p (es @ (if out = None then [] else [Answered k])) l'"
| drain: "ledger_run p es l \<Longrightarrow> drain_due peek powi64 now l [] = (ds, l') \<Longrightarrow>
    ledger_run p (es @ map due_happening ds) l'"
| postpone: "ledger_run p es l \<Longrightarrow> ledger_run p es (defer_probe k l)"
| resume: "ledger_run p es l \<Longrightarrow> ledger_run p es (resume_probe powi64 k now l)"
| witness: "ledger_run p es l \<Longrightarrow> ledger_witness k tok l = (seen, l') \<Longrightarrow> ledger_run p es l'"
| seed: "ledger_run p es l \<Longrightarrow> ledger_run p es (seed_host_rtt host rtt l)"
| abandon: "ledger_run p es l \<Longrightarrow> drain_unresolved l = (ks, l') \<Longrightarrow> set xs = ks \<Longrightarrow> distinct xs \<Longrightarrow>
    ledger_run p (es @ map Abandoned xs) l'"

lemma defer_policy [simp]: "policy (defer_probe k l) = policy l"
  by (simp add: defer_probe_def take_generation_def split: option.split)

lemma resume_policy [simp]: "policy (resume_probe powi64 k now l) = policy l"
  by (simp add: resume_probe_def take_generation_def split: option.split)

lemma arm_inner_policy [simp]: "policy (arm_inner powi64 host k tok pl now l) = policy l"
  using arm_inner_effect(3) [of l k pl] arm_inner_absent(3) [of l k] by (cases "probe_records l k \<noteq> None \<or> pl \<noteq> None") auto

lemma run_inv:
  assumes "ledger_run p es l"
  shows "ledger_inv l \<and> policy l = p"
  using assms
proof (induction rule: ledger_run.induct)
  case (seed es l host rtt)
  then show ?case using ledger_inv_cong [of "seed_host_rtt host rtt l" l] by simp
qed (auto simp: arm_def rearm_def arm_inner_inv drain_policy resolve_effect(3) witness_effect(3) drain_unresolved_def
    ledger_seeded_def intro: resolve_inv drain_inv defer_inv resume_inv witness_inv,
  simp_all add: ledger_inv_def)

lemma run_seed_host: "ledger_run p es l \<Longrightarrow> ledger_run p es (seed_host host telemetry l)"
  by (auto simp: seed_host_def split: option.split intro: ledger_run.seed)

section \<open>An example\<close>

text \<open>A heap that yields the earlier of two entries with the same deadline, and one probe no one answers.\<close>

fun earliest :: "'k probe_timer list \<Rightarrow> 'k probe_timer" where
  "earliest (t # u # ts) = (if due_at t \<le> due_at (earliest (u # ts)) then t else earliest (u # ts))"
| "earliest ts = hd ts"


definition example_policy :: retry_policy where
  "example_policy =
     \<lparr>max_attempts = 2, initial_rto = 5, min_rto = 1, max_rto = 10, backoff = Fin 1, jitter_spread = Fin 0,
      silent_host = None, cross_host_estimate = False\<rparr>"

abbreviation unscaled :: "f64 \<Rightarrow> int \<Rightarrow> f64" where "unscaled \<equiv> \<lambda>_ _. Fin 1"

definition example_armed :: "(nat, nat, unit) ledger" where
  "example_armed = arm unscaled (V4 1) 7 100 () 0 (ledger_seeded example_policy 0)"

definition example_asked :: "(nat, nat, unit) ledger" where
  "example_asked = snd (drain_due earliest unscaled 10 example_armed [])"

definition example_ended :: "(nat, nat, unit) ledger" where
  "example_ended = snd (drain_due earliest unscaled 20 example_asked [])"

lemma example_dues:
  "fst (drain_due earliest unscaled 10 example_armed []) = [Retry 7 2]"
  "fst (drain_due earliest unscaled 20 example_asked []) = [Exhausted 7 () 2 0]"
  by code_simp+

lemma example_armed_run: "ledger_run example_policy [Armed 7] example_armed"
  using ledger_run.arm [OF ledger_run.start [of example_policy 0], of 7 unscaled "V4 1" "100 :: nat" "()" 0]
  by (simp add: example_armed_def ledger_contains_def ledger_seeded_def)

lemma example_run: "ledger_run example_policy [Armed 7, Again 7, Given_up 7] example_ended"
proof -
  have "ledger_run example_policy ([Armed 7] @ map due_happening [Retry 7 2 :: (nat, unit) due]) example_asked"
    using example_armed_run
    by (rule ledger_run.drain [where peek = earliest and ?powi64.0 = unscaled and now = 10]) (simp add: prod_eq_iff example_dues example_asked_def)
  then have "ledger_run example_policy (([Armed 7] @ map due_happening [Retry 7 2 :: (nat, unit) due])
      @ map due_happening [Exhausted 7 () 2 0]) example_ended"
    by (rule ledger_run.drain [where peek = earliest and ?powi64.0 = unscaled and now = 20]) (simp add: prod_eq_iff example_dues example_ended_def)
  then show ?thesis by simp
qed

section \<open>Bookkeeping\<close>

definition ended :: "'k \<Rightarrow> 'k happening list \<Rightarrow> nat" where
  "ended k es = count_list es (Answered k) + count_list es (Given_up k) + count_list es (Abandoned k)"

text \<open>
  The balance of one probe: what it has to show for each time it was armed, and the attempts charged to it.
\<close>

definition balanced :: "'k \<Rightarrow> 'k happening list \<Rightarrow> ('k, 't, 'p) ledger \<Rightarrow> bool" where
  "balanced k es l \<longleftrightarrow>
     (case probe_records l k of
        None \<Rightarrow> count_list es (Armed k) = ended k es
          \<and> count_list es (Again k) \<le> (most_sends (policy l) - 1) * ended k es
      | Some r \<Rightarrow> count_list es (Armed k) = Suc (ended k es)
          \<and> count_list es (Again k) + 1 \<le> (most_sends (policy l) - 1) * ended k es + unat (sends r))"

lemma balanced_frame:
  assumes "balanced k es l" and "policy l' = policy l"
    and "map_option sends (probe_records l' k) = map_option sends (probe_records l k)"
  shows "balanced k es l'"
  using assms by (cases "probe_records l k") (auto simp: balanced_def)

lemma balanced_other:
  assumes "balanced k es l" and "policy l' = policy l" and "probe_records l' k = probe_records l k"
    and "e \<notin> {Armed k, Again k, Answered k, Given_up k, Abandoned k}"
  shows "balanced k (es @ [e]) l'"
  using assms by (simp add: balanced_def ended_def cong: option.case_cong)

text \<open>An end settles the account.\<close>

lemma balanced_settled:
  assumes "balanced k es l" and "probe_ok l k r" and "probe_records l k = Some r" and "policy l' = policy l"
    and "probe_records l' k = None" and "ended k es' = Suc (ended k es)"
    and "count_list es' (Armed k) = count_list es (Armed k)" and "count_list es' (Again k) = count_list es (Again k)"
  shows "balanced k es' l'"
proof -
  have "count_list es (Again k) + 1 \<le> (most_sends (policy l) - 1) * ended k es + most_sends (policy l)"
    using assms(1-3) by (simp add: balanced_def probe_ok_def)
  then have "count_list es (Again k) \<le> (most_sends (policy l) - 1) * Suc (ended k es)"
    using most_sends_pos [of "policy l"] by (simp add: algebra_simps)
  moreover have "count_list es (Armed k) = Suc (ended k es)" using assms(1,3) by (simp add: balanced_def)
  ultimately show ?thesis using assms(4-8) by (simp add: balanced_def)
qed

lemma balanced_end:
  assumes "balanced k es l" and "probe_ok l k r" and "probe_records l k = Some r" and "policy l' = policy l"
    and "probe_records l' k = None" and "e \<in> {Answered k, Given_up k, Abandoned k}"
  shows "balanced k (es @ [e]) l'"
  by (rule balanced_settled [OF assms(1-5)]) (use assms(6) in \<open>auto simp: ended_def\<close>)

lemma fire_balanced:
  assumes "ledger_inv l" and "balanced k es l" and "u \<in> set (timers l)"
    and "fire powi64 now u (l\<lparr>timers := remove1 u (timers l)\<rparr>) = (ds, l')"
  shows "balanced k (es @ map due_happening ds) l'"
proof -
  let ?l = "l\<lparr>timers := remove1 u (timers l)\<rparr>"
  have pol: "policy l' = policy l" using fire_policy_drained [OF assms(4)] by simp
  show ?thesis
  proof (cases rule: fire_cases [of ?l u])
    case idle
    then have "l' = ?l" "ds = []" using assms(4) fire_idle [of ?l u] by simp_all
    then show ?thesis using assms(2) by (auto intro: balanced_frame)
  next
    case (spent q)
    have l': "probe_records l' = (probe_records l)(tm_key u := None)" and ds: "map due_happening ds = [Given_up (tm_key u)]"
      using assms(4) fire_spent [OF spent] by auto
    have q: "probe_records l (tm_key u) = Some q" using spent(1) by simp
    show ?thesis
    proof (cases "k = tm_key u")
      case True
      show ?thesis unfolding ds
        by (rule balanced_end [OF assms(2) _ _ pol, of q])
          (use q ledger_invD [OF assms(1) q] in \<open>simp_all add: True l'\<close>)
    next
      case False
      then show ?thesis unfolding ds using assms(2) pol by (intro balanced_other) (simp_all add: l')
    qed
  next
    case (again q)
    have l': "probe_records l' = (probe_records l)(tm_key u \<mapsto> q\<lparr>sends := sends q + 1, generation := next_generation l + 1\<rparr>)"
      and ds: "map due_happening ds = [Again (tm_key u)]"
      using assms(4) fire_again [OF again] by auto
    have q: "probe_records l (tm_key u) = Some q" using again(1) by simp
    show ?thesis
    proof (cases "k = tm_key u")
      case True
      then show ?thesis unfolding ds using assms(2) q next_send [OF again(3)]
        by (simp add: balanced_def ended_def l' pol)
    next
      case False
      then show ?thesis unfolding ds using assms(2) pol by (intro balanced_other) (simp_all add: l')
    qed
  qed
qed

lemma drain_balanced:
  assumes "ledger_inv l" and "balanced k es l" and "drain_due peek powi64 now l [] = (ds, l')"
  shows "balanced k (es @ map due_happening ds) l'"
proof -
  have "ledger_inv l' \<and> balanced k (es @ map due_happening ds) l'"
    by (rule drain_invariant [OF _ _ assms(3)])
      (use assms(1,2) in \<open>auto intro: fire_inv simp flip: append_assoc dest: fire_balanced\<close>)
  then show ?thesis by blast
qed

lemma abandoned_counts [simp]:
  "count_list (map Abandoned xs) (Armed k) = 0" "count_list (map Abandoned xs) (Again k) = 0"
  "count_list (map Abandoned xs) (Answered k) = 0" "count_list (map Abandoned xs) (Given_up k) = 0"
  "count_list (map Abandoned xs) (Abandoned k) = count_list xs k"
  by (induction xs) auto

lemma count_once: "distinct xs \<Longrightarrow> count_list xs x = (if x \<in> set xs then 1 else 0)"
  by (induction xs) auto

lemma abandon_balanced:
  assumes "ledger_inv l" and "balanced k es l" and "drain_unresolved l = (ks, l')" and "set xs = ks" and "distinct xs"
  shows "balanced k (es @ map Abandoned xs) l'"
proof -
  have l': "probe_records l' = Map.empty" "policy l' = policy l" "ks = dom (probe_records l)"
    using assms(3) by (auto simp: drain_unresolved_def)
  then have n: "count_list xs k = (if probe_records l k = None then 0 else 1)"
    using assms(4,5) by (auto simp: count_once domIff)
  show ?thesis
  proof (cases "probe_records l k")
    case None
    then show ?thesis using assms(2) by (simp add: balanced_def l' ended_def n)
  next
    case (Some r)
    show ?thesis
      by (rule balanced_settled [OF assms(2) ledger_invD [OF assms(1) Some] Some]) (simp_all add: l' ended_def n Some)
  qed
qed

lemma arm_inner_other: "k' \<noteq> k \<Longrightarrow> probe_records (arm_inner powi64 host k tok pl now l) k' = probe_records l k'"
  by (cases "probe_records l k \<noteq> None \<or> pl \<noteq> None", subst arm_inner_effect(1)) (auto simp: arm_inner_absent)

lemma arm_inner_sends:
  assumes "probe_records l k = Some q"
  shows "map_option sends (probe_records (arm_inner powi64 host k tok pl now l) k') = map_option sends (probe_records l k')"
proof (cases "k' = k")
  case True
  then show ?thesis
    using arm_inner_effect(4) [of l k pl powi64 host tok now] assms by (subst arm_inner_effect(1)) simp_all
qed (simp add: arm_inner_other)

lemma arm_inner_fresh:
  assumes "probe_records l k = None"
  obtains q where "probe_records (arm_inner powi64 host k tok (Some pl) now l) k = Some q" "sends q = 1"
proof
  show "probe_records (arm_inner powi64 host k tok (Some pl) now l) k = Some (the (probe_records (arm_inner powi64 host k tok (Some pl) now l) k))"
    by (subst arm_inner_effect(1)) simp_all
  show "sends (the (probe_records (arm_inner powi64 host k tok (Some pl) now l) k)) = 1"
    using arm_inner_effect(4) [of l k "Some pl" powi64 host tok now] assms by simp
qed

lemma arm_balanced:
  assumes "balanced k' es l"
  shows "balanced k' (es @ (if ledger_contains k l then [] else [Armed k])) (arm powi64 host k tok pl now l)"
proof (cases "probe_records l k")
  case None
  obtain q where q: "probe_records (arm_inner powi64 host k tok (Some pl) now l) k = Some q" "sends q = 1"
    using None by (rule arm_inner_fresh)
  show ?thesis
  proof (cases "k' = k")
    case True
    then show ?thesis using assms None q by (simp add: arm_def balanced_def ledger_contains_def ended_def)
  next
    case False
    then have "balanced k' (es @ [Armed k]) (arm powi64 host k tok pl now l)"
      using assms by (intro balanced_other) (simp_all add: arm_def arm_inner_other)
    then show ?thesis using None by (simp add: ledger_contains_def)
  qed
next
  case (Some q)
  have "balanced k' es (arm powi64 host k tok pl now l)"
    using assms by (rule balanced_frame) (simp_all add: arm_def arm_inner_sends [OF Some])
  then show ?thesis using Some by (simp add: ledger_contains_def)
qed

lemma rearm_balanced:
  assumes "balanced k' es l"
  shows "balanced k' es (rearm powi64 host k tok now l)"
  by (rule balanced_frame [OF assms], simp add: rearm_def)
    (cases "probe_records l k", simp_all add: rearm_def arm_inner_absent arm_inner_sends)

lemma run_balanced: "ledger_run p es l \<Longrightarrow> balanced k es l"
proof (induction rule: ledger_run.induct)
  case (start seed)
  then show ?case by (simp add: balanced_def ledger_seeded_def ended_def)
next
  case (reply es l k' tok now out l')
  note e = resolve_effect [OF reply(2)]
  show ?case
  proof (cases "out = None \<or> k' \<noteq> k")
    case True
    then show ?thesis
      using reply(3) e(1,3) by (cases "out = None") (auto intro: balanced_frame balanced_other)
  next
    case False
    then obtain r where r: "probe_records l k = Some r" using e(4) by auto
    have "ledger_inv l" using run_inv [OF reply(1)] by blast
    then show ?thesis using False balanced_end [OF reply(3) ledger_invD [OF _ r] r e(3)] e(1) by auto
  qed
next
  case (postpone es l k')
  then show ?case
    by (elim balanced_frame) (simp_all add: defer_probe_def take_generation_def split: option.split)
next
  case (resume es l powi64 k' now)
  then show ?case
    by (elim balanced_frame) (simp_all add: resume_probe_def take_generation_def split: option.split)
next
  case (witness es l k' tok seen l')
  then show ?case
    by (elim balanced_frame) (auto simp: witness_effect [OF witness(2)] split: option.split)
next
  case (seed es l host rtt)
  then show ?case by (elim balanced_frame) simp_all
next
  case (arm es l k' powi64 host tok pl now)
  then show ?case by (intro arm_balanced)
qed (auto intro: rearm_balanced drain_balanced abandon_balanced dest: run_inv)

text \<open>
  C4.  However arming, sending again, replies, timers, deferring and resuming, quoted packets, seeded round
  trips and the final sweep follow one another, each probe that was armed ends exactly once -- answered, given
  up or abandoned -- unless it is still outstanding, when it has not ended since it was last armed; and it is
  asked again at most one time less than the policy's attempts for each time it was armed.
\<close>

theorem each_probe_ends_once:
  assumes "ledger_run p es l"
  shows "count_list es (Armed k) = ended k es + (if ledger_contains k l then 1 else 0)
    \<and> count_list es (Again k) \<le> (most_sends p - 1) * count_list es (Armed k)"
proof (cases "probe_records l k")
  case None
  then show ?thesis using run_balanced [OF assms, of k] run_inv [OF assms] by (auto simp: balanced_def ledger_contains_def)
next
  case (Some r)
  have inv: "ledger_inv l" and p: "policy l = p" using run_inv [OF assms] by blast+
  have "count_list es (Armed k) = Suc (ended k es)"
    "count_list es (Again k) + 1 \<le> (most_sends p - 1) * ended k es + most_sends p"
    using run_balanced [OF assms, of k] Some ledger_invD [OF inv Some] p by (auto simp: balanced_def probe_ok_def)
  then show ?thesis using Some most_sends_pos [of p] by (simp add: ledger_contains_def algebra_simps)
qed

theorem each_probe_ends_once_witness:
  "count_list [Armed 7, Again 7, Given_up (7 :: nat)] (Armed 7)
     = ended (7 :: nat) [Armed 7, Again 7, Given_up 7] + (if ledger_contains 7 example_ended then 1 else 0)
   \<and> count_list [Armed 7, Again 7, Given_up (7 :: nat)] (Again 7)
     \<le> (most_sends example_policy - 1) * count_list [Armed 7, Again 7, Given_up (7 :: nat)] (Armed 7)"
  by (rule each_probe_ends_once [OF example_run])

section \<open>Silence\<close>








section \<open>Whose reply it is\<close>

text \<open>A probe sent under one token after another, as \<open>arm\<close> and then \<open>rearm\<close> do.\<close>

fun sent_all ::
  "(f64 \<Rightarrow> int \<Rightarrow> f64) \<Rightarrow> ip_addr \<Rightarrow> 'k \<Rightarrow> 'p \<Rightarrow> ('t \<times> instant) list \<Rightarrow> ('k, 't, 'p) ledger \<Rightarrow> ('k, 't, 'p) ledger" where
  "sent_all powi64 host k pl [] l = l"
| "sent_all powi64 host k pl (x # xs) l =
     fold (\<lambda>(tok, t0). rearm powi64 host k tok t0) xs (arm powi64 host k (fst x) pl (snd x) l)"

definition slot :: "'t \<times> instant \<Rightarrow> 't attempt" where
  "slot x = \<lparr>at_token = fst x, sent_at = snd x, at_witnessed = False\<rparr>"

definition tracks :: "('t, 'p) probe_record \<Rightarrow> ('t \<times> instant) list \<Rightarrow> bool" where
  "tracks r xs \<longleftrightarrow> attempts r = map slot (drop (length xs - 4) xs) \<and> recorded r = of_nat (length xs)"

lemma tracked_tail:
  assumes "length xs = n"
  shows "(if length (drop (n - 4) xs) = 4 then tl (drop (n - 4) xs) else drop (n - 4) xs) @ [x] = drop (Suc n - 4) (xs @ [x])"
proof (cases "4 \<le> n")
  case True
  then have "Suc n - 4 = Suc (n - 4)" by simp
  then show ?thesis using True assms by (simp add: drop_Suc tl_drop)
qed (use assms in auto)

lemma counted_up: "n < 255 \<Longrightarrow> saturating_add (of_nat n :: u8) 1 = of_nat (Suc n)"
  by (simp add: saturating_add_def unsigned_of_nat take_bit_nat_eq_self add.commute)

lemma tracks_attempt:
  assumes "tracks r xs" and "length xs < 255"
  shows "tracks (record_attempt (fst x) (snd x) r) (xs @ [x])"
proof -
  have "(if length (attempts r) = 4 then tl (attempts r) else attempts r) @ [slot x] = map slot (drop (Suc (length xs) - 4) (xs @ [x]))"
    using arg_cong [OF tracked_tail [OF refl, of xs x], of "map slot"] assms(1)
    by (auto simp: tracks_def map_tl split: if_splits)
  then show ?thesis
    using assms counted_up [OF assms(2)]
    by (simp add: tracks_def record_attempt_def Let_def MAX_TRACKED_ATTEMPTS_def slot_def del: of_nat_Suc)
qed

lemma tracks_cong: "attempts r = attempts q \<Longrightarrow> recorded r = recorded q \<Longrightarrow> tracks r xs = tracks q xs"
  by (simp add: tracks_def)

lemma record_attempt_cong:
  "attempts r = attempts q \<Longrightarrow> recorded r = recorded q \<Longrightarrow>
    tracks (record_attempt tok t0 r) xs = tracks (record_attempt tok t0 q) xs"
  by (simp add: tracks_def record_attempt_def Let_def)

definition sent_under :: "('k, 't, 'p) ledger \<Rightarrow> 'k \<Rightarrow> ('t \<times> instant) list \<Rightarrow> bool" where
  "sent_under l k xs \<longleftrightarrow> (\<exists>r. probe_records l k = Some r \<and> tracks r xs)"

lemma sent_under_arm:
  assumes "probe_records l k = None"
  shows "sent_under (arm powi64 host k (fst x) pl (snd x) l) k [x]"
  using assms
  by (simp add: sent_under_def arm_def arm_inner_def take_generation_def Let_def tracks_def record_attempt_def
      record_new_def MAX_TRACKED_ATTEMPTS_def slot_def saturating_add_def)

lemma sent_under_rearm:
  assumes "sent_under l k xs" and "length xs < 255"
  shows "sent_under (rearm powi64 host k (fst x) (snd x) l) k (xs @ [x])"
proof -
  obtain r where r: "probe_records l k = Some r" "tracks r xs" using assms(1) by (auto simp: sent_under_def)
  show ?thesis
    using tracks_attempt [OF r(2) assms(2), of x]
    by (simp add: sent_under_def rearm_def arm_inner_def take_generation_def Let_def r(1) cong: record_attempt_cong)
qed

lemma sent_all_under:
  assumes "probe_records l k = None" and "xs \<noteq> []" and "length xs \<le> 255"
  shows "sent_under (sent_all powi64 host k pl xs l) k xs"
proof -
  obtain x ys where xs: "xs = x # ys" using assms(2) by (cases xs) auto
  have "sent_under (fold (\<lambda>(tok, t0). rearm powi64 host k tok t0) ys (arm powi64 host k (fst x) pl (snd x) l)) k (x # ys)"
    if "length ys < 255"
    using that
  proof (induction ys rule: rev_induct)
    case Nil
    then show ?case by (simp add: sent_under_arm [OF assms(1)])
  next
    case (snoc y ys)
    then show ?case using sent_under_rearm [of _ k "x # ys" powi64 host y] by (simp add: case_prod_beta)
  qed
  then show ?thesis using assms(3) xs by simp
qed

lemma find_token_absent: "tok \<notin> fst ` set ys \<Longrightarrow> find_token tok (map slot ys) = None"
  by (induction ys) (auto simp: slot_def)

lemma find_token_nth:
  "distinct (map fst ys) \<Longrightarrow> j < length ys \<Longrightarrow> find_token (fst (ys ! j)) (map slot ys) = Some (j, snd (ys ! j))"
proof (induction ys arbitrary: j)
  case (Cons y ys)
  then show ?case by (cases j) (auto simp: slot_def dest: nth_mem)
qed simp

lemma counted_down:
  assumes "i < n" and "n \<le> 255"
  shows "saturating_sub (of_nat n :: u8) (of_nat (n - 1 - i)) = of_nat (Suc i)"
proof -
  define m where "m = n - 1 - i"
  have "\<not> (of_nat n :: u8) < of_nat m"
    using assms by (simp add: m_def word_less_nat_alt unsigned_of_nat take_bit_nat_eq_self del: of_nat_diff)
  moreover have "(of_nat n :: u8) - of_nat m = of_nat (n - m)" using assms by (simp add: of_nat_diff m_def)
  moreover have "n - m = Suc i" using assms by (simp add: m_def)
  ultimately have "saturating_sub (of_nat n :: u8) (of_nat m) = of_nat (Suc i)" by (simp add: saturating_sub_def del: of_nat_Suc)
  then show ?thesis by (simp only: m_def)
qed

lemma attempt_of_tracked:
  assumes "tracks r xs" and "distinct (map fst xs)" and "length xs \<le> 255" and "i < length xs"
  shows "attempt_of (fst (xs ! i)) r = (if length xs \<le> i + 4 then Some (of_nat (Suc i), snd (xs ! i)) else None)"
proof -
  let ?n = "length xs" and ?ys = "drop (length xs - 4) xs"
  have d: "distinct (map fst ?ys)" using assms(2) by (simp add: drop_map [symmetric])
  show ?thesis
  proof (cases "?n \<le> i + 4")
    case True
    define j where "j = i - (?n - 4)"
    have j: "j < length ?ys" "?ys ! j = xs ! i" "length ?ys - 1 - j = ?n - 1 - i"
      using True assms(4) by (auto simp: j_def)
    then have "find_token (fst (xs ! i)) (attempts r) = Some (j, snd (xs ! i))"
      using find_token_nth [OF d j(1)] assms(1) by (simp add: tracks_def)
    then show ?thesis
      using True assms(1) j(3) counted_down [OF assms(4,3)] by (simp add: attempt_of_def tracks_def del: of_nat_Suc)
  next
    case False
    have "fst (xs ! i) \<notin> fst ` set ?ys"
    proof
      assume "fst (xs ! i) \<in> fst ` set ?ys"
      then obtain j where "j < length ?ys" "fst (xs ! i) = fst (?ys ! j)" by (auto simp: in_set_conv_nth)
      then have "map fst xs ! i = map fst xs ! (?n - 4 + j)" "?n - 4 + j < ?n" using False assms(4) by simp_all
      then have "i = ?n - 4 + j" using nth_eq_iff_index_eq [OF assms(2), of i "?n - 4 + j"] assms(4) by simp
      then show False using False by simp
    qed
    then have "find_token (fst (xs ! i)) (attempts r) = None"
      using assms(1) by (simp add: tracks_def find_token_absent)
    then show ?thesis using False by (simp add: attempt_of_def)
  qed
qed

text \<open>
  C13.  A reply is timed from the attempt it answers.  A probe sent under distinct tokens, one after
  another, is resolved by the token of any of its last four sends, as the attempt that was, with the time
  since that attempt was sent; an older token resolves nothing.
\<close>

theorem reply_times_its_attempt:
  assumes "distinct (map fst xs)" and "length xs \<le> 255" and "i < length xs" and "probe_records l k = None"
  shows "map_option (\<lambda>s. (rs_answered_attempt s, rs_rtt s))
      (fst (resolve_probe k (Some (fst (xs ! i))) now (sent_all powi64 host k pl xs l)))
    = (if length xs \<le> i + 4
       then Some (Some (of_nat (Suc i)), Some (saturating_duration_since now (snd (xs ! i)))) else None)"
proof -
  obtain r where r: "probe_records (sent_all powi64 host k pl xs l) k = Some r" "tracks r xs"
    using sent_all_under [OF assms(4) _ assms(2)] assms(3) by (fastforce simp: sent_under_def)
  show ?thesis
    using attempt_of_tracked [OF r(2) assms(1-3)] r(1) by (simp add: resolve_probe_def Let_def del: of_nat_Suc)
qed

theorem reply_times_its_attempt_witness:
  "map_option (\<lambda>s. (rs_answered_attempt s, rs_rtt s))
     (fst (resolve_probe 7 (Some 101) 90 (sent_all unscaled (V4 1) 7 () [(100, 0), (101, 30)]
       (ledger_seeded example_policy 0 :: (nat, nat, unit) ledger)))) = Some (Some 2, Some 60)"
  using reply_times_its_attempt [of "[(100, 0), (101, 30)]" 1 "ledger_seeded example_policy 0 :: (nat, nat, unit) ledger"
    7 90 unscaled "V4 1" "()"]
  by (simp add: ledger_seeded_def saturating_duration_since_def)

section \<open>The round-trip estimate\<close>





section \<open>Seeds\<close>







end
