(* ===== verification/Deadline.thy ===== *)
theory Deadline
  imports Durations
begin

text \<open>
  How long a scan goes on, after \<open>scanner/pacing/rtt_window.rs\<close>, \<open>timer.rs\<close> and \<open>deadline.rs\<close>: the window of
  recent round trips and the silence it justifies, the timer with its limits, the budget that sizes them, and
  the time a scan is given back for probes it held.  The clock is an argument; \<open>None\<close> is a panic of \<open>Duration\<close>
  arithmetic.
\<close>

section \<open>The window of round trips\<close>

record rtt_window =
  rw_samples :: "duration list"
  rw_capacity :: nat

definition rtt_window_new :: "nat \<Rightarrow> rtt_window" where
  "rtt_window_new n = \<lparr>rw_samples = [], rw_capacity = n\<rparr>"

definition window_record :: "duration \<Rightarrow> rtt_window \<Rightarrow> rtt_window" where
  "window_record rtt w =
     (if rw_capacity w = 0 then w
      else let ss = rw_samples w @ [rtt]
           in w\<lparr>rw_samples := (if length ss > rw_capacity w then tl ss else ss)\<rparr>)"

text \<open>The outer option is the panic, the inner one the answer.\<close>

definition window_mean :: "rtt_window \<Rightarrow> duration option option" where
  "window_mean w =
     (if rw_samples w = [] then Some None
      else Option.bind (sum_durations 0 (rw_samples w))
             (\<lambda>s. map_option Some (div_duration s (of_nat (length (rw_samples w))))))"

fun differences :: "duration \<Rightarrow> duration list \<Rightarrow> duration list" where
  "differences prev [] = []"
| "differences prev (d # ds) = \<bar>d - prev\<bar> # differences d ds"

definition window_jitter :: "rtt_window \<Rightarrow> duration option option" where
  "window_jitter w =
     (case rw_samples w of
        d # d' # ds \<Rightarrow>
          Option.bind (sum_durations 0 (differences d (d' # ds)))
            (\<lambda>s. map_option Some (div_duration s (of_nat (length (rw_samples w) - 1))))
      | _ \<Rightarrow> Some None)"

definition suggest_timeout :: "f64 \<Rightarrow> duration \<Rightarrow> duration \<Rightarrow> rtt_window \<Rightarrow> duration option" where
  "suggest_timeout multiplier lowest highest w =
     Option.bind (window_mean w) (\<lambda>mean.
       case mean of
         None \<Rightarrow> Some lowest
       | Some m \<Rightarrow>
           Option.bind (window_jitter w) (\<lambda>jitter.
             let j = (case jitter of Some j \<Rightarrow> j | None \<Rightarrow> 0)
             in Option.bind (mul_f64 j (f64_max multiplier (Fin 0))) (\<lambda>margin.
                  map_option (\<lambda>t. if t < lowest then lowest
                                   else if t > max highest lowest then max highest lowest else t)
                    (add_duration m margin))))"

section \<open>The budget\<close>

record scan_budget =
  sb_base :: duration
  per_target :: duration
  sb_ceiling :: duration

definition scan_budget_new :: "duration \<Rightarrow> duration \<Rightarrow> duration \<Rightarrow> scan_budget" where
  "scan_budget_new base each highest = \<lparr>sb_base = base, per_target = each, sb_ceiling = highest\<rparr>"

definition with_base_at_least :: "duration \<Rightarrow> scan_budget \<Rightarrow> scan_budget" where
  "with_base_at_least least b = b\<lparr>sb_base := max (sb_base b) least\<rparr>"

definition with_per_target_at_least :: "duration \<Rightarrow> scan_budget \<Rightarrow> scan_budget" where
  "with_per_target_at_least least b = b\<lparr>per_target := max (per_target b) least\<rparr>"

definition unclamped :: "nat \<Rightarrow> scan_budget \<Rightarrow> duration" where
  "unclamped target_count b =
     (let n = (if int target_count < 2 ^ 32 then of_nat target_count else - 1 :: u32)
      in saturating_add_duration (sb_base b) (saturating_mul_duration (per_target b) n))"

definition covering :: "nat \<Rightarrow> scan_budget \<Rightarrow> scan_budget" where
  "covering target_count b = b\<lparr>sb_ceiling := max (sb_ceiling b) (unclamped target_count b)\<rparr>"

definition for_target_count :: "nat \<Rightarrow> scan_budget \<Rightarrow> duration" where
  "for_target_count target_count b = min (unclamped target_count b) (sb_ceiling b)"

section \<open>The timer\<close>

definition RECHECK_SOON :: duration where "RECHECK_SOON = 100 * 1000000"

record scan_timer =
  started :: instant
  hard_deadline :: instant
  min_runtime :: instant
  last_activity :: instant

definition scan_timer_new :: "instant \<Rightarrow> duration \<Rightarrow> duration \<Rightarrow> scan_timer" where
  "scan_timer_new now longest least =
     \<lparr>started = now, hard_deadline = later now longest, min_runtime = later now least, last_activity = now\<rparr>"

definition timer_start :: "instant \<Rightarrow> scan_timer \<Rightarrow> scan_timer" where
  "timer_start now t =
     (let setup = saturating_duration_since now (started t)
      in \<lparr>started = now, hard_deadline = later (hard_deadline t) setup, min_runtime = later (min_runtime t) setup,
          last_activity = now\<rparr>)"

definition timer_mark_activity :: "instant \<Rightarrow> scan_timer \<Rightarrow> scan_timer" where
  "timer_mark_activity now t = t\<lparr>last_activity := now\<rparr>"

definition timer_time_until_next_tick :: "instant \<Rightarrow> duration \<Rightarrow> scan_timer \<Rightarrow> duration" where
  "timer_time_until_next_tick now max_silence t =
     (let since = saturating_duration_since now (last_activity t)
      in if since \<le> max_silence then max_silence - since else RECHECK_SOON)"

definition timer_has_expired :: "instant \<Rightarrow> duration \<Rightarrow> scan_timer \<Rightarrow> bool" where
  "timer_has_expired now max_silence t \<longleftrightarrow>
     now > hard_deadline t
     \<or> (now > min_runtime t \<and> saturating_duration_since now (last_activity t) \<ge> max_silence)"

definition timer_hard_deadline_passed :: "instant \<Rightarrow> scan_timer \<Rightarrow> bool" where
  "timer_hard_deadline_passed now t \<longleftrightarrow> now > hard_deadline t"

definition timer_extend :: "duration \<Rightarrow> scan_timer \<Rightarrow> scan_timer" where
  "timer_extend d t = t\<lparr>hard_deadline := later (hard_deadline t) d\<rparr>"

section \<open>The deadline\<close>

record deadline_config =
  max_budget :: scan_budget
  min_budget :: scan_budget
  silence_floor :: duration
  silence_ceiling :: duration
  jitter_multiplier :: f64
  rtt_window_capacity :: nat

definition deadline_config_new ::
  "scan_budget \<Rightarrow> scan_budget \<Rightarrow> duration \<Rightarrow> duration \<Rightarrow> f64 \<Rightarrow> nat \<Rightarrow> deadline_config" where
  "deadline_config_new longest least lowest highest multiplier n =
     \<lparr>max_budget = longest, min_budget = least, silence_floor = lowest, silence_ceiling = highest,
      jitter_multiplier = multiplier, rtt_window_capacity = n\<rparr>"

definition allowing_for :: "duration \<Rightarrow> deadline_config \<Rightarrow> deadline_config" where
  "allowing_for probe_lifetime c = c\<lparr>max_budget := with_base_at_least probe_lifetime (max_budget c)\<rparr>"

definition allowing_pace_of :: "duration \<Rightarrow> nat \<Rightarrow> deadline_config \<Rightarrow> deadline_config" where
  "allowing_pace_of per_probe target_count c =
     c\<lparr>max_budget := covering target_count (with_per_target_at_least per_probe (max_budget c))\<rparr>"

record adaptive_deadline =
  ad_timer :: scan_timer
  ad_window :: rtt_window
  ad_floor :: duration
  ad_ceiling :: duration
  ad_multiplier :: f64

definition deadline_new :: "instant \<Rightarrow> deadline_config \<Rightarrow> nat \<Rightarrow> adaptive_deadline" where
  "deadline_new now c target_count =
     \<lparr>ad_timer = scan_timer_new now (for_target_count target_count (max_budget c)) (for_target_count target_count (min_budget c)),
      ad_window = rtt_window_new (rtt_window_capacity c), ad_floor = silence_floor c, ad_ceiling = silence_ceiling c,
      ad_multiplier = jitter_multiplier c\<rparr>"

definition deadline_start :: "instant \<Rightarrow> adaptive_deadline \<Rightarrow> adaptive_deadline" where
  "deadline_start now d = d\<lparr>ad_timer := timer_start now (ad_timer d)\<rparr>"

definition mark_activity :: "instant \<Rightarrow> adaptive_deadline \<Rightarrow> adaptive_deadline" where
  "mark_activity now d = d\<lparr>ad_timer := timer_mark_activity now (ad_timer d)\<rparr>"

definition deadline_record_rtt :: "duration \<Rightarrow> adaptive_deadline \<Rightarrow> adaptive_deadline" where
  "deadline_record_rtt rtt d = d\<lparr>ad_window := window_record rtt (ad_window d)\<rparr>"

definition silence_tolerance :: "adaptive_deadline \<Rightarrow> duration option" where
  "silence_tolerance d = suggest_timeout (ad_multiplier d) (ad_floor d) (ad_ceiling d) (ad_window d)"

definition allow_for_sending :: "duration \<Rightarrow> adaptive_deadline \<Rightarrow> adaptive_deadline" where
  "allow_for_sending spent d = d\<lparr>ad_timer := timer_extend spent (ad_timer d)\<rparr>"

definition allow_for_holding :: "duration \<Rightarrow> adaptive_deadline \<Rightarrow> adaptive_deadline" where
  "allow_for_holding held d = d\<lparr>ad_timer := timer_extend held (ad_timer d)\<rparr>"

definition has_expired :: "instant \<Rightarrow> adaptive_deadline \<Rightarrow> bool option" where
  "has_expired now d = map_option (\<lambda>s. timer_has_expired now s (ad_timer d)) (silence_tolerance d)"

definition hard_deadline_passed :: "instant \<Rightarrow> adaptive_deadline \<Rightarrow> bool" where
  "hard_deadline_passed now d = timer_hard_deadline_passed now (ad_timer d)"

definition time_until_next_tick :: "instant \<Rightarrow> adaptive_deadline \<Rightarrow> duration option" where
  "time_until_next_tick now d = map_option (\<lambda>s. timer_time_until_next_tick now s (ad_timer d)) (silence_tolerance d)"

section \<open>Held probes\<close>

text \<open>\<open>HeldAllowance\<close>: until when the deadline has been given the time.\<close>

definition held_take :: "instant \<Rightarrow> instant \<Rightarrow> instant \<Rightarrow> duration \<times> instant" where
  "held_take given now until =
     (let t0 = max given now in (saturating_duration_since until t0, max t0 until))"

end
