(* ===== verification/Deadline_Correct.thy ===== *)
theory Deadline_Correct
  imports Deadline
begin

text \<open>
  The deadline of a scan: it outlasts the schedule it is sized for, runs whole from a late start, gives back
  the time of overlapping holds once, and its tolerance of silence is always defined and between its bounds.
\<close>

section \<open>The tolerance of silence\<close>

lemma f64_of_below:
  assumes "0 \<le> x" and "x \<le> of_nat n" and "n \<le> 2 ^ 53"
  obtains y where "f64_of x = Fin y" "0 \<le> y" "y \<le> of_nat n"
proof
  have n: "(of_nat n :: rat) \<le> 2 ^ 53" using assms(3) by (metis of_nat_le_iff of_nat_numeral of_nat_power)
  show "f64_of x = Fin (nearest x)" using f64_of_small [OF assms(1)] assms(2) n by linarith
  show "0 \<le> nearest x" using assms(1) by (rule nearest_nonneg)
  show "nearest x \<le> of_nat n"
    using nearest_le [OF _ representable_nat [OF assms(3)] assms(2)] assms(1) by (cases "x = 0") auto
qed

lemma as_secs_bounded:
  assumes "0 \<le> d" and "d \<le> 2 ^ 32 * NANOS"
  obtains y where "as_secs_f64 d = Fin y" "0 \<le> y" "y \<le> of_nat (2 ^ 32 + 1)"
proof -
  have "d div NANOS \<le> 2 ^ 32" using assms(2) by (simp add: NANOS_def)
  then have "(of_int (d div NANOS) :: rat) \<le> of_nat (2 ^ 32)" by (metis of_int_le_iff of_int_of_nat_eq of_nat_numeral of_nat_power)
  moreover have "(0 :: rat) \<le> of_int (d div NANOS)" using assms(1) by (simp add: NANOS_def pos_imp_zdiv_nonneg_iff)
  ultimately obtain a where a: "f64_of (of_int (d div NANOS)) = Fin a" "0 \<le> a" "a \<le> of_nat (2 ^ 32)"
    using f64_of_below [of "of_int (d div NANOS)" "2 ^ 32"] by auto
  have "d mod NANOS < NANOS" "0 \<le> d mod NANOS" by (simp_all add: NANOS_def)
  then have "(of_int (d mod NANOS) :: rat) \<le> of_nat (10 ^ 9)" "(0 :: rat) \<le> of_int (d mod NANOS)"
    by (simp_all add: NANOS_def)
  then obtain b where b: "f64_of (of_int (d mod NANOS)) = Fin b" "0 \<le> b" "b \<le> of_nat (10 ^ 9)"
    using f64_of_below [of "of_int (d mod NANOS)" "10 ^ 9"] by auto
  have "b / of_int NANOS \<le> of_nat 1" "0 \<le> b / of_int NANOS" using b(2,3) by (simp_all add: NANOS_def)
  then obtain c where c: "f64_of (b / of_int NANOS) = Fin c" "0 \<le> c" "c \<le> of_nat 1"
    using f64_of_below [of "b / of_int NANOS" 1] by auto
  have "0 \<le> a + c" "a + c \<le> of_nat (2 ^ 32 + 1)" using a(2,3) c(2,3) by simp_all
  then obtain y where y: "f64_of (a + c) = Fin y" "0 \<le> y" "y \<le> of_nat (2 ^ 32 + 1)"
    using f64_of_below [of "a + c" "2 ^ 32 + 1"] by auto
  then show thesis using that a(1) b(1) c(1) by (simp add: as_secs_f64_def NANOS_def)
qed

lemma mul_bounded:
  assumes "0 \<le> d" and "d \<le> 2 ^ 32 * NANOS" and "0 \<le> m" and "m \<le> 2 ^ 16"
  obtains t where "mul_f64 d (Fin m) = Some t" "0 \<le> t" "t \<le> 2 ^ 49 * NANOS"
proof -
  obtain y where y: "as_secs_f64 d = Fin y" "0 \<le> y" "y \<le> of_nat (2 ^ 32 + 1)" using assms(1,2) by (rule as_secs_bounded)
  have "m * y \<le> 2 ^ 16 * of_nat (2 ^ 32 + 1)" using assms(3,4) y by (intro mult_mono) simp_all
  then have "m * y \<le> of_nat (2 ^ 49)" "0 \<le> m * y" using assms(3) y(2) by simp_all
  then obtain z where z: "f64_of (m * y) = Fin z" "0 \<le> z" "z \<le> of_nat (2 ^ 49)"
    using f64_of_below [of "m * y" "2 ^ 49"] by auto
  have "z * of_int NANOS \<le> of_int (2 ^ 49 * NANOS)" "of_int 0 \<le> z * of_int NANOS" using z by (simp_all add: NANOS_def)
  then have "round_even (z * of_int NANOS) \<le> 2 ^ 49 * NANOS" "0 \<le> round_even (z * of_int NANOS)"
    by (intro round_even_le round_even_ge; simp)+
  then show thesis using that z(1,2) y(1) by (simp add: mul_f64_def DURATION_MAX_def NANOS_def)
qed

lemma sum_bounded:
  assumes "\<forall>d \<in> set ds. 0 \<le> d \<and> d \<le> hi" and "0 \<le> acc" and "acc + int (length ds) * hi \<le> DURATION_MAX"
  shows "\<exists>s. sum_durations acc ds = Some s \<and> 0 \<le> s \<and> s \<le> acc + int (length ds) * hi"
  using assms
proof (induction ds arbitrary: acc)
  case (Cons d ds)
  have d: "0 \<le> d" "d \<le> hi" using Cons(2) by auto
  have e: "acc + int (length (d # ds)) * hi = acc + hi + int (length ds) * hi" by (simp add: algebra_simps)
  have "0 \<le> int (length ds) * hi" using d by simp
  then have "acc + d \<le> DURATION_MAX" using Cons(4) d(2) unfolding e by linarith
  then have "add_duration acc d = Some (acc + d)" by (simp add: add_duration_def)
  moreover have "\<exists>s. sum_durations (acc + d) ds = Some s \<and> 0 \<le> s \<and> s \<le> acc + d + int (length ds) * hi"
    using Cons(2-4) d e by (intro Cons(1)) auto
  ultimately show ?case using d e by auto
qed simp

lemma differences_bounded:
  assumes "\<forall>d \<in> set (p # ds). 0 \<le> d \<and> d \<le> hi"
  shows "\<forall>d \<in> set (differences p ds). 0 \<le> d \<and> d \<le> hi"
  using assms by (induction p ds rule: differences.induct) auto

lemma length_differences [simp]: "length (differences p ds) = length ds"
  by (induction p ds rule: differences.induct) auto

lemma div_bounded:
  assumes "0 \<le> s" and "0 < n" and "n < 2 ^ 32"
  shows "\<exists>q. div_duration s (of_nat n) = Some q \<and> 0 \<le> q \<and> q \<le> s div int n"
proof -
  have u: "uint (of_nat n :: u32) = int n" using assms(3) by (simp add: uint_nat unsigned_of_nat take_bit_nat_eq_self)
  have "(of_nat n :: u32) \<noteq> 0"
  proof
    assume "(of_nat n :: u32) = 0"
    then have "int n = 0" using u by simp
    then show False using assms(2) by simp
  qed
  with u show ?thesis using assms(1,2) by (simp add: div_duration_def pos_imp_zdiv_nonneg_iff)
qed

definition longest_trip :: duration where "longest_trip = 2 ^ 32 * NANOS"

lemma average_bounded:
  assumes "ds \<noteq> []" and "length ds < 2 ^ 31" and "\<forall>d \<in> set ds. 0 \<le> d \<and> d \<le> longest_trip"
  shows "\<exists>s q. sum_durations 0 ds = Some s \<and> div_duration s (of_nat (length ds)) = Some q \<and> 0 \<le> q \<and> q \<le> longest_trip"
proof -
  have "int (length ds) * longest_trip \<le> 2 ^ 31 * longest_trip"
    using assms(2) by (intro mult_right_mono) (simp_all add: longest_trip_def NANOS_def)
  then obtain s where s: "sum_durations 0 ds = Some s" "0 \<le> s" "s \<le> int (length ds) * longest_trip"
    using sum_bounded [OF assms(3), of 0] by (auto simp: DURATION_MAX_def longest_trip_def NANOS_def)
  obtain q where q: "div_duration s (of_nat (length ds)) = Some q" "0 \<le> q" "q \<le> s div int (length ds)"
    using div_bounded [OF s(2), of "length ds"] assms(1,2) by auto
  have "s div int (length ds) \<le> int (length ds) * longest_trip div int (length ds)"
    using s(3) assms(1) by (intro zdiv_mono1) simp_all
  then show ?thesis using s(1) q assms(1) by auto
qed

text \<open>Round trips below a century and a third, over a window of fewer than two thousand million samples.\<close>

definition sane_window :: "rtt_window \<Rightarrow> bool" where
  "sane_window w \<longleftrightarrow> length (rw_samples w) \<le> rw_capacity w \<and> rw_capacity w < 2 ^ 31
     \<and> (\<forall>d \<in> set (rw_samples w). 0 \<le> d \<and> d \<le> longest_trip)"

lemma record_sane: "sane_window w \<Longrightarrow> 0 \<le> d \<Longrightarrow> d \<le> longest_trip \<Longrightarrow> sane_window (window_record d w)"
  by (cases "rw_samples w") (auto simp: sane_window_def window_record_def Let_def)

lemma jitter_bounded:
  assumes "sane_window w"
  shows "\<exists>j. window_jitter w = Some j \<and> 0 \<le> (case j of Some j \<Rightarrow> j | None \<Rightarrow> 0) \<and> (case j of Some j \<Rightarrow> j | None \<Rightarrow> 0) \<le> longest_trip"
proof (cases "rw_samples w")
  case (Cons d ds)
  show ?thesis
  proof (cases ds)
    case (Cons d' ds')
    have l: "rw_samples w = d # d' # ds'" using \<open>rw_samples w = d # ds\<close> Cons by simp
    have b: "\<forall>x \<in> set (differences d (d' # ds')). 0 \<le> x \<and> x \<le> longest_trip"
      using assms by (intro differences_bounded) (simp add: sane_window_def l)
    have "length (differences d (d' # ds')) < 2 ^ 31" using assms by (simp add: sane_window_def l)
    then obtain s q where "sum_durations 0 (differences d (d' # ds')) = Some s"
      "div_duration s (of_nat (length (differences d (d' # ds')))) = Some q" "0 \<le> q" "q \<le> longest_trip"
      using average_bounded [OF _ _ b] by auto
    then show ?thesis by (simp add: window_jitter_def l del: sum_durations.simps differences.simps of_nat_Suc)
  qed (simp add: window_jitter_def \<open>rw_samples w = d # ds\<close> longest_trip_def NANOS_def)
qed (simp add: window_jitter_def longest_trip_def NANOS_def)

lemma suggestion_bounded:
  assumes "sane_window w" and "\<not> f64_less (Fin (2 ^ 16)) m"
  shows "\<exists>t. suggest_timeout m lowest highest w = Some t \<and> lowest \<le> t \<and> t \<le> max highest lowest"
proof (cases "rw_samples w = []")
  case False
  obtain s q where q: "sum_durations 0 (rw_samples w) = Some s" "div_duration s (of_nat (length (rw_samples w))) = Some q"
    "0 \<le> q" "q \<le> longest_trip"
    using average_bounded [OF False] assms(1) by (auto simp: sane_window_def)
  obtain j where j: "window_jitter w = Some j" "0 \<le> (case j of Some j \<Rightarrow> j | None \<Rightarrow> 0)"
    "(case j of Some j \<Rightarrow> j | None \<Rightarrow> 0) \<le> longest_trip" using jitter_bounded [OF assms(1)] by blast
  obtain x where x: "f64_max m (Fin 0) = Fin x" "0 \<le> x" "x \<le> 2 ^ 16"
  proof (cases m)
    case (Fin y)
    show thesis by (rule that [of "max y 0"]) (use assms(2) Fin in \<open>auto simp: f64_max_def\<close>)
  qed (use assms(2) that [of 0] in \<open>auto simp: f64_max_def\<close>)
  obtain t where t: "mul_f64 (case j of Some j \<Rightarrow> j | None \<Rightarrow> 0) (Fin x) = Some t" "0 \<le> t" "t \<le> 2 ^ 49 * NANOS"
    using j(2) j(3) [unfolded longest_trip_def] x(2,3) by (rule mul_bounded)
  have "q + t \<le> DURATION_MAX" using q(4) t(3) by (simp add: longest_trip_def DURATION_MAX_def NANOS_def)
  then show ?thesis
    using q(1,2) j(1) x(1) t(1) False by (simp add: suggest_timeout_def window_mean_def add_duration_def Let_def) linarith
qed (simp add: suggest_timeout_def window_mean_def)

text \<open>
  C23.  A scan's tolerance of silence is always defined and between its bounds, the floor winning over a
  ceiling below it: for a jitter multiplier of at most 65536 and round trips up to \<open>2 ^ 32\<close> seconds no step of
  the computation panics, whatever was recorded.
\<close>

theorem tolerance_between_bounds:
  assumes "\<forall>d \<in> set ds. 0 \<le> d \<and> d \<le> longest_trip" and "rtt_window_capacity c < 2 ^ 31"
    and "\<not> f64_less (Fin (2 ^ 16)) (jitter_multiplier c)"
  shows "\<exists>t. silence_tolerance (fold deadline_record_rtt ds (deadline_new now c n)) = Some t
    \<and> silence_floor c \<le> t \<and> t \<le> max (silence_ceiling c) (silence_floor c)"
proof -
  let ?d = "fold deadline_record_rtt ds (deadline_new now c n)"
  have f: "ad_multiplier ?d = jitter_multiplier c \<and> ad_floor ?d = silence_floor c \<and> ad_ceiling ?d = silence_ceiling c
      \<and> sane_window (ad_window ?d)"
    using assms(1)
  proof (induction ds rule: rev_induct)
    case Nil
    then show ?case using assms(2) by (simp add: deadline_new_def sane_window_def rtt_window_new_def)
  next
    case (snoc x ds)
    then show ?case by (simp add: deadline_record_rtt_def record_sane)
  qed
  then show ?thesis using suggestion_bounded [of "ad_window ?d" "jitter_multiplier c"] assms(3) by (simp add: silence_tolerance_def)
qed

definition example_config :: deadline_config where
  "example_config = deadline_config_new (scan_budget_new 10 2 30) (scan_budget_new 5 0 5) 20 50 (Fin 4) 3"

theorem tolerance_between_bounds_witness:
  "\<exists>t. silence_tolerance (fold deadline_record_rtt [10, 16, 12] (deadline_new 0 example_config 5)) = Some t
     \<and> silence_floor example_config \<le> t \<and> t \<le> max (silence_ceiling example_config) (silence_floor example_config)"
  by (rule tolerance_between_bounds)
    (simp_all add: example_config_def deadline_config_new_def longest_trip_def NANOS_def)

section \<open>Sizing and starting\<close>

text \<open>
   A deadline sized for a probe's lifetime and for the pace of the scan is no earlier than the one and the
  other together, whatever ceiling the budget had; and a loop that begins later than its deadline was built
  has the deadline it would have had built then.
\<close>

theorem deadline_outlasts_schedule:
  assumes "0 \<le> sb_base (max_budget c)" and "0 \<le> life" and "0 \<le> pace" and "n < 2 ^ 32" and "t0 \<le> now"
    and "0 \<le> for_target_count n (min_budget c)" and "now + for_target_count n (min_budget c) \<le> INSTANT_MAX"
    and "now + max (sb_base (max_budget c)) life + max (per_target (max_budget c)) pace * int n \<le> INSTANT_MAX" and "0 \<le> t0"
  defines "c' \<equiv> allowing_pace_of pace n (allowing_for life c)"
  shows "now + life + pace * int n \<le> hard_deadline (ad_timer (deadline_new now c' n))
    \<and> deadline_start now (deadline_new t0 c' n) = deadline_new now c' n"
proof -
  let ?b = "max (sb_base (max_budget c)) life" and ?p = "max (per_target (max_budget c)) pace"
  have un: "uint (of_nat n :: u32) = int n" using assms(4) by (simp add: uint_nat unsigned_of_nat take_bit_nat_eq_self)
  have p: "pace * int n \<le> ?p * int n" "0 \<le> ?p * int n" using assms(3) by (auto intro: mult_right_mono)
  have "?b + ?p * int n \<le> DURATION_MAX" using assms(5,8,9) by (simp add: DURATION_MAX_def INSTANT_MAX_def NANOS_def)
  moreover from this have "?p * int n \<le> DURATION_MAX" using assms(1) by linarith
  moreover have "sb_base (max_budget c') = ?b" "per_target (max_budget c') = ?p"
    by (simp_all add: c'_def allowing_pace_of_def allowing_for_def with_base_at_least_def with_per_target_at_least_def covering_def)
  ultimately have u: "unclamped n (max_budget c') = ?b + ?p * int n"
    using assms(4) un by (simp add: unclamped_def Let_def saturating_add_duration_def saturating_mul_duration_def min_absorb1)
  have "unclamped n (max_budget c') \<le> sb_ceiling (max_budget c')"
    by (simp add: c'_def allowing_pace_of_def covering_def unclamped_def Let_def)
  then have sat: "for_target_count n (max_budget c') = ?b + ?p * int n" by (simp add: for_target_count_def u)
  have mb: "min_budget c' = min_budget c" by (simp add: c'_def allowing_pace_of_def allowing_for_def)
  have "later now (?b + ?p * int n) = now + (?b + ?p * int n)" using assms(8) by (simp add: later_exact)
  then have "now + life + pace * int n \<le> hard_deadline (ad_timer (deadline_new now c' n))"
    using p(1) by (simp add: deadline_new_def scan_timer_new_def sat)
  moreover have "deadline_start now (deadline_new t0 c' n) = deadline_new now c' n"
    using assms(5-9)
    by (simp add: deadline_start_def deadline_new_def scan_timer_new_def timer_start_def sat mb Let_def later_exact
        saturating_duration_since_def)
  ultimately show ?thesis by blast
qed

theorem deadline_outlasts_schedule_witness:
  "100 + 40 + 3 * 50 \<le> hard_deadline (ad_timer (deadline_new 100 (allowing_pace_of 3 50 (allowing_for 40 example_config)) 50))
   \<and> deadline_start 100 (deadline_new 0 (allowing_pace_of 3 50 (allowing_for 40 example_config)) 50)
     = deadline_new 100 (allowing_pace_of 3 50 (allowing_for 40 example_config)) 50"
  using deadline_outlasts_schedule [of example_config 40 3 50 0 100]
  by (simp add: example_config_def deadline_config_new_def scan_budget_new_def INSTANT_MAX_def NANOS_def for_target_count_def
      unclamped_def saturating_add_duration_def saturating_mul_duration_def DURATION_MAX_def)

text \<open>Sized for a probe's lifetime alone, a budget keeps its ceiling, and may end before one probe does.\<close>

lemma lifetime_alone_is_capped:
  "for_target_count 1 (max_budget (allowing_for 40 example_config)) = 30"
  by code_simp

section \<open>Holds\<close>

text \<open>What a pass does for each hold: take what has not been given, and give it to the deadline.\<close>

fun hold_all :: "(instant \<times> instant) list \<Rightarrow> instant \<Rightarrow> adaptive_deadline \<Rightarrow> adaptive_deadline" where
  "hold_all [] given d = d"
| "hold_all ((now, until) # hs) given d =
     (case held_take given now until of (fresh, given') \<Rightarrow> hold_all hs given' (allow_for_holding fresh d))"

definition held_time :: "instant \<Rightarrow> (instant \<times> instant) list \<Rightarrow> instant set" where
  "held_time given hs = {x. given \<le> x \<and> (\<exists>(now, until) \<in> set hs. now \<le> x \<and> x < until)}"

lemma held_time_finite: "finite (held_time given hs)"
proof (rule finite_subset)
  show "held_time given hs \<subseteq> (\<Union>(now, until) \<in> set hs. {now..<until})" by (auto simp: held_time_def)
qed auto

lemma held_time_Cons:
  assumes "\<forall>h \<in> set hs. now \<le> fst h"
  shows "held_time given ((now, until) # hs) = {max given now..<until} \<union> held_time (max (max given now) until) hs"
  using assms by (fastforce simp: held_time_def)

lemma held_time_card:
  assumes "\<forall>h \<in> set hs. now \<le> fst h"
  shows "int (card (held_time given ((now, until) # hs)))
    = fst (held_take given now until) + int (card (held_time (snd (held_take given now until)) hs))"
proof -
  have "{max given now..<until} \<inter> held_time (max (max given now) until) hs = {}" by (auto simp: held_time_def)
  then have "card (held_time given ((now, until) # hs))
      = card {max given now..<until} + card (held_time (max (max given now) until) hs)"
    by (simp only: held_time_Cons [OF assms] card_Un_disjoint held_time_finite finite_atLeastLessThan_int)
  moreover have "int (card {max given now..<until}) = max 0 (until - max given now)" by (simp, linarith)
  ultimately show ?thesis by (simp add: held_take_def Let_def saturating_duration_since_def)
qed

text \<open>
  C21.  Overlapping holds are credited once.  The holds of a pass, each noted when it begins, move the hard
  deadline by exactly the time covered by any of them that had not been given before.
\<close>

theorem holds_credited_once:
  assumes "sorted (map fst hs)" and "hard_deadline (ad_timer d) + int (card (held_time given hs)) \<le> INSTANT_MAX"
  shows "hard_deadline (ad_timer (hold_all hs given d)) = hard_deadline (ad_timer d) + int (card (held_time given hs))"
  using assms
proof (induction hs arbitrary: given d)
  case Nil
  then show ?case by (simp add: held_time_def)
next
  case (Cons h hs)
  obtain now until where h: "h = (now, until)" by (cases h)
  obtain fresh g where t: "held_take given now until = (fresh, g)" by fastforce
  have c: "int (card (held_time given (h # hs))) = fresh + int (card (held_time g hs))"
    using held_time_card [of hs now given until] Cons(2) by (auto simp: h t)
  have d: "hard_deadline (ad_timer (allow_for_holding fresh d)) = hard_deadline (ad_timer d) + fresh"
    using Cons(3) c by (simp add: allow_for_holding_def timer_extend_def later_exact)
  then show ?case using Cons(1) [of "allow_for_holding fresh d" g] Cons(2,3) c by (simp add: h t)
qed

theorem holds_credited_once_witness:
  "hard_deadline (ad_timer (hold_all [(5, 20), (8, 15), (30, 40)] 0 (deadline_new 0 example_config 5)))
     = hard_deadline (ad_timer (deadline_new 0 example_config 5)) + int (card (held_time 0 [(5, 20), (8, 15), (30, 40)]))"
proof (rule holds_credited_once)
  show "sorted (map fst [(5 :: instant, 20 :: instant), (8, 15), (30, 40)])" by simp
  have "held_time 0 [(5, 20), (8, 15), (30, 40)] \<subseteq> {0..<40}" by (auto simp: held_time_def)
  then have "card (held_time 0 [(5, 20), (8, 15), (30, 40)]) \<le> card {0..<40 :: instant}" by (intro card_mono) simp_all
  then have "int (card (held_time 0 [(5, 20), (8, 15), (30, 40)])) \<le> 40" by simp
  moreover have "hard_deadline (ad_timer (deadline_new 0 example_config 5)) = 20" by code_simp
  ultimately show "hard_deadline (ad_timer (deadline_new 0 example_config 5))
      + int (card (held_time 0 [(5, 20), (8, 15), (30, 40)])) \<le> INSTANT_MAX"
    by (simp add: INSTANT_MAX_def NANOS_def)
qed

end
