(* ===== verification/Telemetry_Correct.thy ===== *)
theory Telemetry_Correct
  imports Telemetry "HOL-Library.Multiset"
begin

text \<open>
  The window of round trips: it holds the newest samples whether they were pushed one by one or merged from
  two windows, and its summaries lie between its least and its greatest.
\<close>

section \<open>What the window holds\<close>

lemma drop_oldest_drop [simp]: "drop_oldest n xs = drop (length xs - n) xs"
proof (induction n xs rule: drop_oldest.induct)
  case (2 n x xs)
  then show ?case by (auto simp: Suc_diff_le)
qed simp

lemma drop_again:
  assumes "1 \<le> m"
  shows "drop (Suc (length xs - (length xs - m)) - m) (drop (length xs - m) xs @ [x]) = drop (Suc (length xs) - m) (xs @ [x])"
proof (cases "m \<le> length xs")
  case True
  then have "Suc (length xs - (length xs - m)) - m = 1" "Suc (length xs) - m = Suc (length xs - m)" by simp_all
  then show ?thesis using assms True by (simp add: drop_Suc tl_drop)
qed (use assms in auto)

definition telemetry_ok :: "host_telemetry \<Rightarrow> bool" where
  "telemetry_ok t \<longleftrightarrow> 1 \<le> max_samples t \<and> length (rtt_history t) \<le> max_samples t"

lemma push_history:
  "1 \<le> max_samples t \<Longrightarrow> rtt_history (push_sample s t) = drop (Suc (length (rtt_history t)) - max_samples t) (rtt_history t @ [s])"
  by (simp add: push_sample_def)

lemma push_max [simp]: "max_samples (push_sample s t) = max_samples t"
  by (simp add: push_sample_def)

lemma push_all:
  assumes "telemetry_ok t"
  shows "rtt_history (fold push_sample ss t) = drop (length (rtt_history t @ ss) - max_samples t) (rtt_history t @ ss)
    \<and> max_samples (fold push_sample ss t) = max_samples t"
proof (induction ss rule: rev_induct)
  case Nil
  then show ?case using assms by (simp add: telemetry_ok_def)
next
  case (snoc s ss)
  have m: "1 \<le> max_samples t" using assms by (simp add: telemetry_ok_def)
  let ?xs = "rtt_history t @ ss" and ?u = "fold push_sample ss t"
  have "rtt_history (fold push_sample (ss @ [s]) t) = drop (Suc (length (rtt_history ?u)) - max_samples t) (rtt_history ?u @ [s])"
    using snoc m push_history [of ?u s] by simp
  also have "\<dots> = drop (Suc (length ?xs) - max_samples t) (?xs @ [s])"
    using snoc drop_again [OF m, of ?xs s] by (simp only: length_drop)
  finally show ?case using snoc by simp
qed

lemma merge_history:
  assumes "1 \<le> max_samples t"
  shows "rtt_history (merge_telemetry t u)
      = drop (length (rtt_history t @ rtt_history u) - max (max_samples t) (max_samples u))
          (sort_key taken (rtt_history t @ rtt_history u))"
    and "max_samples (merge_telemetry t u) = max (max_samples t) (max_samples u)"
  using assms by (simp_all add: merge_telemetry_def Let_def max_def split: option.split)

lemma sorted_split:
  assumes "sorted (map f (xs @ ys))" and "x \<in> set xs" and "y \<in> set ys"
  shows "f x \<le> (f y :: int)"
  using assms by (auto simp: sorted_append)

text \<open>
  C24.  Merging two windows keeps the newest.  The merged window holds as many of the samples of both as it has
  room for, in the order they were taken, and none it left out was taken after one it kept.
\<close>

theorem merge_keeps_newest:
  assumes "telemetry_ok t" and "telemetry_ok u"
  shows "telemetry_ok (merge_telemetry t u)
    \<and> length (rtt_history (merge_telemetry t u)) = min (max (max_samples t) (max_samples u)) (length (rtt_history t) + length (rtt_history u))
    \<and> sorted (map taken (rtt_history (merge_telemetry t u)))
    \<and> (\<exists>left. mset left + mset (rtt_history (merge_telemetry t u)) = mset (rtt_history t) + mset (rtt_history u)
        \<and> (\<forall>a \<in> set left. \<forall>b \<in> set (rtt_history (merge_telemetry t u)). taken a \<le> taken b))"
proof -
  let ?s = "sort_key taken (rtt_history t @ rtt_history u)" and ?n = "max (max_samples t) (max_samples u)"
  let ?k = "length (rtt_history t @ rtt_history u) - ?n"
  have h: "rtt_history (merge_telemetry t u) = drop ?k ?s" "max_samples (merge_telemetry t u) = ?n"
    using merge_history [of t u] assms by (simp_all add: telemetry_ok_def)
  have s: "sorted (map taken (take ?k ?s @ drop ?k ?s))" by simp
  have "length (drop ?k ?s) = min ?n (length (rtt_history t) + length (rtt_history u))" by simp
  moreover have "sorted (map taken (drop ?k ?s))" by (simp add: drop_map [symmetric] sorted_wrt_drop)
  moreover have "mset (take ?k ?s) + mset (drop ?k ?s) = mset (rtt_history t) + mset (rtt_history u)"
    by (metis append_take_drop_id mset_append mset_sort)
  moreover have "\<forall>a \<in> set (take ?k ?s). \<forall>b \<in> set (drop ?k ?s). taken a \<le> taken b"
    using sorted_split [OF s] by blast
  ultimately show ?thesis using assms(1) h by (auto simp: telemetry_ok_def)
qed

definition example_window :: "(instant \<times> duration) list \<Rightarrow> host_telemetry" where
  "example_window xs = fold (\<lambda>(now, rtt). add_rtt now rtt) xs (telemetry_new 2)"

theorem merge_keeps_newest_witness:
  "map taken (rtt_history (merge_telemetry (example_window [(1, 30), (5, 40)]) (example_window [(3, 20)]))) = [3, 5]
   \<and> telemetry_ok (merge_telemetry (example_window [(1, 30), (5, 40)]) (example_window [(3, 20)]))"
proof
  show "map taken (rtt_history (merge_telemetry (example_window [(1, 30), (5, 40)]) (example_window [(3, 20)]))) = [3, 5]"
    by code_simp
  have "telemetry_ok (example_window [(1, 30), (5, 40)])" "telemetry_ok (example_window [(3, 20)])" by code_simp+
  then show "telemetry_ok (merge_telemetry (example_window [(1, 30), (5, 40)]) (example_window [(3, 20)]))"
    using merge_keeps_newest by blast
qed

section \<open>Summaries\<close>

lemma fold_min: "fold min ds d \<in> set (d # ds) \<and> (\<forall>x \<in> set (d # ds). fold min ds d \<le> (x :: int))"
  by (induction ds arbitrary: d) (fastforce simp: min_def)+

lemma fold_max: "fold max ds d \<in> set (d # ds) \<and> (\<forall>x \<in> set (d # ds). (x :: int) \<le> fold max ds d)"
  by (induction ds arbitrary: d) (fastforce simp: max_def)+

lemma min_of_bound: "ds \<noteq> [] \<Longrightarrow> \<exists>m. min_of ds = Some m \<and> m \<in> set ds \<and> (\<forall>x \<in> set ds. m \<le> x)"
  using fold_min by (cases ds) (auto simp: min_of_def)

lemma max_of_bound: "ds \<noteq> [] \<Longrightarrow> \<exists>m. max_of ds = Some m \<and> m \<in> set ds \<and> (\<forall>x \<in> set ds. x \<le> m)"
  using fold_max by (cases ds) (auto simp: max_of_def)

lemma median_bound:
  assumes "ds \<noteq> []" and "\<forall>x \<in> set ds. lo \<le> x \<and> x \<le> hi"
  shows "\<exists>m. median ds = Some m \<and> lo \<le> m \<and> m \<le> hi"
proof -
  have i: "lo \<le> sort ds ! i \<and> sort ds ! i \<le> hi" if "i < length ds" for i
    using assms(2) that by (metis length_sort nth_mem set_sort)
  let ?m = "length ds div 2"
  have m: "?m < length ds" "?m - 1 < length ds" using assms(1) by (simp_all add: less_imp_diff_less)
  have "sort ds ! (?m - 1) \<le> sort ds ! ?m" using m by (intro sorted_nth_mono) simp_all
  then show ?thesis using i [OF m(1)] i [OF m(2)] assms(1) by (auto simp: median_def Let_def)
qed

lemma counted_up_u32: "int n < 2 ^ 32 - 1 \<Longrightarrow> saturating_add (of_nat n :: u32) 1 = of_nat (Suc n)"
proof -
  assume "int n < 2 ^ 32 - 1"
  then have "uint (of_nat n :: u32) = int n" by (simp add: uint_nat unsigned_of_nat take_bit_nat_eq_self)
  then show ?thesis using \<open>int n < 2 ^ 32 - 1\<close> by (simp add: saturating_add_def add.commute)
qed

lemma average_fold:
  assumes "\<forall>x \<in> set ds. lo \<le> x \<and> x \<le> hi" and "0 \<le> lo" and "int (length ds) * hi \<le> DURATION_MAX" and "int (length ds) < 2 ^ 32"
  shows "\<exists>s. fold (\<lambda>rtt (acc, n). (saturating_add_duration acc rtt, saturating_add n (1 :: u32))) ds (0, 0) = (s, of_nat (length ds))
    \<and> int (length ds) * lo \<le> s \<and> s \<le> int (length ds) * hi"
  using assms
proof (induction ds rule: rev_induct)
  case (snoc x ds)
  have "int (length ds) * hi \<le> int (length (ds @ [x])) * hi" using snoc(2,3) by (intro mult_right_mono) auto
  then obtain s where s: "fold (\<lambda>rtt (acc, n). (saturating_add_duration acc rtt, saturating_add n (1 :: u32))) ds (0, 0) = (s, of_nat (length ds))"
    "int (length ds) * lo \<le> s" "s \<le> int (length ds) * hi" using snoc by auto
  have "s + x \<le> int (length (ds @ [x])) * hi" "int (length (ds @ [x])) * lo \<le> s + x"
    using s(2,3) snoc(2) by (simp_all add: algebra_simps)
  moreover from this have "saturating_add_duration s x = s + x" using snoc(4) by (simp add: saturating_add_duration_def)
  moreover have "saturating_add (of_nat (length ds) :: u32) 1 = of_nat (Suc (length ds))"
    using snoc(5) by (intro counted_up_u32) simp
  ultimately show ?case by (simp add: s(1) del: of_nat_Suc)
qed simp

text \<open>
   The least, the greatest, the median and the average of a window are all answered once anything was
  measured, and the median and the average lie between the other two, as long as the sum of the round trips
  is a \<open>Duration\<close>.
\<close>

theorem summaries_between:
  assumes "rtt_history t \<noteq> []" and "\<forall>s \<in> set (rtt_history t). 0 \<le> sample_rtt s \<and> sample_rtt s \<le> bound"
    and "int (length (rtt_history t)) * bound \<le> DURATION_MAX" and "int (length (rtt_history t)) < 2 ^ 32"
  shows "\<exists>lo hi m a. min_rtt t = Some lo \<and> max_rtt t = Some hi \<and> median_rtt t = Some m \<and> average_rtt t = Some a
    \<and> lo \<le> m \<and> m \<le> hi \<and> lo \<le> a \<and> a \<le> hi"
proof (cases "has_direct t")
  case False
  obtain b where "tightest_bound t = Some b"
    using min_of_bound [of "map sample_rtt (rtt_history t)"] assms(1) by (auto simp: tightest_bound_def)
  then show ?thesis using False by (simp add: min_rtt_def max_rtt_def median_rtt_def average_rtt_def)
next
  case True
  let ?ds = "direct t" and ?n = "int (length (direct t))"
  have ne: "?ds \<noteq> []" using True by (auto simp: has_direct_def direct_def filter_empty_conv)
  obtain lo where lo: "min_of ?ds = Some lo" "lo \<in> set ?ds" "\<forall>x \<in> set ?ds. lo \<le> x" using min_of_bound [OF ne] by blast
  obtain hi where hi: "max_of ?ds = Some hi" "hi \<in> set ?ds" "\<forall>x \<in> set ?ds. x \<le> hi" using max_of_bound [OF ne] by blast
  have b: "0 \<le> lo" "0 \<le> hi" "hi \<le> bound" using lo(2) hi(2) assms(2) by (auto simp: direct_def)
  have l: "?n \<le> int (length (rtt_history t))" by (simp add: direct_def length_filter_le)
  have "?n * hi \<le> int (length (rtt_history t)) * bound" using l b by (intro mult_mono) simp_all
  then obtain s where s: "fold (\<lambda>rtt (acc, n). (saturating_add_duration acc rtt, saturating_add n (1 :: u32))) ?ds (0, 0) = (s, of_nat (length ?ds))"
    "?n * lo \<le> s" "s \<le> ?n * hi"
    using average_fold [of ?ds lo hi] lo(3) hi(3) b assms(3,4) l by auto
  have u: "uint (of_nat (length ?ds) :: u32) = ?n"
    using l assms(4) by (simp add: uint_nat unsigned_of_nat take_bit_nat_eq_self)
  have "0 < ?n" using ne by simp
  then have "(0 :: u32) < of_nat (length ?ds)" using u by (simp add: word_less_def)
  then have "average_rtt t = Some (s div ?n)" using True s(1) u by (simp add: average_rtt_def)
  moreover have "lo \<le> s div ?n" using s(2) \<open>0 < ?n\<close> zdiv_mono1 [of "?n * lo" s ?n] by simp
  moreover have "s div ?n \<le> hi" using s(3) \<open>0 < ?n\<close> zdiv_mono1 [of s "?n * hi" ?n] by simp
  moreover obtain m where "median ?ds = Some m" "lo \<le> m" "m \<le> hi" using median_bound [OF ne, of lo hi] lo(3) hi(3) by auto
  ultimately show ?thesis using True lo(1) hi(1) by (simp add: min_rtt_def max_rtt_def median_rtt_def)
qed

theorem summaries_between_witness:
  "\<exists>lo hi m a. min_rtt (example_window [(1, 30), (5, 40)]) = Some lo \<and> max_rtt (example_window [(1, 30), (5, 40)]) = Some hi
     \<and> median_rtt (example_window [(1, 30), (5, 40)]) = Some m \<and> average_rtt (example_window [(1, 30), (5, 40)]) = Some a
     \<and> lo \<le> m \<and> m \<le> hi \<and> lo \<le> a \<and> a \<le> hi"
proof (rule summaries_between)
  show "rtt_history (example_window [(1, 30), (5, 40)]) \<noteq> []" by code_simp
  show "\<forall>s \<in> set (rtt_history (example_window [(1, 30), (5, 40)])). 0 \<le> sample_rtt s \<and> sample_rtt s \<le> 40" by code_simp
  show "int (length (rtt_history (example_window [(1, 30), (5, 40)]))) * 40 \<le> DURATION_MAX" by code_simp
  show "int (length (rtt_history (example_window [(1, 30), (5, 40)]))) < 2 ^ 32" by code_simp
qed

end
