(* ===== verification/Version.thy ===== *)
theory Version
  imports Rust_Text "HOL-Library.List_Lexorder" "HOL-Library.Char_ord"
begin

text \<open>
  The two orders on version strings, after \<open>version.rs\<close>: the lax order of what a service says
  about itself (\<open>version_cmp\<close>) and the order of Debian package versions (\<open>dpkg_cmp\<close>).  Text is
  ASCII, so a byte is a character and the byte order is the order of characters.

  A comparison function that is reflexive, reversed by swapping its arguments and transitive is a
  \<open>comparator\<close>; the constructions the source uses (comparing keys, falling through to a second
  comparison, comparing lists position by position with a default past the end) build comparators
  from comparators.
\<close>

section \<open>Comparison functions\<close>

fun reverse :: "ordering \<Rightarrow> ordering" where
  "reverse Less = Greater"
| "reverse Equal = Equal"
| "reverse Greater = Less"

text \<open>The first answer that is not \<open>Equal\<close>: a loop that returns early, or \<open>find(is_ne)\<close>.\<close>

fun first_ne :: "ordering list \<Rightarrow> ordering" where
  "first_ne [] = Equal"
| "first_ne (r # rs) = (if r \<noteq> Equal then r else first_ne rs)"

text \<open>\<open>str::split_once\<close> and \<open>str::rsplit_once\<close> on a character.\<close>

definition split_once :: "char \<Rightarrow> string \<Rightarrow> (string \<times> string) option" where
  "split_once c s =
     (if c \<in> set s then Some (takeWhile (\<lambda>x. x \<noteq> c) s, tl (dropWhile (\<lambda>x. x \<noteq> c) s)) else None)"

definition rsplit_once :: "char \<Rightarrow> string \<Rightarrow> (string \<times> string) option" where
  "rsplit_once c s =
     (case split_once c (rev s) of None \<Rightarrow> None | Some (r, l) \<Rightarrow> Some (rev l, rev r))"

lemma split_once_length:
  "split_once c s = Some (l, r) \<Longrightarrow> s = l @ c # r"
proof -
  assume a: "split_once c s = Some (l, r)"
  then have "c \<in> set s" and l: "l = takeWhile (\<lambda>x. x \<noteq> c) s"
    and r: "r = tl (dropWhile (\<lambda>x. x \<noteq> c) s)"
    by (auto simp: split_once_def split: if_splits)
  then have "dropWhile (\<lambda>x. x \<noteq> c) s \<noteq> []" by auto
  moreover have "hd (dropWhile (\<lambda>x. x \<noteq> c) s) = c"
    using hd_dropWhile [OF \<open>dropWhile (\<lambda>x. x \<noteq> c) s \<noteq> []\<close>] by simp
  ultimately have "dropWhile (\<lambda>x. x \<noteq> c) s = c # r"
    using r by (metis list.collapse)
  then show ?thesis using l by (metis takeWhile_dropWhile_id)
qed

section \<open>What a service says about itself\<close>

text \<open>The loop of \<open>split_pre_release\<close>: \<open>seen\<close> is what lies before the position searched from.\<close>

function split_pre_release_from :: "string \<Rightarrow> string \<Rightarrow> string \<times> string option" where
  "split_pre_release_from seen version =
     (case split_once (CHR ''-'') version of
        None \<Rightarrow> (seen @ version, None)
      | Some (before, rest) \<Rightarrow>
          (if \<not> (rest \<noteq> [] \<and> is_ascii_digit (hd rest)) then (seen @ before, Some rest)
           else split_pre_release_from (seen @ before @ ''-'') rest))"
  by pat_completeness auto
termination
  by (relation "measure (\<lambda>(seen, version). length version)") (auto dest: split_once_length)

declare split_pre_release_from.simps [simp del]

definition split_pre_release :: "string \<Rightarrow> string \<times> string option" where
  "split_pre_release version = split_pre_release_from [] version"

definition digits :: "string \<Rightarrow> bool" where
  "digits s \<longleftrightarrow> s \<noteq> [] \<and> is_ascii_digit (hd s)"

definition take_run :: "string \<Rightarrow> bool \<Rightarrow> string \<times> string" where
  "take_run s want_digits =
     (takeWhile (\<lambda>c. is_ascii_digit c = want_digits) s, dropWhile (\<lambda>c. is_ascii_digit c = want_digits) s)"

text \<open>Two runs of digits: as numbers where both fit a \<open>u64\<close>, else by length and then as text.\<close>

definition run_cmp :: "string \<Rightarrow> string \<Rightarrow> ordering" where
  "run_cmp x y =
     (case (parse_uint x :: int_error_kind + u64, parse_uint y :: int_error_kind + u64) of
        (Inr m, Inr n) \<Rightarrow> cmp m n
      | _ \<Rightarrow> then_with (cmp (length x) (length y)) (cmp x y))"

lemma take_run_shorter:
  assumes "take_run s d = (x, r)" and "s \<noteq> []" and "digits s = d"
  shows "length r < length s"
proof -
  have "r = dropWhile (\<lambda>c. is_ascii_digit c = d) s" and "is_ascii_digit (hd s) = d"
    using assms by (auto simp: take_run_def digits_def)
  moreover obtain c cs where "s = c # cs" using assms(2) by (cases s) auto
  ultimately show ?thesis
    using length_dropWhile_le [of "\<lambda>c. is_ascii_digit c = d" cs] by (auto simp: le_imp_less_Suc)
qed

function component_cmp :: "string \<Rightarrow> string \<Rightarrow> ordering" where
  "component_cmp a b =
     (if a = [] \<or> b = [] then cmp (length a) (length b)
      else case (digits a, digits b) of
        (True, True) \<Rightarrow>
          (let (x, rest_a) = take_run a True; (y, rest_b) = take_run b True in
           if run_cmp x y \<noteq> Equal then run_cmp x y else component_cmp rest_a rest_b)
      | (False, False) \<Rightarrow>
          (let (x, rest_a) = take_run a False; (y, rest_b) = take_run b False in
           if cmp x y \<noteq> Equal then cmp x y else component_cmp rest_a rest_b)
      | (True, False) \<Rightarrow> Greater
      | (False, True) \<Rightarrow> Less)"
  by pat_completeness auto
termination
  by (relation "measure (\<lambda>(a, b). length a)") (auto intro: take_run_shorter [OF sym])

declare component_cmp.simps [simp del]

text \<open>\<open>get(index).unwrap_or(default)\<close>.\<close>

definition get_or :: "'a \<Rightarrow> 'a list \<Rightarrow> nat \<Rightarrow> 'a" where
  "get_or d xs i = (if i < length xs then xs ! i else d)"

definition components :: "string \<Rightarrow> string \<Rightarrow> ordering" where
  "components a b =
     (let xs = split_by (\<lambda>c. c = CHR ''.'' \<or> c = CHR ''-'') a;
          ys = split_by (\<lambda>c. c = CHR ''.'' \<or> c = CHR ''-'') b
      in first_ne (map (\<lambda>i. component_cmp (get_or ''0'' xs i) (get_or ''0'' ys i))
                       [0..<max (length xs) (length ys)]))"

definition version_cmp :: "string \<Rightarrow> string \<Rightarrow> ordering" where
  "version_cmp a b =
     (let (a_release, a_pre) = split_pre_release a; (b_release, b_pre) = split_pre_release b in
      if components a_release b_release \<noteq> Equal then components a_release b_release
      else case (a_pre, b_pre) of
             (None, None) \<Rightarrow> Equal
           | (Some x, None) \<Rightarrow> Less
           | (None, Some y) \<Rightarrow> Greater
           | (Some x, Some y) \<Rightarrow> components x y)"

section \<open>Debian package versions\<close>

definition dpkg_parts :: "string \<Rightarrow> string \<times> string \<times> string" where
  "dpkg_parts version =
     (let (epoch, rest) =
        (case split_once (CHR '':'') version of
           Some (e, r) \<Rightarrow> if e \<noteq> [] \<and> list_all is_ascii_digit e then (e, r) else (''0'', version)
         | None \<Rightarrow> (''0'', version))
      in case rsplit_once (CHR ''-'') rest of
           Some (upstream, revision) \<Rightarrow> (epoch, upstream, revision)
         | None \<Rightarrow> (epoch, rest, ''0''))"

definition dpkg_revision :: "string \<Rightarrow> string" where
  "dpkg_revision version = snd (snd (dpkg_parts version))"

definition split_run :: "string \<Rightarrow> bool \<Rightarrow> string \<times> string" where
  "split_run s ds = (takeWhile (\<lambda>c. is_ascii_digit c = ds) s, dropWhile (\<lambda>c. is_ascii_digit c = ds) s)"

definition dpkg_weight :: "char option \<Rightarrow> int" where
  "dpkg_weight c =
     (case c of
        None \<Rightarrow> 0
      | Some b \<Rightarrow> if b = CHR ''~'' then -1
                  else if is_ascii_alphabetic b then of_char b else of_char b + 256)"

definition digit_run_cmp :: "string \<Rightarrow> string \<Rightarrow> ordering" where
  "digit_run_cmp a b =
     (let a = dropWhile (\<lambda>c. c = CHR ''0'') a; b = dropWhile (\<lambda>c. c = CHR ''0'') b
      in then_with (cmp (length a) (length b)) (cmp a b))"

text \<open>\<open>slice::get\<close>.\<close>

definition slice_get :: "'a list \<Rightarrow> nat \<Rightarrow> 'a option" where
  "slice_get xs i = (if i < length xs then Some (xs ! i) else None)"

definition text_run_cmp :: "string \<Rightarrow> string \<Rightarrow> ordering" where
  "text_run_cmp a b =
     first_ne (map (\<lambda>i. cmp (dpkg_weight (slice_get a i)) (dpkg_weight (slice_get b i)))
                   [0..<max (length a) (length b)])"

lemma split_run_rest: "length (snd (split_run (snd (split_run s False)) True)) \<le> length s"
proof -
  have "length (snd (split_run (snd (split_run s False)) True)) \<le> length (snd (split_run s False))"
    by (simp add: split_run_def length_dropWhile_le)
  also have "\<dots> \<le> length s" by (simp add: split_run_def length_dropWhile_le)
  finally show ?thesis .
qed

lemma split_run_consumes:
  assumes "s \<noteq> []"
  shows "length (snd (split_run (snd (split_run s False)) True)) < length s"
proof -
  obtain c cs where s: "s = c # cs" using assms by (cases s) auto
  show ?thesis
  proof (cases "is_ascii_digit c")
    case True
    then have "snd (split_run (snd (split_run s False)) True) = dropWhile is_ascii_digit cs"
      by (simp add: split_run_def s)
    then show ?thesis using length_dropWhile_le [of is_ascii_digit cs] by (simp add: s)
  next
    case False
    then have "snd (split_run (snd (split_run s False)) True)
      = dropWhile is_ascii_digit (dropWhile (\<lambda>c. \<not> is_ascii_digit c) cs)"
      by (simp add: split_run_def s)
    moreover have "length \<dots> \<le> length cs"
      by (rule order_trans [OF length_dropWhile_le length_dropWhile_le])
    ultimately show ?thesis by (simp add: s)
  qed
qed

function dpkg_part_cmp :: "string \<Rightarrow> string \<Rightarrow> ordering" where
  "dpkg_part_cmp a b =
     (if a \<noteq> [] \<or> b \<noteq> [] then
        (let a_text = fst (split_run a False); a_rest = snd (split_run a False);
             b_text = fst (split_run b False); b_rest = snd (split_run b False) in
         if text_run_cmp a_text b_text \<noteq> Equal then text_run_cmp a_text b_text
         else
           (let a_digits = fst (split_run a_rest True); b_digits = fst (split_run b_rest True) in
            if digit_run_cmp a_digits b_digits \<noteq> Equal then digit_run_cmp a_digits b_digits
            else dpkg_part_cmp (snd (split_run a_rest True)) (snd (split_run b_rest True))))
      else Equal)"
  by pat_completeness auto
termination
proof (relation "measure (\<lambda>(a, b). length a + length b)", goal_cases)
  case (2 a b)
  show ?case
    using 2(1) split_run_rest [of a] split_run_rest [of b] split_run_consumes [of a] split_run_consumes [of b]
    by (auto simp: 2 intro: add_less_le_mono add_le_less_mono)
qed simp

declare dpkg_part_cmp.simps [simp del]

definition dpkg_cmp :: "string \<Rightarrow> string \<Rightarrow> ordering" where
  "dpkg_cmp a b =
     (let (a_epoch, a_upstream, a_revision) = dpkg_parts a;
          (b_epoch, b_upstream, b_revision) = dpkg_parts b
      in then_with (then_with (digit_run_cmp a_epoch b_epoch) (dpkg_part_cmp a_upstream b_upstream))
                   (dpkg_part_cmp a_revision b_revision))"

end
