(* ===== verification/Version_Correct.thy ===== *)
theory Version_Correct
  imports Version
begin

text \<open>
  Both orders on version strings are total: \<open>dpkg_cmp\<close> on every text, and \<open>version_cmp\<close> on the
  texts whose runs of digits fit a \<open>u64\<close>.  Past that width \<open>version_cmp\<close> is still reversed by
  swapping its arguments, and is not transitive.
\<close>

section \<open>Comparators\<close>

text \<open>The contract of an \<open>Ord\<close> implementation, on the values of a domain.\<close>

locale comparator =
  fixes D :: "'a \<Rightarrow> bool" and f :: "'a \<Rightarrow> 'a \<Rightarrow> ordering"
  assumes compares_self: "D x \<Longrightarrow> f x x = Equal"
    and compares_flipped: "D x \<Longrightarrow> D y \<Longrightarrow> f y x = reverse (f x y)"
    and compares_chain:
      "D x \<Longrightarrow> D y \<Longrightarrow> D z \<Longrightarrow> f x y \<noteq> Greater \<Longrightarrow> f y z \<noteq> Greater \<Longrightarrow> f x z \<noteq> Greater"
begin

lemma equal_iff:
  assumes "D x" "D y"
  shows "f x y = Equal \<longleftrightarrow> f x y \<noteq> Greater \<and> f y x \<noteq> Greater"
  using compares_flipped [OF assms] by (cases "f x y") auto

lemma less_iff:
  assumes "D x" "D y"
  shows "f x y = Less \<longleftrightarrow> \<not> f y x \<noteq> Greater"
  using compares_flipped [OF assms] by (cases "f x y") auto

lemma chain_less:
  assumes "D x" "D y" "D z" "f x y \<noteq> Greater" "f y z \<noteq> Greater" "f x y = Less \<or> f y z = Less"
  shows "f x z = Less"
  using assms compares_chain less_iff by (metis (full_types))

lemma chain_equal:
  assumes "D x" "D y" "D z" "f x y = Equal" "f y z = Equal"
  shows "f x z = Equal"
  using assms compares_chain equal_iff by metis

text \<open>Falling through to a second comparison where the first is equal.\<close>

lemma chain_then:
  assumes "D x" "D y" "D z"
    and "then_with (f x y) r \<noteq> Greater" and "then_with (f y z) s \<noteq> Greater"
    and "r \<noteq> Greater \<Longrightarrow> s \<noteq> Greater \<Longrightarrow> t \<noteq> Greater"
  shows "then_with (f x z) t \<noteq> Greater"
proof -
  have le: "f x y \<noteq> Greater" "f y z \<noteq> Greater"
    using assms(4,5) by auto
  show ?thesis
  proof (cases "f x y = Less \<or> f y z = Less")
    case True
    with chain_less [OF assms(1-3) le] show ?thesis by simp
  next
    case False
    with le have eq: "f x y = Equal" "f y z = Equal" using ordering.exhaust by metis+
    then show ?thesis using chain_equal [OF assms(1-3) eq] assms(4-6) by simp
  qed
qed

end

lemma reverse_then: "reverse (then_with a b) = then_with (reverse a) (reverse b)"
  by (cases a) auto

lemma then_with_iff: "(if a \<noteq> Equal then a else b) = then_with a b"
  by (cases a) auto

lemma then_with_split: "then_with a b = (if a = Equal then b else a)"
  by (cases a) auto

lemma cmp_flip: "cmp y x = reverse (cmp x y)"
  by (auto simp: cmp_def)

lemma comparator_cmp: "comparator (\<lambda>_. True) cmp"
  by unfold_locales (auto simp: cmp_def split: if_splits)

lemma comparator_key:
  assumes "comparator D f" and "\<And>x. E x \<Longrightarrow> D (k x)"
  shows "comparator E (\<lambda>a b. f (k a) (k b))"
proof -
  note laws = comparator.compares_self [OF assms(1)] comparator.compares_flipped [OF assms(1)]
    comparator.compares_chain [OF assms(1)]
  show ?thesis by unfold_locales (use laws assms(2) in blast)+
qed

lemma comparator_then:
  assumes "comparator D f" and "comparator D g"
  shows "comparator D (\<lambda>a b. then_with (f a b) (g a b))"
proof unfold_locales
  fix x y z
  assume "D x"
  then show "then_with (f x x) (g x x) = Equal"
    using assms by (simp add: comparator.compares_self)
  assume "D y"
  with \<open>D x\<close> show "then_with (f y x) (g y x) = reverse (then_with (f x y) (g x y))"
    by (simp only: reverse_then comparator.compares_flipped [OF assms(1) \<open>D x\<close> \<open>D y\<close>]
        comparator.compares_flipped [OF assms(2) \<open>D x\<close> \<open>D y\<close>])
  assume "D z" and le: "then_with (f x y) (g x y) \<noteq> Greater" "then_with (f y z) (g y z) \<noteq> Greater"
  show "then_with (f x z) (g x z) \<noteq> Greater"
    by (rule comparator.chain_then [OF assms(1) \<open>D x\<close> \<open>D y\<close> \<open>D z\<close> le
          comparator.compares_chain [OF assms(2) \<open>D x\<close> \<open>D y\<close> \<open>D z\<close>]])
qed

lemma comparator_cong:
  assumes "comparator D f" and "\<And>x y. D x \<Longrightarrow> D y \<Longrightarrow> g x y = f x y"
  shows "comparator D g"
proof -
  note laws = comparator.compares_self [OF assms(1)] comparator.compares_flipped [OF assms(1)]
    comparator.compares_chain [OF assms(1)]
  show ?thesis
  proof unfold_locales
    fix x y z
    assume "D x"
    then show "g x x = Equal" using laws(1) assms(2) by simp
    assume "D y"
    with \<open>D x\<close> show "g y x = reverse (g x y)"
      using laws(2) [of x y] assms(2) [of x y] assms(2) [of y x] by simp
    assume "D z" "g x y \<noteq> Greater" "g y z \<noteq> Greater"
    with \<open>D x\<close> \<open>D y\<close> show "g x z \<noteq> Greater"
      using laws(3) [of x y z] assms(2) [of x y] assms(2) [of y z] assms(2) [of x z] by simp
  qed
qed

section \<open>Lists with a default past the end\<close>

fun pad_cmp :: "('a \<Rightarrow> 'a \<Rightarrow> ordering) \<Rightarrow> 'a \<Rightarrow> 'a list \<Rightarrow> 'a list \<Rightarrow> ordering" where
  "pad_cmp f d [] [] = Equal"
| "pad_cmp f d (x # xs) [] = then_with (f x d) (pad_cmp f d xs [])"
| "pad_cmp f d [] (y # ys) = then_with (f d y) (pad_cmp f d [] ys)"
| "pad_cmp f d (x # xs) (y # ys) = then_with (f x y) (pad_cmp f d xs ys)"

lemma get_or_simps [simp]:
  "get_or d [] i = d" "get_or d (x # xs) 0 = x" "get_or d (x # xs) (Suc i) = get_or d xs i"
  by (auto simp: get_or_def)

lemma first_ne_shift:
  "first_ne (map g [0..<Suc n]) = then_with (g 0) (first_ne (map (\<lambda>i. g (Suc i)) [0..<n]))"
proof -
  have "map g [0..<Suc n] = g 0 # map (\<lambda>i. g (Suc i)) [0..<n]"
    by (simp add: upt_conv_Cons map_Suc_upt [symmetric] comp_def del: upt_Suc)
  then show ?thesis by (simp only: first_ne.simps then_with_iff)
qed

lemma first_ne_pad:
  "first_ne (map (\<lambda>i. f (get_or d xs i) (get_or d ys i)) [0..<max (length xs) (length ys)])
     = pad_cmp f d xs ys"
  by (induction f d xs ys rule: pad_cmp.induct) (simp_all add: first_ne_shift del: upt_Suc)

lemma pad_cmp_flip:
  "comparator D f \<Longrightarrow> D d \<Longrightarrow> list_all D xs \<Longrightarrow> list_all D ys \<Longrightarrow>
   pad_cmp f d ys xs = reverse (pad_cmp f d xs ys)"
proof (induction f d xs ys rule: pad_cmp.induct)
  case (2 f d x xs)
  then show ?case
    using comparator.compares_flipped [OF 2(2) _ 2(3), of x] by (simp add: reverse_then)
next
  case (3 f d y ys)
  then show ?case
    using comparator.compares_flipped [OF 3(2) 3(3), of y] by (simp add: reverse_then)
next
  case (4 f d x xs y ys)
  then show ?case
    using comparator.compares_flipped [OF 4(2), of x y] by (simp add: reverse_then)
qed simp

lemma pad_cmp_chain:
  assumes "comparator D f" and "D d"
  shows "list_all D xs \<Longrightarrow> list_all D ys \<Longrightarrow> list_all D zs \<Longrightarrow>
    pad_cmp f d xs ys \<noteq> Greater \<Longrightarrow> pad_cmp f d ys zs \<noteq> Greater \<Longrightarrow> pad_cmp f d xs zs \<noteq> Greater"
proof (induction "length xs + length ys + length zs" arbitrary: xs ys zs rule: less_induct)
  case less
  define h where "h ws = (case ws of [] \<Rightarrow> d | w # _ \<Rightarrow> w)" for ws
  have Dh: "D (h ws)" if "list_all D ws" for ws
    using that assms(2) by (cases ws) (auto simp: h_def)
  have Dt: "list_all D (tl ws)" if "list_all D ws" for ws using that by (cases ws) auto
  have self: "f d d = Equal" using assms by (rule comparator.compares_self)
  have step: "pad_cmp f d us vs = then_with (f (h us) (h vs)) (pad_cmp f d (tl us) (tl vs))" for us vs
    by (cases us; cases vs) (auto simp: h_def self)
  show ?case
  proof (cases "xs = [] \<and> ys = [] \<and> zs = []")
    case False
    then have "length (tl xs) + length (tl ys) + length (tl zs) < length xs + length ys + length zs"
      by (cases xs; cases ys; cases zs) auto
    then have rest: "pad_cmp f d (tl xs) (tl ys) \<noteq> Greater \<Longrightarrow> pad_cmp f d (tl ys) (tl zs) \<noteq> Greater
        \<Longrightarrow> pad_cmp f d (tl xs) (tl zs) \<noteq> Greater"
      using less.hyps Dt less.prems(1-3) by blast
    show ?thesis
      using comparator.chain_then [OF assms(1) Dh [OF less.prems(1)] Dh [OF less.prems(2)]
          Dh [OF less.prems(3)] less.prems(4) [unfolded step [of xs]]
          less.prems(5) [unfolded step [of ys]] rest]
      unfolding step [of xs zs] by blast
  qed simp
qed

lemma comparator_pad:
  assumes "comparator D f" and "D d"
  shows "comparator (list_all D) (pad_cmp f d)"
proof unfold_locales
  fix xs :: "'a list"
  assume "list_all D xs"
  then show "pad_cmp f d xs xs = Equal"
    by (induction xs) (auto simp: comparator.compares_self [OF assms(1)])
next
  fix xs ys :: "'a list"
  assume "list_all D xs" "list_all D ys"
  then show "pad_cmp f d ys xs = reverse (pad_cmp f d xs ys)" by (rule pad_cmp_flip [OF assms])
next
  fix xs ys zs :: "'a list"
  assume "list_all D xs" "list_all D ys" "list_all D zs" "pad_cmp f d xs ys \<noteq> Greater" "pad_cmp f d ys zs \<noteq> Greater"
  then show "pad_cmp f d xs zs \<noteq> Greater" by (rule pad_cmp_chain [OF assms])
qed

section \<open>Package versions\<close>

lemma comparator_digit_run: "comparator (\<lambda>_. True) digit_run_cmp"
proof -
  define t where "t = dropWhile (\<lambda>c. c = CHR ''0'')"
  have "comparator (\<lambda>_. True) (\<lambda>a b. cmp (length (t a)) (length (t b)))"
    by (rule comparator_key [OF comparator_cmp]) simp
  moreover have "comparator (\<lambda>_. True) (\<lambda>a b. cmp (t a) (t b))"
    by (rule comparator_key [OF comparator_cmp]) simp
  ultimately have "comparator (\<lambda>_. True) (\<lambda>a b. then_with (cmp (length (t a)) (length (t b))) (cmp (t a) (t b)))"
    by (rule comparator_then)
  then show ?thesis by (rule comparator_cong) (simp add: digit_run_cmp_def t_def Let_def)
qed

definition weights :: "string \<Rightarrow> int list" where
  "weights s = map (\<lambda>c. dpkg_weight (Some c)) s"

lemma text_run_pad: "text_run_cmp a b = pad_cmp cmp 0 (weights a) (weights b)"
proof -
  have "dpkg_weight (slice_get s i) = get_or 0 (weights s) i" for s i
    by (auto simp: slice_get_def get_or_def weights_def dpkg_weight_def)
  moreover have "length (weights s) = length s" for s by (simp add: weights_def)
  ultimately show ?thesis
    unfolding text_run_cmp_def by (simp only: first_ne_pad [of cmp 0, symmetric])
qed

lemma comparator_text_run: "comparator (\<lambda>_. True) text_run_cmp"
proof -
  have "comparator (list_all (\<lambda>_. True)) (pad_cmp cmp (0 :: int))"
    by (rule comparator_pad [OF comparator_cmp]) simp
  then have "comparator (\<lambda>_. True) (\<lambda>a b. pad_cmp cmp 0 (weights a) (weights b))"
    by (rule comparator_key) (simp add: list_all_iff)
  then show ?thesis by (rule comparator_cong) (rule text_run_pad)
qed

text \<open>The alternation of runs, read off as a list: a text run and the number after it.\<close>

function chunks :: "string \<Rightarrow> (string \<times> string) list" where
  "chunks s =
     (if s = [] then []
      else (fst (split_run s False), fst (split_run (snd (split_run s False)) True))
           # chunks (snd (split_run (snd (split_run s False)) True)))"
  by pat_completeness auto
termination
  by (relation "measure length") (use split_run_consumes in auto)

declare chunks.simps [simp del]

lemma chunks_Nil [simp]: "chunks [] = []"
  by (simp add: chunks.simps)

definition chunk_cmp :: "string \<times> string \<Rightarrow> string \<times> string \<Rightarrow> ordering" where
  "chunk_cmp a b = then_with (text_run_cmp (fst a) (fst b)) (digit_run_cmp (snd a) (snd b))"

lemma dpkg_part_chunks: "dpkg_part_cmp a b = pad_cmp chunk_cmp ([], []) (chunks a) (chunks b)"
proof (induction a b rule: dpkg_part_cmp.induct)
  case (1 a b)
  define rest where "rest s = snd (split_run (snd (split_run s False)) True)" for s
  define first where "first s = (fst (split_run s False), fst (split_run (snd (split_run s False)) True))" for s
  have nil: "first [] = ([], [])" "rest [] = []" by (simp_all add: first_def rest_def split_run_def)
  have step: "pad_cmp chunk_cmp ([], []) (chunks a) (chunks b) =
      then_with (chunk_cmp (first a) (first b)) (pad_cmp chunk_cmp ([], []) (chunks (rest a)) (chunks (rest b)))"
    if "a \<noteq> [] \<or> b \<noteq> []"
    using that
    by (cases "a = []"; cases "b = []")
       (simp_all add: chunks.simps [of a] chunks.simps [of b] nil, simp_all add: first_def rest_def)
  show ?case
  proof (cases "a \<noteq> [] \<or> b \<noteq> []")
    case True
    have part: "dpkg_part_cmp a b = then_with (chunk_cmp (first a) (first b)) (dpkg_part_cmp (rest a) (rest b))"
      using True
      by (subst dpkg_part_cmp.simps)
         (auto simp: Let_def chunk_cmp_def first_def rest_def then_with_iff [symmetric])
    show ?thesis
    proof (cases "chunk_cmp (first a) (first b)")
      case Equal
      then have "text_run_cmp (fst (first a)) (fst (first b)) = Equal"
        "digit_run_cmp (snd (first a)) (snd (first b)) = Equal"
        by (auto simp: chunk_cmp_def then_with_iff [symmetric] split: if_splits)
      then have "dpkg_part_cmp (rest a) (rest b) = pad_cmp chunk_cmp ([], []) (chunks (rest a)) (chunks (rest b))"
        using 1 True by (simp add: first_def rest_def)
      then show ?thesis by (simp only: part step [OF True])
    qed (simp_all add: part step [OF True])
  qed (simp add: dpkg_part_cmp.simps)
qed

lemma comparator_dpkg_part: "comparator (\<lambda>_. True) dpkg_part_cmp"
proof -
  have "comparator (\<lambda>_. True) chunk_cmp"
    using comparator_then [OF comparator_key [OF comparator_text_run, where k = fst]
        comparator_key [OF comparator_digit_run, where k = snd]]
    by (rule comparator_cong) (simp_all add: chunk_cmp_def)
  then have "comparator (list_all (\<lambda>_. True)) (pad_cmp chunk_cmp ([], []))"
    by (rule comparator_pad) simp
  then have "comparator (\<lambda>_. True) (\<lambda>a b. pad_cmp chunk_cmp ([], []) (chunks a) (chunks b))"
    by (rule comparator_key) (simp add: list_all_iff)
  then show ?thesis by (rule comparator_cong) (rule dpkg_part_chunks)
qed

lemma comparator_dpkg: "comparator (\<lambda>_. True) dpkg_cmp"
proof -
  note epoch = comparator_key [OF comparator_digit_run TrueI, of "\<lambda>_. True" "\<lambda>v. fst (dpkg_parts v)"]
  note upstream = comparator_key [OF comparator_dpkg_part TrueI, of "\<lambda>_. True" "\<lambda>v. fst (snd (dpkg_parts v))"]
  note revision = comparator_key [OF comparator_dpkg_part TrueI, of "\<lambda>_. True" "\<lambda>v. snd (snd (dpkg_parts v))"]
  show ?thesis
    by (rule comparator_cong [OF comparator_then [OF comparator_then [OF epoch upstream] revision]])
       (simp add: dpkg_cmp_def split: prod.split)
qed

interpretation package: comparator "\<lambda>_. True" dpkg_cmp
  by (rule comparator_dpkg)

section \<open>Runs of digits are numbers\<close>

definition number :: "string \<Rightarrow> nat" where
  "number s = foldl (\<lambda>n c. n * 10 + (of_char c - 48)) 0 s"

lemma number_foldl: "foldl (\<lambda>n c. n * 10 + (of_char c - 48)) k s = k * 10 ^ length s + number s"
proof (induction s rule: rev_induct)
  case (snoc c s)
  then show ?case by (simp add: number_def algebra_simps)
qed (simp add: number_def)

lemma number_Cons: "number (c # s) = (of_char c - 48) * 10 ^ length s + number s"
proof -
  have "number (c # s) = foldl (\<lambda>n c. n * 10 + (of_char c - 48)) (of_char c - 48) s" by (simp add: number_def)
  then show ?thesis by (simp only: number_foldl)
qed

lemma digit_bounds: "is_ascii_digit c \<Longrightarrow> 48 \<le> (of_char c :: nat) \<and> (of_char c :: nat) \<le> 57"
  by (simp add: is_ascii_digit_def Let_def)

lemma number_bound: "list_all is_ascii_digit s \<Longrightarrow> number s < 10 ^ length s"
proof (induction s)
  case (Cons c s)
  then have "of_char c - 48 \<le> (9 :: nat)" using digit_bounds [of c] by auto
  then have "(of_char c - 48) * 10 ^ length s \<le> (9 :: nat) * 10 ^ length s" by (rule mult_right_mono) simp
  moreover have "number s < 10 ^ length s" using Cons by simp
  ultimately show ?case unfolding number_Cons length_Cons power_Suc by linarith
qed (simp add: number_def)

lemma number_leading_zeros: "number (dropWhile (\<lambda>c. c = CHR ''0'') s) = number s"
  by (induction s) (auto simp: number_Cons)

lemma number_leading:
  assumes "list_all is_ascii_digit (c # s)" and "c \<noteq> CHR ''0''"
  shows "10 ^ length s \<le> number (c # s)"
proof -
  have "(of_char c :: nat) \<noteq> of_char (CHR ''0'')" using assms(2) by (simp only: of_char_eq_iff not_False_eq_True)
  then have "1 \<le> (of_char c :: nat) - 48" using assms(1) digit_bounds [of c] by auto
  then have "1 * 10 ^ length s \<le> ((of_char c :: nat) - 48) * 10 ^ length s" by (rule mult_right_mono) simp
  then show ?thesis unfolding number_Cons by linarith
qed

lemma less_char_of: "c < d \<longleftrightarrow> (of_char c :: nat) < of_char d" for c d :: char
  by (simp add: less_char_def)

lemma number_less_same_length:
  "length a = length b \<Longrightarrow> list_all is_ascii_digit a \<Longrightarrow> list_all is_ascii_digit b \<Longrightarrow>
   (number a < number b \<longleftrightarrow> a < b) \<and> (number a = number b \<longleftrightarrow> a = b)"
proof (induction a b rule: list_induct2)
  case (Cons x xs y ys)
  have bound: "number xs < 10 ^ length xs" "number ys < 10 ^ length xs"
    using Cons number_bound [of xs] number_bound [of ys] by simp_all
  have d: "48 \<le> (of_char x :: nat)" "48 \<le> (of_char y :: nat)" using Cons.prems digit_bounds by auto
  have step: "number (x # xs) < number (y # ys)" if "(of_char x :: nat) < of_char y"
    "number xs < 10 ^ length xs" "48 \<le> (of_char x :: nat)" "length xs = length ys" for x y xs ys
  proof -
    have "Suc (of_char x - 48) \<le> of_char y - 48" using that by linarith
    then have "Suc (of_char x - 48) * 10 ^ length xs \<le> (of_char y - 48) * 10 ^ length xs" by (rule mult_right_mono) simp
    then show ?thesis using that by (simp add: number_Cons)
  qed
  consider "(of_char x :: nat) < of_char y" | "x = y" | "(of_char y :: nat) < of_char x"
    using linorder_less_linear [of "of_char x :: nat" "of_char y"] by (auto simp: of_char_eq_iff)
  then show ?case
  proof cases
    case 1
    have "number (x # xs) < number (y # ys)" using step [OF 1 bound(1) d(1) Cons(1)] .
    moreover have "x < y" using 1 by (simp only: less_char_of)
    ultimately show ?thesis by auto
  next
    case 2
    then show ?thesis using Cons by (auto simp: number_Cons)
  next
    case 3
    have "number (y # ys) < number (x # xs)" by (rule step [OF 3 _ d(2)]) (use bound(2) Cons(1) in simp_all)
    moreover have "y < x" using 3 by (simp only: less_char_of)
    ultimately show ?thesis by auto
  qed
qed simp

lemma digit_run_number:
  assumes "list_all is_ascii_digit a" and "list_all is_ascii_digit b"
  shows "digit_run_cmp a b = cmp (number a) (number b)"
proof -
  define t where "t s = dropWhile (\<lambda>c. c = CHR ''0'') s" for s :: string
  have dig: "list_all is_ascii_digit (t s)" if "list_all is_ascii_digit s" for s
    using that set_dropWhileD [of _ "\<lambda>c. c = CHR ''0''" s] by (auto simp: t_def list_all_iff)
  have lead: "10 ^ (length (t s) - 1) \<le> number (t s)" if "list_all is_ascii_digit s" "t s \<noteq> []" for s
  proof -
    obtain c cs where cs: "t s = c # cs" by (cases "t s") (use \<open>t s \<noteq> []\<close> in auto)
    then have "c \<noteq> CHR ''0''" using hd_dropWhile [of "\<lambda>c. c = CHR ''0''" s] by (auto simp: t_def)
    then show ?thesis using number_leading [of c cs] dig [OF that(1)] cs by simp
  qed
  have longer: "number (t x) < number (t y)" if "list_all is_ascii_digit x" "list_all is_ascii_digit y"
    "length (t x) < length (t y)" for x y
  proof -
    have "number (t x) < 10 ^ length (t x)" using dig [OF that(1)] by (rule number_bound)
    also have "\<dots> \<le> 10 ^ (length (t y) - 1)" using that(3) by (intro power_increasing) auto
    also have "\<dots> \<le> number (t y)" using that(3) by (intro lead [OF that(2)]) auto
    finally show ?thesis .
  qed
  have eq: "number (t s) = number s" for s by (simp add: t_def number_leading_zeros)
  have "then_with (cmp (length (t a)) (length (t b))) (cmp (t a) (t b)) = cmp (number (t a)) (number (t b))"
    using longer [OF assms] longer [OF assms(2,1)]
      number_less_same_length [of "t a" "t b"] dig [OF assms(1)] dig [OF assms(2)]
    by (auto simp: cmp_def)
  then show ?thesis by (simp add: digit_run_cmp_def Let_def eq flip: t_def)
qed

section \<open>The order of what services say\<close>

text \<open>Every run of digits fits a \<open>u64\<close>.\<close>

definition run_fits :: "string \<Rightarrow> bool" where
  "run_fits x \<longleftrightarrow> \<not> isl (parse_uint x :: int_error_kind + u64)"

definition runs_fit :: "string \<Rightarrow> bool" where
  "runs_fit s \<longleftrightarrow> (\<forall>x \<in> set (split_by (\<lambda>c. \<not> is_ascii_digit c) s). x \<noteq> [] \<longrightarrow> run_fits x)"

lemma split_by_at: "p c \<Longrightarrow> split_by p (l @ c # r) = split_by p l @ split_by p r"
  by (induction l) (auto split: list.split)

lemma runs_fit_at:
  "\<not> is_ascii_digit c \<Longrightarrow> runs_fit (l @ c # r) \<longleftrightarrow> runs_fit l \<and> runs_fit r"
  by (auto simp: runs_fit_def split_by_at)

lemma runs_fit_Nil [simp]: "runs_fit []"
  by (simp add: runs_fit_def)

lemma take_run_digits:
  assumes "runs_fit s" and "digits s" and "take_run s True = (x, r)"
  shows "run_fits x" "runs_fit r"
proof -
  have x: "x = takeWhile is_ascii_digit s" and r: "r = dropWhile is_ascii_digit s"
    using assms(3) by (simp_all add: take_run_def)
  have s: "s = x @ r" by (simp add: x r)
  have x0: "x \<noteq> []" using assms(2) by (cases s) (auto simp: x digits_def)
  have dig: "\<forall>c \<in> set x. \<not> \<not> is_ascii_digit c" using x set_takeWhileD by fastforce
  show "run_fits x" "runs_fit r"
  proof (atomize (full), cases r)
    case Nil
    with assms(1) s x0 dig show "run_fits x \<and> runs_fit r"
      by (auto simp: runs_fit_def split_by_none)
  next
    case (Cons c t)
    then have c: "\<not> is_ascii_digit c" using hd_dropWhile [of is_ascii_digit s] r by auto
    then have "split_by (\<lambda>c. \<not> is_ascii_digit c) s = x # split_by (\<lambda>c. \<not> is_ascii_digit c) t"
      unfolding s Cons using dig by (intro split_by_append) auto
    with assms(1) x0 c Cons show "run_fits x \<and> runs_fit r"
      by (auto simp: runs_fit_def)
  qed
qed

lemma take_run_text:
  assumes "runs_fit s" and "take_run s False = (x, r)"
  shows "runs_fit r"
proof -
  have x: "x = takeWhile (\<lambda>c. \<not> is_ascii_digit c) s" and r: "r = dropWhile (\<lambda>c. \<not> is_ascii_digit c) s"
    using assms(2) by (simp_all add: take_run_def)
  have s: "s = x @ r" by (simp add: x r)
  show ?thesis
  proof (cases x rule: rev_cases)
    case Nil
    with s assms(1) show ?thesis by simp
  next
    case (snoc l c)
    then have "c \<in> set x" by simp
    then have "\<not> is_ascii_digit c" using x set_takeWhileD by fastforce
    moreover have "s = l @ c # r" using s snoc by simp
    ultimately show ?thesis using assms(1) by (simp add: runs_fit_at)
  qed
qed

lemma run_cmp_flip: "run_cmp y x = reverse (run_cmp x y)"
proof -
  have longhand: "then_with (cmp (length y) (length x)) (cmp y x) = reverse (then_with (cmp (length x) (length y)) (cmp x y))"
    by (simp only: reverse_then cmp_flip [where x = "length x"] cmp_flip [where x = x])
  show ?thesis
  proof (cases "parse_uint x :: int_error_kind + u64"; cases "parse_uint y :: int_error_kind + u64")
    fix m n :: u64
    assume "parse_uint x = Inr m" "parse_uint y = Inr n"
    then show ?thesis by (simp add: run_cmp_def cmp_flip [where x = m])
  qed (simp_all add: run_cmp_def longhand)
qed

lemma comparator_run: "comparator run_fits run_cmp"
proof -
  define v where "v x = projr (parse_uint x :: int_error_kind + u64)" for x
  have "comparator run_fits (\<lambda>x y. cmp (v x) (v y))" by (rule comparator_key [OF comparator_cmp]) simp
  then show ?thesis
    by (rule comparator_cong) (auto simp: run_fits_def run_cmp_def v_def split: sum.split)
qed

lemma component_step:
  assumes "a \<noteq> []" and "b \<noteq> []" and "digits a = digits b"
  shows "component_cmp a b =
    then_with ((if digits a then run_cmp else cmp) (fst (take_run a (digits a))) (fst (take_run b (digits a))))
      (component_cmp (snd (take_run a (digits a))) (snd (take_run b (digits a))))"
  using assms by (subst component_cmp.simps) (auto simp: Let_def split_def then_with_iff [symmetric])

lemma component_mixed:
  assumes "a \<noteq> []" and "b \<noteq> []" and "digits a \<noteq> digits b"
  shows "component_cmp a b = (if digits a then Greater else Less)"
  using assms by (subst component_cmp.simps) auto

lemma component_ends: "a = [] \<or> b = [] \<Longrightarrow> component_cmp a b = cmp (length a) (length b)"
  by (subst component_cmp.simps) auto

lemma component_flip: "component_cmp b a = reverse (component_cmp a b)"
proof (induction "length a" arbitrary: a b rule: less_induct)
  case less
  consider "a = [] \<or> b = []" | "a \<noteq> []" "b \<noteq> []" "digits a \<noteq> digits b" | "a \<noteq> []" "b \<noteq> []" "digits a = digits b"
    by blast
  then show ?case
  proof cases
    case 1
    then show ?thesis by (simp only: component_ends disj_commute cmp_flip [where x = "length a"])
  next
    case 2
    then show ?thesis by (auto simp: component_mixed)
  next
    case 3
    define f where "f = (if digits a then run_cmp else cmp)"
    define x where "x s = fst (take_run s (digits a))" for s
    define r where "r s = snd (take_run s (digits a))" for s
    have step: "component_cmp a b = then_with (f (x a) (x b)) (component_cmp (r a) (r b))"
      "component_cmp b a = then_with (f (x b) (x a)) (component_cmp (r b) (r a))"
      using component_step [of a b] component_step [of b a] 3 by (simp_all add: f_def x_def r_def)
    have "length (r a) < length a" using take_run_shorter [of a "digits a"] 3 by (simp add: r_def take_run_def)
    then have "component_cmp (r b) (r a) = reverse (component_cmp (r a) (r b))" by (rule less)
    moreover have "f (x b) (x a) = reverse (f (x a) (x b))"
      using run_cmp_flip [of "x b" "x a"] cmp_flip [of "x b" "x a"] by (simp add: f_def)
    ultimately show ?thesis by (simp only: step reverse_then)
  qed
qed

lemma component_self: "component_cmp a a = Equal"
  using component_flip [of a a] by (cases "component_cmp a a") auto

lemma component_chain:
  "runs_fit a \<Longrightarrow> runs_fit b \<Longrightarrow> runs_fit c \<Longrightarrow>
   component_cmp a b \<noteq> Greater \<Longrightarrow> component_cmp b c \<noteq> Greater \<Longrightarrow> component_cmp a c \<noteq> Greater"
proof (induction "length a" arbitrary: a b c rule: less_induct)
  case less
  note fit = less.prems(1-3) and le = less.prems(4,5)
  show ?case
  proof (cases "a = []")
    case True
    then show ?thesis by (simp add: component_ends cmp_def)
  next
    case a0: False
    then have b0: "b \<noteq> []" using le(1) by (auto simp: component_ends cmp_def)
    then have c0: "c \<noteq> []" using le(2) by (auto simp: component_ends cmp_def)
    show ?thesis
    proof (cases "digits a = digits b \<and> digits b = digits c")
      case False
      then show ?thesis
        using le component_mixed [OF a0 b0] component_mixed [OF b0 c0] component_mixed [OF a0 c0]
        by (cases "digits a"; cases "digits b"; cases "digits c") auto
    next
      case True
      define d where "d = digits a"
      have d: "digits a = d" "digits b = d" "digits c = d" using True by (auto simp: d_def)
      define f where "f = (if d then run_cmp else cmp)"
      define x where "x s = fst (take_run s d)" for s
      define r where "r s = snd (take_run s d)" for s
      have runs: "take_run s d = (x s, r s)" for s by (simp add: x_def r_def)
      have comp: "comparator (\<lambda>s. d \<longrightarrow> run_fits s) f"
        using comparator_run comparator_cmp by (cases d) (simp_all add: f_def)
      have D: "d \<longrightarrow> run_fits (x s)" "runs_fit (r s)" if "runs_fit s" "digits s = d" for s
        using take_run_digits [of s "x s" "r s"] take_run_text [of s "x s" "r s"] that runs [of s]
        by (cases d; simp)+
      have "length (r a) < length a" using take_run_shorter [OF runs a0 d(1)] .
      then have IH: "component_cmp (r a) (r b) \<noteq> Greater \<Longrightarrow> component_cmp (r b) (r c) \<noteq> Greater
          \<Longrightarrow> component_cmp (r a) (r c) \<noteq> Greater"
        using less.hyps D(2) [OF fit(1) d(1)] D(2) [OF fit(2) d(2)] D(2) [OF fit(3) d(3)] by blast
      have step: "component_cmp s t = then_with (f (x s) (x t)) (component_cmp (r s) (r t))"
        if "s \<noteq> []" "t \<noteq> []" "digits s = d" "digits t = d" for s t
        using component_step [of s t] that by (simp add: f_def x_def r_def)
      show ?thesis
        unfolding step [OF a0 c0 d(1,3)]
        by (rule comparator.chain_then [OF comp D(1) [OF fit(1) d(1)] D(1) [OF fit(2) d(2)] D(1) [OF fit(3) d(3)]
              le(1) [unfolded step [OF a0 b0 d(1,2)]] le(2) [unfolded step [OF b0 c0 d(2,3)]] IH])
    qed
  qed
qed

lemma comparator_component: "comparator runs_fit component_cmp"
proof unfold_locales
  fix x y z
  show "component_cmp x x = Equal" by (rule component_self)
  show "component_cmp y x = reverse (component_cmp x y)" by (rule component_flip)
  assume "runs_fit x" "runs_fit y" "runs_fit z" "component_cmp x y \<noteq> Greater" "component_cmp y z \<noteq> Greater"
  then show "component_cmp x z \<noteq> Greater" by (rule component_chain)
qed

lemma components_pad:
  "components a b = pad_cmp component_cmp ''0'' (split_by (\<lambda>c. c = CHR ''.'' \<or> c = CHR ''-'') a)
     (split_by (\<lambda>c. c = CHR ''.'' \<or> c = CHR ''-'') b)"
  unfolding components_def Let_def by (rule first_ne_pad)

lemma runs_fit_pieces:
  assumes "\<And>c. p c \<Longrightarrow> \<not> is_ascii_digit c"
  shows "runs_fit s \<Longrightarrow> list_all runs_fit (split_by p s)"
proof (induction "length s" arbitrary: s rule: less_induct)
  case less
  show ?case
  proof (cases "\<exists>c \<in> set s. p c")
    case False
    with less show ?thesis by (simp add: split_by_none)
  next
    case True
    then obtain l c r where s: "s = l @ c # r" "p c" "\<forall>x \<in> set l. \<not> p x"
      using split_list_first_prop [of s p] by blast
    then have "runs_fit l" "runs_fit r" using less.prems assms runs_fit_at by auto
    moreover have "list_all runs_fit (split_by p r)" using less.hyps [of r] s \<open>runs_fit r\<close> by simp
    ultimately show ?thesis using s by (simp add: split_by_append)
  qed
qed

lemma not_digits: "\<not> is_ascii_digit (CHR ''.'')" "\<not> is_ascii_digit (CHR ''-'')"
  by code_simp+

lemma zero_fits: "runs_fit ''0''"
  by code_simp

lemma comparator_components: "comparator runs_fit components"
proof -
  have "comparator runs_fit (\<lambda>a b. pad_cmp component_cmp ''0''
      (split_by (\<lambda>c. c = CHR ''.'' \<or> c = CHR ''-'') a) (split_by (\<lambda>c. c = CHR ''.'' \<or> c = CHR ''-'') b))"
    by (rule comparator_key [OF comparator_pad [OF comparator_component zero_fits]],
        rule runs_fit_pieces) (use not_digits in auto)
  then show ?thesis by (rule comparator_cong) (rule components_pad)
qed

lemma pre_release_fits:
  "split_pre_release_from seen version = (rel, pre) \<Longrightarrow> runs_fit (seen @ version) \<Longrightarrow>
   runs_fit rel \<and> (case pre of None \<Rightarrow> True | Some x \<Rightarrow> runs_fit x)"
proof (induction seen version arbitrary: rel pre rule: split_pre_release_from.induct)
  case (1 seen version)
  note step = 1(2) [unfolded split_pre_release_from.simps [of seen version]]
  show ?case
  proof (cases "split_once (CHR ''-'') version")
    case None
    with step 1(3) show ?thesis by auto
  next
    case (Some br)
    obtain b r where br: "br = (b, r)" by (cases br)
    then have v: "version = b @ CHR ''-'' # r" using Some split_once_length by simp
    then have fit: "runs_fit (seen @ b)" "runs_fit r"
      using 1(3) runs_fit_at [OF not_digits(2), of "seen @ b" r] by auto
    show ?thesis
    proof (cases "r \<noteq> [] \<and> is_ascii_digit (hd r)")
      case False
      with step Some br fit show ?thesis by (auto split: if_splits)
    next
      case True
      with step Some br have "split_pre_release_from (seen @ b @ ''-'') r = (rel, pre)" by auto
      then show ?thesis using 1(1) [OF Some br [symmetric]] True 1(3) v by simp
    qed
  qed
qed

text \<open>Comparing what may be a pre-release: none is above any.\<close>

definition pre_cmp :: "string option \<Rightarrow> string option \<Rightarrow> ordering" where
  "pre_cmp a b =
     (case (a, b) of
        (None, None) \<Rightarrow> Equal
      | (Some x, None) \<Rightarrow> Less
      | (None, Some y) \<Rightarrow> Greater
      | (Some x, Some y) \<Rightarrow> components x y)"

lemma comparator_pre: "comparator (\<lambda>p. case p of None \<Rightarrow> True | Some x \<Rightarrow> runs_fit x) pre_cmp"
proof unfold_locales
  fix x y z :: "string option"
  assume Dx: "case x of None \<Rightarrow> True | Some x \<Rightarrow> runs_fit x"
  then show "pre_cmp x x = Equal"
    using comparator.compares_self [OF comparator_components] by (auto simp: pre_cmp_def split: option.splits)
  assume Dy: "case y of None \<Rightarrow> True | Some x \<Rightarrow> runs_fit x"
  with Dx show "pre_cmp y x = reverse (pre_cmp x y)"
    by (cases x; cases y)
       (use comparator.compares_flipped [OF comparator_components, of "the x" "the y"] in
         \<open>simp_all add: pre_cmp_def\<close>)
  assume "case z of None \<Rightarrow> True | Some x \<Rightarrow> runs_fit x" "pre_cmp x y \<noteq> Greater" "pre_cmp y z \<noteq> Greater"
  with Dx Dy show "pre_cmp x z \<noteq> Greater"
    using comparator.compares_chain [OF comparator_components, of "the x" "the y" "the z"]
    by (cases x; cases y; cases z) (simp_all add: pre_cmp_def)
qed

lemma version_split:
  "version_cmp a b = then_with (components (fst (split_pre_release a)) (fst (split_pre_release b)))
     (pre_cmp (snd (split_pre_release a)) (snd (split_pre_release b)))"
  by (cases "split_pre_release a"; cases "split_pre_release b")
     (simp add: version_cmp_def pre_cmp_def then_with_split)

interpretation banner: comparator runs_fit version_cmp
proof -
  have fits: "runs_fit (fst (split_pre_release v))"
    "case snd (split_pre_release v) of None \<Rightarrow> True | Some x \<Rightarrow> runs_fit x" if "runs_fit v" for v
    using pre_release_fits [of "[]" v "fst (split_pre_release v)" "snd (split_pre_release v)"] that
    by (simp_all add: split_pre_release_def)
  note release = comparator_key [OF comparator_components fits(1)]
  note pre = comparator_key [OF comparator_pre fits(2)]
  show "comparator runs_fit version_cmp"
    by (rule comparator_cong [OF comparator_then [OF release pre]]) (simp_all add: version_split)
qed

section \<open>Tildes\<close>

lemma pad_cmp_prefix:
  "(\<And>x. x \<in> set xs \<Longrightarrow> f x x = Equal) \<Longrightarrow> pad_cmp f d (xs @ ys) xs = pad_cmp f d ys []"
  by (induction xs) auto

lemma tilde_digit: "\<not> is_ascii_digit (CHR ''~'')"
  by code_simp

lemma text_run_tilde: "text_run_cmp (s @ CHR ''~'' # t) s = Less"
proof -
  have "weights (s @ CHR ''~'' # t) = weights s @ -1 # weights t"
    by (simp add: weights_def dpkg_weight_def)
  then show ?thesis by (simp add: text_run_pad pad_cmp_prefix cmp_def)
qed

lemma takeWhile_stops:
  "\<not> p c \<Longrightarrow> (\<forall>x \<in> set s. p x) \<Longrightarrow> takeWhile p (s @ c # t) = s \<and> dropWhile p (s @ c # t) = c # t"
  by (induction s) auto

lemma takeWhile_earlier:
  "dropWhile p s \<noteq> [] \<Longrightarrow> takeWhile p (s @ t) = takeWhile p s \<and> dropWhile p (s @ t) = dropWhile p s @ t"
  by (induction s) auto

lemma dpkg_part_step:
  assumes "a \<noteq> [] \<or> b \<noteq> []"
  shows "dpkg_part_cmp a b =
    (let x = split_run a False; y = split_run b False;
         m = split_run (snd x) True; n = split_run (snd y) True
     in then_with (text_run_cmp (fst x) (fst y))
          (then_with (digit_run_cmp (fst m) (fst n)) (dpkg_part_cmp (snd m) (snd n))))"
  using assms by (subst dpkg_part_cmp.simps) (simp add: Let_def then_with_split)

lemma tilde_precedes: "dpkg_part_cmp (s @ CHR ''~'' # t) s = Less"
proof (induction "length s" arbitrary: s rule: less_induct)
  case less
  define u where "u = CHR ''~'' # t"
  define r where "r = dropWhile (\<lambda>c. \<not> is_ascii_digit c) s"
  show ?case
  proof (cases "r = []")
    case True
    then have all: "\<forall>c \<in> set s. \<not> is_ascii_digit c" by (simp add: r_def dropWhile_eq_Nil_conv)
    then have "fst (split_run s False) = s" by (simp add: split_run_def)
    moreover have "fst (split_run (s @ u) False) = s @ CHR ''~'' # takeWhile (\<lambda>c. \<not> is_ascii_digit c) t"
      using all tilde_digit by (simp add: split_run_def u_def takeWhile_append2)
    ultimately show ?thesis
      using dpkg_part_step [of "s @ u" s] text_run_tilde by (simp add: u_def Let_def)
  next
    case False
    have word: "split_run (s @ u) False = (fst (split_run s False), r @ u)" "snd (split_run s False) = r"
      using takeWhile_earlier [of "\<lambda>c. \<not> is_ascii_digit c" s u] False by (simp_all add: split_run_def r_def)
    have num: "split_run (r @ u) True = (fst (split_run r True), snd (split_run r True) @ u)"
    proof (cases "dropWhile is_ascii_digit r = []")
      case True
      then have "\<forall>c \<in> set r. is_ascii_digit c" by (simp add: dropWhile_eq_Nil_conv)
      moreover from this have "takeWhile is_ascii_digit r = r" by simp
      ultimately show ?thesis using takeWhile_stops [of is_ascii_digit, OF tilde_digit, of r t] True
        by (simp only: split_run_def u_def simp_thms fst_conv snd_conv append_Nil)
    next
      case False
      then show ?thesis using takeWhile_earlier [of is_ascii_digit r u] by (simp add: split_run_def)
    qed
    have s0: "s \<noteq> []" using False by (auto simp: r_def)
    have "length (snd (split_run r True)) < length s"
      using split_run_consumes [OF s0] word(2) by simp
    then have "dpkg_part_cmp (snd (split_run r True) @ u) (snd (split_run r True)) = Less"
      unfolding u_def by (rule less)
    then show ?thesis
      using dpkg_part_step [of "s @ u" s] s0 word num
        comparator.compares_self [OF comparator_text_run] comparator.compares_self [OF comparator_digit_run]
      by (simp add: Let_def u_def)
  qed
qed

section \<open>Properties\<close>

text \<open>
  C26. The order of package versions is total: every version equals itself, swapping two reverses
  the answer, and being no later chains.
\<close>

theorem dpkg_order:
  "dpkg_cmp a a = Equal \<and> dpkg_cmp b a = reverse (dpkg_cmp a b)
   \<and> (dpkg_cmp a b \<noteq> Greater \<longrightarrow> dpkg_cmp b c \<noteq> Greater \<longrightarrow> dpkg_cmp a c \<noteq> Greater)"
  using package.compares_self package.compares_flipped [of b a] package.compares_chain [of a b c] by simp

theorem dpkg_order_witness:
  "dpkg_cmp ''1.0~rc1'' ''1.0-1'' = Less \<and> dpkg_cmp ''1.0-1'' ''1:0.1'' = Less
   \<and> dpkg_cmp ''1.0~rc1'' ''1:0.1'' \<noteq> Greater"
proof -
  have "dpkg_cmp ''1.0~rc1'' ''1.0-1'' = Less" "dpkg_cmp ''1.0-1'' ''1:0.1'' = Less" by code_simp+
  then show ?thesis using dpkg_order [of "''1.0~rc1''" "''1.0-1''" "''1:0.1''"] by simp
qed

text \<open>
  Inside a part of a package version, runs of digits compare as the numbers they spell, at any
  length, and appending a tilde to a part, followed by anything, makes it earlier.
\<close>

theorem dpkg_runs:
  assumes "list_all is_ascii_digit m" and "list_all is_ascii_digit n"
  shows "digit_run_cmp m n = cmp (number m) (number n) \<and> dpkg_part_cmp (s @ ''~'' @ t) s = Less"
  using digit_run_number [OF assms] tilde_precedes [of s t] by simp

theorem dpkg_runs_witness:
  "digit_run_cmp ''0018446744073709551616'' ''18446744073709551615'' = Greater
   \<and> dpkg_part_cmp ''1.0~rc1'' ''1.0'' = Less"
proof -
  have "list_all is_ascii_digit ''0018446744073709551616''" "list_all is_ascii_digit ''18446744073709551615''"
    by code_simp+
  note * = dpkg_runs [OF this, of "''1.0''" "''rc1''"]
  have "cmp (number ''0018446744073709551616'') (number ''18446744073709551615'') = Greater"
    by (simp add: number_def cmp_def)
  with * show ?thesis by simp
qed

text \<open>
  C36. Among versions whose runs of digits each fit a 64-bit number, the order of what services say
  about themselves is total too.
\<close>

theorem version_order:
  assumes "runs_fit a" and "runs_fit b" and "runs_fit c"
  shows "version_cmp a a = Equal \<and> version_cmp b a = reverse (version_cmp a b)
    \<and> (version_cmp a b \<noteq> Greater \<longrightarrow> version_cmp b c \<noteq> Greater \<longrightarrow> version_cmp a c \<noteq> Greater)"
  using banner.compares_self [OF assms(1)] banner.compares_flipped [OF assms(1,2)]
    banner.compares_chain [OF assms] by simp

theorem version_order_witness:
  "version_cmp ''1.0.0-rc10'' ''1.0.0'' = Less \<and> version_cmp ''1.0.0'' ''1.0.0-1ubuntu2'' = Less
   \<and> version_cmp ''1.0.0-rc10'' ''1.0.0-1ubuntu2'' \<noteq> Greater"
proof -
  have "runs_fit ''1.0.0-rc10''" "runs_fit ''1.0.0''" "runs_fit ''1.0.0-1ubuntu2''" by code_simp+
  note * = version_order [OF this]
  have "version_cmp ''1.0.0-rc10'' ''1.0.0'' = Less" "version_cmp ''1.0.0'' ''1.0.0-1ubuntu2'' = Less"
    by code_simp+
  with * show ?thesis by simp
qed

text \<open>
  A run past 64 bits is compared by its length, leading zeros included, so a zero-padded small
  number comes above it while it comes above the small number's successor: the chain fails.
\<close>

lemma version_order_overflow:
  "version_cmp ''2'' ''18446744073709551616'' = Less
   \<and> version_cmp ''18446744073709551616'' ''000000000000000000001'' = Less
   \<and> version_cmp ''2'' ''000000000000000000001'' = Greater"
  by code_simp

end
