(* ===== verification/Guard.thy ===== *)
theory Guard
  imports Version
begin

text \<open>
  The guard expressions of detection flows, after \<open>detect/flow/expr.rs\<close> and
  \<open>detect/flow/eval.rs\<close>: lexer, recursive-descent parser, the variables a guard reads, and
  evaluation against an environment of bound variables.

  The parser's position is the list of tokens still to read, and its depth counter is the number
  of levels still allowed, so \<open>or_expr k\<close> is the method entered with \<open>depth = MAX_GUARD_DEPTH - k\<close>.
  An \<open>i64\<close> is an \<open>int\<close> kept in range by the lexer, the only source of literals.
\<close>

section \<open>Syntax\<close>

definition MAX_GUARD_DEPTH :: nat where "MAX_GUARD_DEPTH = 64"

datatype rel_op = Eq | Ne | Lt | Le | Gt | Ge

datatype operand = Var string | Text string | Int_lit int

datatype expr =
    Or_e expr expr
  | And_e expr expr
  | Not_e expr
  | Matched
  | Bound string
  | Unbound string
  | Compare operand rel_op operand

fun operand_vars :: "operand \<Rightarrow> string set" where
  "operand_vars (Var name) = {name}"
| "operand_vars _ = {}"

fun referenced_vars :: "expr \<Rightarrow> string set" where
  "referenced_vars (Or_e l r) = referenced_vars l \<union> referenced_vars r"
| "referenced_vars (And_e l r) = referenced_vars l \<union> referenced_vars r"
| "referenced_vars (Not_e e) = referenced_vars e"
| "referenced_vars Matched = {}"
| "referenced_vars (Bound name) = {name}"
| "referenced_vars (Unbound name) = {name}"
| "referenced_vars (Compare l op r) = operand_vars l \<union> operand_vars r"

fun uses_matched :: "expr \<Rightarrow> bool" where
  "uses_matched Matched = True"
| "uses_matched (Or_e l r) = (uses_matched l \<or> uses_matched r)"
| "uses_matched (And_e l r) = (uses_matched l \<or> uses_matched r)"
| "uses_matched (Not_e e) = uses_matched e"
| "uses_matched (Bound _) = False"
| "uses_matched (Unbound _) = False"
| "uses_matched (Compare _ _ _) = False"

datatype parse_error =
    Empty_guard
  | UnexpectedChar char
  | UnterminatedString
  | IntOverflow string
  | Expected string
  | Trailing
  | TooDeep

datatype token =
    TAnd | TOr | TNot | TMatched | TBound | TUnbound | LParen | RParen
  | Op rel_op | Ident string | TText string | TInt int

section \<open>Lexing\<close>

definition keyword :: "string \<Rightarrow> token" where
  "keyword word =
     (if word = ''and'' then TAnd
      else if word = ''or'' then TOr
      else if word = ''not'' then TNot
      else if word = ''matched'' then TMatched
      else if word = ''bound'' then TBound
      else if word = ''unbound'' then TUnbound
      else Ident word)"

text \<open>\<open>str::parse\<close> of a run of digits into an \<open>i64\<close>.\<close>

definition parse_i64 :: "string \<Rightarrow> int option" where
  "parse_i64 ds =
     (let n = foldl (\<lambda>n c. n * 10 + (of_char c - 48)) (0 :: int) ds in if n < 2 ^ 63 then Some n else None)"

definition relational :: "char \<Rightarrow> bool \<Rightarrow> rel_op option" where
  "relational c two =
     (if c = CHR ''<'' then Some (if two then Le else Lt)
      else if c = CHR ''>'' then Some (if two then Ge else Gt)
      else if c = CHR ''='' \<and> two then Some Eq
      else if c = CHR ''!'' \<and> two then Some Ne
      else None)"

definition is_word_char :: "char \<Rightarrow> bool" where
  "is_word_char c \<longleftrightarrow> is_ascii_alphanumeric c \<or> c = CHR ''_''"

definition quote :: char where "quote = CHR 0x27"

definition double_quote :: char where "double_quote = CHR 0x22"

text \<open>One turn of the loop at a character: the token it begins, if any, and what follows.\<close>

definition lex_one :: "char \<Rightarrow> string \<Rightarrow> parse_error + (token option \<times> string)" where
  "lex_one c rest =
     (if is_whitespace c then Inr (None, rest)
      else if c = CHR ''('' then Inr (Some LParen, rest)
      else if c = CHR '')'' then Inr (Some RParen, rest)
      else if c \<in> {CHR ''<'', CHR ''>'', CHR ''='', CHR ''!''} then
        (let two = (rest \<noteq> [] \<and> hd rest = CHR ''='') in
         case relational c two of
           None \<Rightarrow> Inl (UnexpectedChar c)
         | Some op \<Rightarrow> Inr (Some (Op op), if two then tl rest else rest))
      else if c = quote \<or> c = double_quote then
        (if c \<notin> set rest then Inl UnterminatedString
         else Inr (Some (TText (takeWhile (\<lambda>x. x \<noteq> c) rest)), tl (dropWhile (\<lambda>x. x \<noteq> c) rest)))
      else if is_ascii_digit c then
        (let ds = takeWhile is_ascii_digit (c # rest) in
         case parse_i64 ds of
           None \<Rightarrow> Inl (IntOverflow ds)
         | Some n \<Rightarrow> Inr (Some (TInt n), dropWhile is_ascii_digit rest))
      else if is_ascii_alphabetic c \<or> c = CHR ''_'' then
        Inr (Some (keyword (takeWhile is_word_char (c # rest))), dropWhile is_word_char rest)
      else Inl (UnexpectedChar c))"

lemma lex_one_shorter: "lex_one c rest = Inr (t, rest') \<Longrightarrow> length rest' \<le> length rest"
proof -
  assume a: "lex_one c rest = Inr (t, rest')"
  consider "rest' = rest" | "rest' = tl rest" | "rest' = tl (dropWhile (\<lambda>x. x \<noteq> c) rest)"
    | "rest' = dropWhile is_ascii_digit rest" | "rest' = dropWhile is_word_char rest"
    using a by (auto simp: lex_one_def Let_def split: if_splits option.splits)
  then show ?thesis
  proof cases
    case 3
    then show ?thesis using length_dropWhile_le [of "\<lambda>x. x \<noteq> c" rest] by simp
  qed (simp_all add: length_dropWhile_le)
qed

function lex :: "string \<Rightarrow> parse_error + token list" where
  "lex [] = Inr []"
| "lex (c # rest) =
     (case lex_one c rest of
        Inl e \<Rightarrow> Inl e
      | Inr (t, rest') \<Rightarrow>
          (case lex rest' of
             Inl e \<Rightarrow> Inl e
           | Inr ts \<Rightarrow> Inr (case t of None \<Rightarrow> ts | Some tok \<Rightarrow> tok # ts)))"
  by pat_completeness auto
termination
  by (relation "measure length") (auto dest: lex_one_shorter simp: le_imp_less_Suc)

section \<open>Parsing\<close>

type_synonym 'a parsed = "parse_error + ('a \<times> token list)"

definition eat :: "token \<Rightarrow> string \<Rightarrow> token list \<Rightarrow> parse_error + token list" where
  "eat expected what ts =
     (case ts of t # rest \<Rightarrow> if t = expected then Inr rest else Inl (Expected what)
               | [] \<Rightarrow> Inl (Expected what))"

definition parse_operand :: "token list \<Rightarrow> operand parsed" where
  "parse_operand ts =
     (case ts of
        Ident name # rest \<Rightarrow> Inr (Var name, rest)
      | TText t # rest \<Rightarrow> Inr (Text t, rest)
      | TInt n # rest \<Rightarrow> Inr (Int_lit n, rest)
      | _ \<Rightarrow> Inl (Expected ''a variable, string, or number''))"

definition comparison :: "token list \<Rightarrow> expr parsed" where
  "comparison ts =
     (case parse_operand ts of
        Inl e \<Rightarrow> Inl e
      | Inr (left, rest) \<Rightarrow>
          (case rest of
             Op op # rest' \<Rightarrow>
               (case parse_operand rest' of
                  Inl e \<Rightarrow> Inl e
                | Inr (right, rest'') \<Rightarrow> Inr (Compare left op right, rest''))
           | _ \<Rightarrow> Inl (Expected ''a comparison operator'')))"

definition predicate_arg :: "token list \<Rightarrow> string parsed" where
  "predicate_arg ts =
     (case eat LParen ([quote] @ ''('' @ [quote] @ '' after the predicate'') ts of
        Inl e \<Rightarrow> Inl e
      | Inr rest \<Rightarrow>
          (case rest of
             Ident name # rest' \<Rightarrow>
               (case eat RParen (''a closing '' @ [quote] @ '')'' @ [quote]) rest' of
                  Inl e \<Rightarrow> Inl e
                | Inr rest'' \<Rightarrow> Inr (name, rest''))
           | _ \<Rightarrow> Inl (Expected ''a variable name'')))"

text \<open>The parsers below take the parser of a parenthesised expression.\<close>

definition primary :: "(token list \<Rightarrow> expr parsed) \<Rightarrow> token list \<Rightarrow> expr parsed" where
  "primary nested ts =
     (case ts of
        LParen # rest \<Rightarrow>
          (case nested rest of
             Inl e \<Rightarrow> Inl e
           | Inr (inner, rest') \<Rightarrow>
               (case eat RParen (''a closing '' @ [quote] @ '')'' @ [quote]) rest' of
                  Inl e \<Rightarrow> Inl e
                | Inr rest'' \<Rightarrow> Inr (inner, rest'')))
      | TMatched # rest \<Rightarrow> Inr (Matched, rest)
      | TBound # rest \<Rightarrow>
          (case predicate_arg rest of Inl e \<Rightarrow> Inl e | Inr (name, rest') \<Rightarrow> Inr (Bound name, rest'))
      | TUnbound # rest \<Rightarrow>
          (case predicate_arg rest of Inl e \<Rightarrow> Inl e | Inr (name, rest') \<Rightarrow> Inr (Unbound name, rest'))
      | _ \<Rightarrow> comparison ts)"

definition not_expr :: "(token list \<Rightarrow> expr parsed) \<Rightarrow> token list \<Rightarrow> expr parsed" where
  "not_expr nested ts =
     (case ts of
        TNot # rest \<Rightarrow>
          (case primary nested rest of Inl e \<Rightarrow> Inl e | Inr (e, rest') \<Rightarrow> Inr (Not_e e, rest'))
      | _ \<Rightarrow> primary nested ts)"

text \<open>
  The \<open>while\<close> loop of \<open>and_expr\<close> and \<open>or_expr\<close>: \<open>sep\<close> is the token it looks for, \<open>item\<close> the parser
  it calls and \<open>mk\<close> the node it builds.  Its guard is that \<open>item\<close> hands back no more tokens than it
  was given; every parser here keeps that, so the last branch is never taken.
\<close>

function chain_loop ::
  "token \<Rightarrow> (expr \<Rightarrow> expr \<Rightarrow> expr) \<Rightarrow> (token list \<Rightarrow> expr parsed) \<Rightarrow> expr \<Rightarrow> token list \<Rightarrow> expr parsed" where
  "chain_loop sep mk item left [] = Inr (left, [])"
| "chain_loop sep mk item left (t # rest) =
     (if t = sep then
        (case item rest of
           Inl e \<Rightarrow> Inl e
         | Inr (right, rest') \<Rightarrow>
             (if length rest' \<le> length rest then chain_loop sep mk item (mk left right) rest'
              else Inr (left, t # rest)))
      else Inr (left, t # rest))"
  by pat_completeness auto
termination
  by (relation "measure (\<lambda>(sep, mk, item, left, ts). length ts)") auto

definition and_expr :: "(token list \<Rightarrow> expr parsed) \<Rightarrow> token list \<Rightarrow> expr parsed" where
  "and_expr nested ts =
     (case not_expr nested ts of
        Inl e \<Rightarrow> Inl e
      | Inr (left, rest) \<Rightarrow> chain_loop TAnd And_e (not_expr nested) left rest)"

fun or_expr :: "nat \<Rightarrow> token list \<Rightarrow> expr parsed" where
  "or_expr 0 ts = Inl TooDeep"
| "or_expr (Suc k) ts =
     (case and_expr (or_expr k) ts of
        Inl e \<Rightarrow> Inl e
      | Inr (left, rest) \<Rightarrow> chain_loop TOr Or_e (and_expr (or_expr k)) left rest)"

definition parse :: "string \<Rightarrow> parse_error + expr" where
  "parse input =
     (case lex input of
        Inl e \<Rightarrow> Inl e
      | Inr tokens \<Rightarrow>
          (if tokens = [] then Inl Empty_guard
           else case or_expr MAX_GUARD_DEPTH tokens of
                  Inl e \<Rightarrow> Inl e
                | Inr (e, rest) \<Rightarrow> if rest \<noteq> [] then Inl Trailing else Inr e))"

section \<open>Evaluation\<close>

type_synonym env = "string \<rightharpoonup> string"

datatype val = Number int | Text_val string

text \<open>\<open>to_string\<close> of an \<open>i64\<close>.\<close>

definition show_i64 :: "int \<Rightarrow> string" where
  "show_i64 n = (if n < 0 then CHR ''-'' # show_nat (nat (- n)) else show_nat (nat n))"

fun val_text :: "val \<Rightarrow> string" where
  "val_text (Number n) = show_i64 n"
| "val_text (Text_val t) = t"

fun val_equals :: "val \<Rightarrow> val \<Rightarrow> bool" where
  "val_equals (Number a) (Number b) = (a = b)"
| "val_equals u v = (val_text u = val_text v)"

fun val_order :: "val \<Rightarrow> val \<Rightarrow> ordering" where
  "val_order (Number a) (Number b) = cmp a b"
| "val_order u v = version_cmp (val_text u) (val_text v)"

fun resolve :: "operand \<Rightarrow> env \<Rightarrow> val option" where
  "resolve (Int_lit n) env = Some (Number n)"
| "resolve (Text t) env = Some (Text_val t)"
| "resolve (Var name) env = map_option Text_val (env name)"

fun holds_op :: "rel_op \<Rightarrow> val \<Rightarrow> val \<Rightarrow> bool" where
  "holds_op Eq l r = val_equals l r"
| "holds_op Ne l r = (\<not> val_equals l r)"
| "holds_op Lt l r = (val_order l r = Less)"
| "holds_op Le l r = (val_order l r \<noteq> Greater)"
| "holds_op Gt l r = (val_order l r = Greater)"
| "holds_op Ge l r = (val_order l r \<noteq> Less)"

definition compare :: "operand \<Rightarrow> rel_op \<Rightarrow> operand \<Rightarrow> env \<Rightarrow> bool" where
  "compare left op right env =
     (case (resolve left env, resolve right env) of
        (Some l, Some r) \<Rightarrow> holds_op op l r
      | _ \<Rightarrow> False)"

fun eval :: "expr \<Rightarrow> env \<Rightarrow> bool option \<Rightarrow> bool" where
  "eval (Or_e l r) env m = (eval l env m \<or> eval r env m)"
| "eval (And_e l r) env m = (eval l env m \<and> eval r env m)"
| "eval (Not_e e) env m = (\<not> eval e env m)"
| "eval Matched env m = (case m of None \<Rightarrow> False | Some b \<Rightarrow> b)"
| "eval (Bound name) env m = (env name \<noteq> None)"
| "eval (Unbound name) env m = (env name = None)"
| "eval (Compare l op r) env m = compare l op r env"

definition holds_guard :: "string option \<Rightarrow> env \<Rightarrow> bool option \<Rightarrow> bool" where
  "holds_guard guard env m =
     (case guard of
        None \<Rightarrow> True
      | Some src \<Rightarrow> (case parse src of Inr e \<Rightarrow> eval e env m | Inl _ \<Rightarrow> False))"

end
