(* ===== verification/Guard_Correct.thy ===== *)
theory Guard_Correct
  imports Guard
begin

text \<open>
  The guard grammar, stated as the module documentation of \<open>detect/flow/expr.rs\<close> gives it, and the
  proof that the parser accepts exactly its sentences; what a guard's value depends on.
\<close>

section \<open>The grammar\<close>

text \<open>One or more items with a separator between them, grouped to the left.\<close>

inductive chain_g :: "token \<Rightarrow> (expr \<Rightarrow> expr \<Rightarrow> expr) \<Rightarrow> (expr \<Rightarrow> token list \<Rightarrow> bool) \<Rightarrow> expr \<Rightarrow> token list \<Rightarrow> bool"
  for sep mk G where
  chain_one: "G e ts \<Longrightarrow> chain_g sep mk G e ts"
| chain_more: "chain_g sep mk G l ts \<Longrightarrow> G r us \<Longrightarrow> chain_g sep mk G (mk l r) (ts @ sep # us)"

inductive operand_g :: "operand \<Rightarrow> token \<Rightarrow> bool" where
  "operand_g (Var name) (Ident name)"
| "operand_g (Text t) (TText t)"
| "operand_g (Int_lit n) (TInt n)"

inductive primary_g :: "(expr \<Rightarrow> token list \<Rightarrow> bool) \<Rightarrow> expr \<Rightarrow> token list \<Rightarrow> bool" for nested where
  paren_g: "nested e ts \<Longrightarrow> primary_g nested e (LParen # ts @ [RParen])"
| matched_g: "primary_g nested Matched [TMatched]"
| bound_g: "primary_g nested (Bound name) [TBound, LParen, Ident name, RParen]"
| unbound_g: "primary_g nested (Unbound name) [TUnbound, LParen, Ident name, RParen]"
| compare_g: "operand_g l a \<Longrightarrow> operand_g r b \<Longrightarrow> primary_g nested (Compare l op r) [a, Op op, b]"

inductive not_g :: "(expr \<Rightarrow> token list \<Rightarrow> bool) \<Rightarrow> expr \<Rightarrow> token list \<Rightarrow> bool" for nested where
  plain_g: "primary_g nested e ts \<Longrightarrow> not_g nested e ts"
| negated_g: "primary_g nested e ts \<Longrightarrow> not_g nested (Not_e e) (TNot # ts)"

inductive_cases operand_gE: "operand_g l a"
inductive_cases primary_gE: "primary_g nested e ts"
inductive_cases not_gE: "not_g nested e ts"

text \<open>An expression nested at most \<open>k\<close> levels deep, the outermost counted.\<close>

fun or_g :: "nat \<Rightarrow> expr \<Rightarrow> token list \<Rightarrow> bool" where
  "or_g 0 e ts = False"
| "or_g (Suc k) e ts = chain_g TOr Or_e (chain_g TAnd And_e (not_g (or_g k))) e ts"

section \<open>The leaves of the parser\<close>

lemma eat_iff: "eat t what ts = Inr rest \<longleftrightarrow> ts = t # rest"
  by (auto simp: eat_def split: list.splits)

lemma parse_operand_sound: "parse_operand ts = Inr (x, rest) \<Longrightarrow> \<exists>t. ts = t # rest \<and> operand_g x t"
  by (auto simp: parse_operand_def split: list.splits token.splits intro: operand_g.intros)

lemma comparison_sound:
  assumes "comparison ts = Inr (e, rest)"
  shows "\<exists>used. ts = used @ rest \<and> primary_g nested e used"
proof -
  obtain l ts1 where l: "parse_operand ts = Inr (l, ts1)"
    using assms by (auto simp: comparison_def split: sum.splits)
  then obtain op ts2 where op: "ts1 = Op op # ts2"
    using assms by (auto simp: comparison_def split: list.splits token.splits)
  then obtain r where r: "parse_operand ts2 = Inr (r, rest)" "e = Compare l op r"
    using assms l by (auto simp: comparison_def split: sum.splits)
  obtain a b where a: "ts = a # ts1" "operand_g l a" and b: "ts2 = b # rest" "operand_g r b"
    using parse_operand_sound [OF l] parse_operand_sound [OF r(1)] by blast
  then show ?thesis
    using op r(2) by (intro exI [of _ "[a, Op op, b]"]) (auto intro: compare_g)
qed

lemma predicate_arg_sound:
  "predicate_arg ts = Inr (name, rest) \<Longrightarrow> ts = LParen # Ident name # RParen # rest"
  by (auto simp: predicate_arg_def eat_iff split: sum.splits list.splits token.splits)

section \<open>Parsers that read a grammar\<close>

text \<open>
  The contract of a parsing method: what it consumes is a sentence of the grammar for the expression
  it returns, and it reads every sentence that is not followed by a token that would extend it.
\<close>

locale reads =
  fixes p :: "token list \<Rightarrow> expr parsed" and G :: "expr \<Rightarrow> token list \<Rightarrow> bool" and stop :: "token set"
  assumes reads_sound: "p ts = Inr (e, rest) \<Longrightarrow> \<exists>used. ts = used @ rest \<and> G e used"
    and reads_complete: "G e used \<Longrightarrow> (\<And>t us. rest = t # us \<Longrightarrow> t \<notin> stop) \<Longrightarrow> p (used @ rest) = Inr (e, rest)"
begin

lemma reads_shorter: "p ts = Inr (e, rest) \<Longrightarrow> length rest \<le> length ts"
  using reads_sound by fastforce

lemma reads_all: "p ts = Inr (e, []) \<longleftrightarrow> G e ts"
  using reads_sound [of ts e "[]"] reads_complete [of e ts "[]"] by auto

lemma reads_unique: "G e ts \<Longrightarrow> G e' ts \<Longrightarrow> e = e'"
  unfolding reads_all [symmetric] by simp

lemma chain_loop_sound:
  "chain_loop sep mk p left ts = Inr (e, rest) \<Longrightarrow> chain_g sep mk G left seen \<Longrightarrow>
   \<exists>used. ts = used @ rest \<and> chain_g sep mk G e (seen @ used)"
proof (induction "length ts" arbitrary: left ts seen rule: less_induct)
  case less
  show ?case
  proof (cases ts)
    case Nil
    with less.prems show ?thesis by auto
  next
    case (Cons t us)
    show ?thesis
    proof (cases "t = sep")
      case False
      with less.prems Cons show ?thesis by auto
    next
      case True
      with less.prems(1) Cons obtain right rest' where r: "p us = Inr (right, rest')"
        by (auto split: sum.splits)
      have shorter: "length rest' \<le> length us" using reads_shorter [OF r] .
      obtain u where u: "us = u @ rest'" "G right u" using reads_sound [OF r] by blast
      have "chain_loop sep mk p (mk left right) rest' = Inr (e, rest)"
        using less.prems(1) Cons True r shorter by simp
      moreover have "chain_g sep mk G (mk left right) (seen @ sep # u)"
        using less.prems(2) u(2) by (rule chain_more)
      ultimately obtain used where "rest' = used @ rest" "chain_g sep mk G e ((seen @ sep # u) @ used)"
        using less.hyps [of rest'] shorter Cons by force
      then show ?thesis using Cons True u(1) by (intro exI [of _ "sep # u @ used"]) simp
    qed
  qed
qed

lemma chain_start:
  assumes "sep \<notin> stop"
  shows "chain_g sep mk G e used \<Longrightarrow> (\<And>t us. rest = t # us \<Longrightarrow> t \<notin> stop) \<Longrightarrow>
    (case p (used @ rest) of Inl err \<Rightarrow> Inl err | Inr (left, rest') \<Rightarrow> chain_loop sep mk p left rest')
      = chain_loop sep mk p e rest"
proof (induction arbitrary: rest rule: chain_g.induct)
  case (chain_one e ts)
  then show ?case using reads_complete [of e ts rest] by simp
next
  case (chain_more l ts r us)
  have "p (us @ rest) = Inr (r, rest)" using chain_more by (intro reads_complete) auto
  then have "chain_loop sep mk p l (sep # us @ rest) = chain_loop sep mk p (mk l r) rest" by simp
  moreover have "(case p (ts @ sep # us @ rest) of Inl err \<Rightarrow> Inl err
      | Inr (left, rest') \<Rightarrow> chain_loop sep mk p left rest') = chain_loop sep mk p l (sep # us @ rest)"
    using assms by (intro chain_more.IH) auto
  ultimately show ?case by simp
qed

lemma reads_chain:
  assumes "sep \<notin> stop"
  shows "reads (\<lambda>ts. case p ts of Inl err \<Rightarrow> Inl err | Inr (left, rest) \<Rightarrow> chain_loop sep mk p left rest)
    (chain_g sep mk G) (insert sep stop)"
proof
  fix ts e rest
  assume "(case p ts of Inl err \<Rightarrow> Inl err | Inr (left, rest) \<Rightarrow> chain_loop sep mk p left rest) = Inr (e, rest)"
  then obtain left rest' where l: "p ts = Inr (left, rest')" "chain_loop sep mk p left rest' = Inr (e, rest)"
    by (auto split: sum.splits)
  obtain u where u: "ts = u @ rest'" "G left u" using reads_sound [OF l(1)] by blast
  then show "\<exists>used. ts = used @ rest \<and> chain_g sep mk G e used"
    using chain_loop_sound [OF l(2) chain_one [of G, OF u(2)]] by force
next
  fix e used rest
  assume g: "chain_g sep mk G e used" and stops: "\<And>t us. rest = t # us \<Longrightarrow> t \<notin> insert sep stop"
  have "chain_loop sep mk p e rest = Inr (e, rest)"
    using stops by (cases rest) auto
  then show "(case p (used @ rest) of Inl err \<Rightarrow> Inl err | Inr (left, rest') \<Rightarrow> chain_loop sep mk p left rest')
      = Inr (e, rest)"
    using chain_start [OF assms g, of rest] stops by auto
qed

lemma reads_primary:
  assumes "RParen \<notin> stop"
  shows "reads (primary p) (primary_g G) {}"
proof
  fix ts e rest
  assume a: "primary p ts = Inr (e, rest)"
  show "\<exists>used. ts = used @ rest \<and> primary_g G e used"
  proof (cases "\<exists>us. ts = LParen # us")
    case True
    then obtain us where us: "ts = LParen # us" by blast
    then obtain rest' where r: "p us = Inr (e, rest')" "rest' = RParen # rest"
      using a by (auto simp: primary_def eat_iff split: sum.splits)
    obtain u where "us = u @ rest'" "G e u" using reads_sound [OF r(1)] by blast
    then show ?thesis using us r(2) by (intro exI [of _ "LParen # u @ [RParen]"]) (auto intro: paren_g)
  next
    case False
    consider "comparison ts = Inr (e, rest)" | "ts = TMatched # rest" "e = Matched"
      | us name where "ts = TBound # us" "predicate_arg us = Inr (name, rest)" "e = Bound name"
      | us name where "ts = TUnbound # us" "predicate_arg us = Inr (name, rest)" "e = Unbound name"
      using a False by (auto simp: primary_def split: list.splits token.splits sum.splits)
    then show ?thesis
    proof cases
      case 1
      then show ?thesis by (rule comparison_sound)
    next
      case 2
      then show ?thesis by (intro exI [of _ "[TMatched]"]) (auto intro: matched_g)
    next
      case (3 us name)
      then show ?thesis using predicate_arg_sound [OF 3(2)]
        by (intro exI [of _ "[TBound, LParen, Ident name, RParen]"]) (auto intro: bound_g)
    next
      case (4 us name)
      then show ?thesis using predicate_arg_sound [OF 4(2)]
        by (intro exI [of _ "[TUnbound, LParen, Ident name, RParen]"]) (auto intro: unbound_g)
    qed
  qed
next
  fix e used rest
  assume "primary_g G e used"
  then show "primary p (used @ rest) = Inr (e, rest)"
  proof cases
    case (paren_g ts)
    have "p (ts @ RParen # rest) = Inr (e, RParen # rest)" using paren_g assms by (intro reads_complete) auto
    then show ?thesis using paren_g by (simp add: primary_def eat_def)
  next
    case (compare_g l a r b op)
    then show ?thesis
      by (auto simp: primary_def comparison_def parse_operand_def elim!: operand_gE)
  qed (simp_all add: primary_def predicate_arg_def eat_def)
qed

lemma reads_not:
  assumes "RParen \<notin> stop"
  shows "reads (not_expr p) (not_g G) {}"
proof
  note primary_sound = reads.reads_sound [OF reads_primary [OF assms]]
  note primary_complete = reads.reads_complete [OF reads_primary [OF assms]]
  fix ts e rest
  assume a: "not_expr p ts = Inr (e, rest)"
  show "\<exists>used. ts = used @ rest \<and> not_g G e used"
  proof (cases "\<exists>us. ts = TNot # us")
    case True
    then obtain us e' where us: "ts = TNot # us" "primary p us = Inr (e', rest)" "e = Not_e e'"
      using a by (auto simp: not_expr_def split: sum.splits)
    obtain u where "us = u @ rest" "primary_g G e' u" using primary_sound [OF us(2)] by blast
    then show ?thesis using us by (intro exI [of _ "TNot # u"]) (auto intro: negated_g)
  next
    case False
    then have "primary p ts = Inr (e, rest)"
      using a by (auto simp: not_expr_def split: list.splits token.splits)
    then show ?thesis using primary_sound plain_g by metis
  qed
next
  note primary_complete = reads.reads_complete [OF reads_primary [OF assms]]
  fix e used rest
  assume "not_g G e used"
  then show "not_expr p (used @ rest) = Inr (e, rest)"
  proof cases
    case plain_g
    then have "primary p (used @ rest) = Inr (e, rest)" by (rule primary_complete) simp
    moreover have "\<exists>t us. used = t # us \<and> t \<noteq> TNot"
      using plain_g by (auto elim!: primary_gE operand_gE)
    ultimately show ?thesis by (auto simp: not_expr_def split: token.splits)
  next
    case (negated_g e' ts)
    then have "primary p (ts @ rest) = Inr (e', rest)" by (intro primary_complete) simp_all
    then show ?thesis using negated_g by (simp add: not_expr_def)
  qed
qed

end

lemma reads_or: "reads (or_expr k) (or_g k) {TOr, TAnd}"
proof (induction k)
  case 0
  show ?case by unfold_locales auto
next
  case (Suc k)
  have "reads (and_expr (or_expr k)) (chain_g TAnd And_e (not_g (or_g k))) {TAnd}"
    using reads.reads_chain [OF reads.reads_not [OF Suc], of TAnd And_e]
    by (simp add: and_expr_def [abs_def])
  then have "reads (\<lambda>ts. or_expr (Suc k) ts) (chain_g TOr Or_e (chain_g TAnd And_e (not_g (or_g k)))) {TOr, TAnd}"
    using reads.reads_chain [of _ _ "{TAnd}" TOr Or_e] by simp
  moreover have "or_g (Suc k) = chain_g TOr Or_e (chain_g TAnd And_e (not_g (or_g k)))" by (intro ext) simp
  ultimately show ?case by simp
qed

interpretation guards: reads "or_expr MAX_GUARD_DEPTH" "or_g MAX_GUARD_DEPTH" "{TOr, TAnd}"
  by (rule reads_or)

lemma chain_nonempty: "chain_g sep mk G e ts \<Longrightarrow> (\<And>e ts. G e ts \<Longrightarrow> ts \<noteq> []) \<Longrightarrow> ts \<noteq> []"
  by (induction rule: chain_g.induct) auto

lemma or_g_nonempty: "or_g k e ts \<Longrightarrow> ts \<noteq> []"
  by (cases k) (auto elim!: not_gE primary_gE dest!: chain_nonempty)

section \<open>What a guard's value depends on\<close>

lemma resolve_cong: "\<forall>v \<in> operand_vars x. env v = env' v \<Longrightarrow> resolve x env = resolve x env'"
  by (cases x) auto

lemma resolve_None: "resolve x env = None \<longleftrightarrow> \<not> operand_vars x \<subseteq> dom env"
  by (cases x) auto

section \<open>Properties\<close>

text \<open>
  C11. The parser decides the documented grammar: a guard parses to an expression exactly when its
  tokens are a sentence of the grammar for that expression nested at most 64 levels deep, so a
  guard has one reading.
\<close>

theorem parse_correct:
  "parse src = Inr e \<longleftrightarrow> (\<exists>ts. lex src = Inr ts \<and> or_g MAX_GUARD_DEPTH e ts)"
proof -
  have "parse src = Inr e \<longleftrightarrow> (\<exists>ts. lex src = Inr ts \<and> ts \<noteq> [] \<and> or_expr MAX_GUARD_DEPTH ts = Inr (e, []))"
    by (auto simp: parse_def split: sum.splits if_splits)
  then show ?thesis using guards.reads_all or_g_nonempty by blast
qed

text \<open>
  C38. A guard's value depends only on the variables it reads, and on the step's match result only
  where it says \<open>matched\<close>; a comparison that reads a variable with no value is false.
\<close>

theorem eval_reads:
  assumes "\<forall>v \<in> referenced_vars e. env v = env' v" and "uses_matched e \<longrightarrow> m = m'"
  shows "eval e env m = eval e env' m' \<and> (compare l op r env \<longrightarrow> operand_vars l \<union> operand_vars r \<subseteq> dom env)"
proof
  show "eval e env m = eval e env' m'"
    using assms
  proof (induction e)
    case (Compare l op r)
    then show ?case using resolve_cong [of l env env'] resolve_cong [of r env env'] by (simp add: compare_def)
  qed auto
  show "compare l op r env \<longrightarrow> operand_vars l \<union> operand_vars r \<subseteq> dom env"
    using resolve_None [of l env] resolve_None [of r env] by (auto simp: compare_def split: option.splits)
qed

theorem eval_reads_witness:
  "eval (And_e (Bound ''version'') (Compare (Var ''version'') Lt (Text ''8.3.1'')))
     [''version'' \<mapsto> ''8.2.0''] None
   \<and> eval (And_e (Bound ''version'') (Compare (Var ''version'') Lt (Text ''8.3.1'')))
       [''version'' \<mapsto> ''8.2.0'', ''host'' \<mapsto> ''192.0.2.1''] (Some False)
   \<and> \<not> compare (Var ''version'') Lt (Text ''2'') Map.empty"
proof -
  define e where "e = And_e (Bound ''version'') (Compare (Var ''version'') Lt (Text ''8.3.1''))"
  have "eval e [''version'' \<mapsto> ''8.2.0''] None" unfolding e_def by code_simp
  then show ?thesis
    using eval_reads [of e "[''version'' \<mapsto> ''8.2.0'']" "[''version'' \<mapsto> ''8.2.0'', ''host'' \<mapsto> ''192.0.2.1'']" None "Some False"]
      eval_reads [of e Map.empty Map.empty None None "Var ''version''" Lt "Text ''2''"]
    by (simp add: e_def)
qed

end
