(* ===== verification/Finding.thy ===== *)
theory Finding
  imports Version
begin

text \<open>
  Findings, after \<open>model/finding.rs\<close> and \<open>model/confidence.rs\<close>: severities, classes, confidence,
  detection versions, references, excerpts, the finding itself with its builders, the key that says
  which claim it makes, and \<open>corroborate\<close>, which folds a second account of a claim into the first.

  The distribution build a correlation judged (\<open>model/port/build.rs\<close>) is a type parameter: a finding
  only carries and compares it.
\<close>

section \<open>The two axes\<close>

datatype severity = Info | Low | Medium | High | Critical

fun severity_as_score :: "severity \<Rightarrow> u8" where
  "severity_as_score Info = 0"
| "severity_as_score Low = 25"
| "severity_as_score Medium = 50"
| "severity_as_score High = 75"
| "severity_as_score Critical = 100"

datatype confidence = Heuristic | Weak | Probable | Strong | Certain

fun confidence_as_score :: "confidence \<Rightarrow> u8" where
  "confidence_as_score Heuristic = 0"
| "confidence_as_score Weak = 40"
| "confidence_as_score Probable = 70"
| "confidence_as_score Strong = 90"
| "confidence_as_score Certain = 100"

datatype detection_class = Passive | ActiveBenign | ActiveMutating | Exploit | Dos

text \<open>The derived orders: by position of the variant.\<close>

fun severity_rank :: "severity \<Rightarrow> nat" where
  "severity_rank Info = 0" | "severity_rank Low = 1" | "severity_rank Medium = 2"
| "severity_rank High = 3" | "severity_rank Critical = 4"

fun confidence_rank :: "confidence \<Rightarrow> nat" where
  "confidence_rank Heuristic = 0" | "confidence_rank Weak = 1" | "confidence_rank Probable = 2"
| "confidence_rank Strong = 3" | "confidence_rank Certain = 4"

lemma severity_rank_inj: "severity_rank a = severity_rank b \<longleftrightarrow> a = b"
  by (cases a; cases b) auto

lemma confidence_rank_inj: "confidence_rank a = confidence_rank b \<longleftrightarrow> a = b"
  by (cases a; cases b) auto

instantiation severity :: linorder
begin

definition less_eq_severity :: "severity \<Rightarrow> severity \<Rightarrow> bool" where
  "less_eq_severity a b \<longleftrightarrow> severity_rank a \<le> severity_rank b"

definition less_severity :: "severity \<Rightarrow> severity \<Rightarrow> bool" where
  "less_severity a b \<longleftrightarrow> severity_rank a < severity_rank b"

instance
  by standard (auto simp: less_eq_severity_def less_severity_def simp flip: severity_rank_inj)

end

instantiation confidence :: linorder
begin

definition less_eq_confidence :: "confidence \<Rightarrow> confidence \<Rightarrow> bool" where
  "less_eq_confidence a b \<longleftrightarrow> confidence_rank a \<le> confidence_rank b"

definition less_confidence :: "confidence \<Rightarrow> confidence \<Rightarrow> bool" where
  "less_confidence a b \<longleftrightarrow> confidence_rank a < confidence_rank b"

instance
  by standard (auto simp: less_eq_confidence_def less_confidence_def simp flip: confidence_rank_inj)

end

section \<open>Detection versions\<close>

datatype det_version = Det_version (major: u16) (minor: u16) (patch: u16)

instantiation det_version :: linorder
begin

definition less_eq_det_version :: "det_version \<Rightarrow> det_version \<Rightarrow> bool" where
  "less_eq_det_version a b \<longleftrightarrow>
     major a < major b \<or> major a = major b
       \<and> (minor a < minor b \<or> minor a = minor b \<and> patch a \<le> patch b)"

definition less_det_version :: "det_version \<Rightarrow> det_version \<Rightarrow> bool" where
  "less_det_version a b \<longleftrightarrow>
     major a < major b \<or> major a = major b
       \<and> (minor a < minor b \<or> minor a = minor b \<and> patch a < patch b)"

instance
  by standard (auto simp: less_eq_det_version_def less_det_version_def det_version.expand)

end

definition det_version_from_str :: "string \<Rightarrow> string + det_version" where
  "det_version_from_str text =
     (case split_on (CHR ''.'') text of
        [a, b, c] \<Rightarrow>
          (case (parse_uint a, parse_uint b, parse_uint c) of
             (Inr x, Inr y, Inr z) \<Rightarrow> Inr (Det_version x y z)
           | _ \<Rightarrow> Inl text)
      | _ \<Rightarrow> Inl text)"

definition det_version_display :: "det_version \<Rightarrow> string" where
  "det_version_display v =
     show_nat (unat (major v)) @ ''.'' @ show_nat (unat (minor v)) @ ''.'' @ show_nat (unat (patch v))"

section \<open>References, groups and excerpts\<close>

datatype reference = Cve string | Cwe u32 | Url string

definition is_cve_shaped :: "string \<Rightarrow> bool" where
  "is_cve_shaped ident \<longleftrightarrow>
     take 4 ident = ''CVE-'' \<and>
     (case split_once (CHR ''-'') (drop 4 ident) of
        None \<Rightarrow> False
      | Some (year, seq) \<Rightarrow>
          length year = 4 \<and> list_all is_ascii_digit year \<and> seq \<noteq> [] \<and> list_all is_ascii_digit seq)"

definition reference_cve :: "string \<Rightarrow> reference option" where
  "reference_cve ident = (if is_cve_shaped ident then Some (Cve ident) else None)"

datatype finding_error = EmptyId | EmptyTitle | EmptyGroup | NoExploitedCve

record finding_group =
  group_id :: string
  group_summary :: string

definition finding_group_new :: "string \<Rightarrow> string \<Rightarrow> finding_error + finding_group" where
  "finding_group_new ident summary =
     (if trim ident = [] \<or> trim summary = [] then Inl EmptyGroup
      else Inr \<lparr>group_id = ident, group_summary = summary\<rparr>)"

definition MAX_EXCERPT_BYTES :: nat where "MAX_EXCERPT_BYTES = 2048"

text \<open>The bytes of a character in UTF-8, and the longest prefix within a number of bytes.\<close>

definition utf8_width :: "char \<Rightarrow> nat" where
  "utf8_width c = (if of_char c < (128 :: nat) then 1 else 2)"

definition str_len :: "string \<Rightarrow> nat" where
  "str_len s = sum_list (map utf8_width s)"

fun prefix_within :: "nat \<Rightarrow> string \<Rightarrow> string" where
  "prefix_within n [] = []"
| "prefix_within n (c # cs) =
     (if utf8_width c \<le> n then c # prefix_within (n - utf8_width c) cs else [])"

definition excerpt_new :: "string \<Rightarrow> string" where
  "excerpt_new text =
     (if MAX_EXCERPT_BYTES < str_len text then prefix_within MAX_EXCERPT_BYTES text else text)"

section \<open>Provenance\<close>

record detection_id =
  det_id :: string
  det_ver :: det_version
  content_hash :: string

definition detection_id_new :: "string \<Rightarrow> det_version \<Rightarrow> string \<Rightarrow> finding_error + detection_id" where
  "detection_id_new ident version hash =
     (if trim ident = [] then Inl EmptyId
      else Inr \<lparr>det_id = ident, det_ver = version, content_hash = hash\<rparr>)"

record exploitation =
  exploited_by :: detection_id
  exploited_cves :: "string list"

definition exploitation_new :: "detection_id \<Rightarrow> string list \<Rightarrow> finding_error + exploitation" where
  "exploitation_new by_list cves =
     (let kept = foldl (\<lambda>kept cve. if is_cve_shaped cve \<and> cve \<notin> set kept then kept @ [cve] else kept) [] cves
      in if kept = [] then Inl NoExploitedCve
         else Inr \<lparr>exploited_by = by_list, exploited_cves = kept\<rparr>)"

section \<open>Findings\<close>

record 'b finding =
  f_detection :: detection_id
  f_title :: string
  f_severity :: severity
  f_confidence :: confidence
  f_class :: detection_class
  f_excerpt :: string
  f_references :: "reference list"
  f_remediation :: "string option"
  f_cpes :: "string set"
  f_subject :: "string option"
  f_build :: "'b option"
  f_group :: "finding_group option"
  f_advised_by :: "detection_id option"
  f_exploitation :: "exploitation option"

definition finding_new ::
  "detection_id \<Rightarrow> string \<Rightarrow> severity \<Rightarrow> confidence \<Rightarrow> detection_class \<Rightarrow> finding_error + 'b finding" where
  "finding_new detection title severity confidence cls =
     (if trim title = [] then Inl EmptyTitle
      else Inr \<lparr>f_detection = detection, f_title = title, f_severity = severity,
                f_confidence = confidence, f_class = cls, f_excerpt = [], f_references = [],
                f_remediation = None, f_cpes = {}, f_subject = None, f_build = None,
                f_group = None, f_advised_by = None, f_exploitation = None\<rparr>)"

definition with_reference :: "reference \<Rightarrow> 'b finding \<Rightarrow> 'b finding" where
  "with_reference r f = (if r \<in> set (f_references f) then f else f\<lparr>f_references := f_references f @ [r]\<rparr>)"

definition with_excerpt :: "string \<Rightarrow> 'b finding \<Rightarrow> 'b finding" where
  "with_excerpt e f = f\<lparr>f_excerpt := e\<rparr>"

definition with_remediation :: "string \<Rightarrow> 'b finding \<Rightarrow> 'b finding" where
  "with_remediation r f = f\<lparr>f_remediation := Some r\<rparr>"

definition with_cpe :: "string \<Rightarrow> 'b finding \<Rightarrow> 'b finding" where
  "with_cpe c f = f\<lparr>f_cpes := insert c (f_cpes f)\<rparr>"

definition with_subject :: "string \<Rightarrow> 'b finding \<Rightarrow> 'b finding" where
  "with_subject s f = f\<lparr>f_subject := Some s\<rparr>"

definition with_build :: "'b \<Rightarrow> 'b finding \<Rightarrow> 'b finding" where
  "with_build b f = f\<lparr>f_build := Some b\<rparr>"

definition with_advised_by :: "detection_id \<Rightarrow> 'b finding \<Rightarrow> 'b finding" where
  "with_advised_by d f = f\<lparr>f_advised_by := Some d\<rparr>"

definition with_exploitation :: "exploitation \<Rightarrow> 'b finding \<Rightarrow> 'b finding" where
  "with_exploitation x f = f\<lparr>f_exploitation := Some x\<rparr>"

definition with_group :: "finding_group \<Rightarrow> 'b finding \<Rightarrow> 'b finding" where
  "with_group g f = f\<lparr>f_group := Some g\<rparr>"

definition is_correlation :: "'b finding \<Rightarrow> bool" where
  "is_correlation f \<longleftrightarrow> f_cpes f \<noteq> {}"

record claim =
  claim_detection :: string
  claim_subject :: string

text \<open>\<open>Iterator::min\<close>.\<close>

fun iter_min :: "'a::linorder list \<Rightarrow> 'a option" where
  "iter_min [] = None"
| "iter_min (x # xs) = Some (foldl min x xs)"

fun cves_of :: "reference list \<Rightarrow> string list" where
  "cves_of [] = []"
| "cves_of (Cve c # rs) = c # cves_of rs"
| "cves_of (_ # rs) = cves_of rs"

definition claim_id :: "'b finding \<Rightarrow> claim" where
  "claim_id f =
     \<lparr>claim_detection = det_id (f_detection f),
      claim_subject =
        (case f_subject f of
           Some s \<Rightarrow> s
         | None \<Rightarrow> (case iter_min (cves_of (f_references f)) of Some c \<Rightarrow> c | None \<Rightarrow> f_title f))\<rparr>"

section \<open>Folding in another account\<close>

text \<open>One \<open>if cond { update; changed = true; }\<close> of the method.\<close>

definition fold_in ::
  "bool \<Rightarrow> ('b finding \<Rightarrow> 'b finding) \<Rightarrow> 'b finding \<times> bool \<Rightarrow> 'b finding \<times> bool" where
  "fold_in cond update s = (if cond then (update (fst s), True) else s)"

definition fold_correlation :: "'b finding \<Rightarrow> 'b finding \<times> bool \<Rightarrow> 'b finding \<times> bool" where
  "fold_correlation other s =
     (let s = fold_in (f_confidence other \<noteq> f_confidence (fst s)) (f_confidence_update (\<lambda>_. f_confidence other)) s;
          s = fold_in (f_references other \<noteq> f_references (fst s)) (f_references_update (\<lambda>_. f_references other)) s;
          s = fold_in (f_build other \<noteq> f_build (fst s)) (f_build_update (\<lambda>_. f_build other)) s;
          s = fold_in (f_advised_by other \<noteq> f_advised_by (fst s)) (f_advised_by_update (\<lambda>_. f_advised_by other)) s
      in fold_in (f_exploitation other \<noteq> f_exploitation (fst s)) (f_exploitation_update (\<lambda>_. f_exploitation other)) s)"

definition fold_observation :: "'b finding \<Rightarrow> 'b finding \<times> bool \<Rightarrow> 'b finding \<times> bool" where
  "fold_observation other s =
     (let stronger = max (f_confidence (fst s)) (f_confidence other);
          s = fold_in (stronger \<noteq> f_confidence (fst s)) (f_confidence_update (\<lambda>_. stronger)) s;
          s = foldl (\<lambda>s r. fold_in (r \<notin> set (f_references (fst s))) (f_references_update (\<lambda>rs. rs @ [r])) s) s
                (f_references other);
          s = fold_in (f_build (fst s) = None \<and> f_build other \<noteq> None) (f_build_update (\<lambda>_. f_build other)) s;
          s = fold_in (f_advised_by (fst s) = None \<and> f_advised_by other \<noteq> None)
                (f_advised_by_update (\<lambda>_. f_advised_by other)) s
      in fold_in (f_exploitation (fst s) = None \<and> f_exploitation other \<noteq> None)
           (f_exploitation_update (\<lambda>_. f_exploitation other)) s)"

definition fold_verdict :: "'b finding \<Rightarrow> 'b finding \<times> bool \<Rightarrow> 'b finding \<times> bool" where
  "fold_verdict other s =
     (let s = fold_in (det_ver (f_detection (fst s)) < det_ver (f_detection other))
                (f_detection_update (\<lambda>_. f_detection other)) s;
          s = fold_in (f_severity other \<noteq> f_severity (fst s)) (f_severity_update (\<lambda>_. f_severity other)) s;
          s = fold_in (f_title other \<noteq> f_title (fst s)) (f_title_update (\<lambda>_. f_title other)) s;
          s = fold_in (f_class other \<noteq> f_class (fst s)) (f_class_update (\<lambda>_. f_class other)) s;
          s = fold_in (f_excerpt other \<noteq> [] \<and> f_excerpt other \<noteq> f_excerpt (fst s))
                (f_excerpt_update (\<lambda>_. f_excerpt other)) s
      in fold_in (f_remediation other \<noteq> None \<and> f_remediation other \<noteq> f_remediation (fst s))
           (f_remediation_update (\<lambda>_. f_remediation other)) s)"

definition fold_superseded :: "'b finding \<Rightarrow> 'b finding \<times> bool \<Rightarrow> 'b finding \<times> bool" where
  "fold_superseded other s =
     (let s = fold_in (f_excerpt (fst s) = [] \<and> f_excerpt other \<noteq> []) (f_excerpt_update (\<lambda>_. f_excerpt other)) s
      in fold_in (f_remediation (fst s) = None \<and> f_remediation other \<noteq> None)
           (f_remediation_update (\<lambda>_. f_remediation other)) s)"

text \<open>The final loop inserts the platform identifiers; an insertion that adds one is a change.\<close>

definition corroborate :: "'b finding \<Rightarrow> 'b finding \<Rightarrow> 'b finding \<times> bool" where
  "corroborate self other =
     (let correlation = (is_correlation self \<and> is_correlation other);
          at_least_as_new = (det_ver (f_detection self) \<le> det_ver (f_detection other));
          s = (self, False);
          s = (if correlation then (if at_least_as_new then fold_correlation other s else s)
               else fold_observation other s);
          s = fold_in (f_subject (fst s) = None \<and> f_subject other \<noteq> None)
                (f_subject_update (\<lambda>_. f_subject other)) s;
          s = fold_in (at_least_as_new \<and> f_group other \<noteq> None \<and> f_group other \<noteq> f_group (fst s))
                (f_group_update (\<lambda>_. f_group other)) s;
          s = (if at_least_as_new then fold_verdict other s else fold_superseded other s)
      in fold_in (\<not> f_cpes other \<subseteq> f_cpes (fst s)) (f_cpes_update (\<lambda>cs. cs \<union> f_cpes other)) s)"

end
