(* ===== verification/Finding_Correct.thy ===== *)
theory Finding_Correct
  imports Finding
begin

text \<open>
  What folding a second account into a finding keeps: which claim it makes, the newest version and
  its verdict, and, for an observation, everything either account had; when it says something
  changed, something did.
\<close>

named_theorems finding_fields \<open>how the folding steps act on each field\<close>

lemma fold_in_simps [finding_fields]:
  "fst (fold_in c u s) = (if c then u (fst s) else fst s)"
  "snd (fold_in c u s) \<longleftrightarrow> c \<or> snd s"
  by (simp_all add: fold_in_def)

lemmas field_if [finding_fields] =
  if_distrib [of f_detection] if_distrib [of f_title] if_distrib [of f_severity]
  if_distrib [of f_confidence] if_distrib [of f_class] if_distrib [of f_excerpt]
  if_distrib [of f_references] if_distrib [of f_remediation] if_distrib [of f_cpes]
  if_distrib [of f_subject] if_distrib [of f_build] if_distrib [of f_group]
  if_distrib [of f_advised_by] if_distrib [of f_exploitation]

section \<open>References\<close>

text \<open>The references after a loop of insertions.\<close>

fun absorb_all :: "'a list \<Rightarrow> 'a list \<Rightarrow> 'a list" where
  "absorb_all rs [] = rs"
| "absorb_all rs (r # os) = absorb_all (if r \<in> set rs then rs else rs @ [r]) os"

lemma set_absorb_all: "set (absorb_all rs os) = set rs \<union> set os"
  by (induction rs os rule: absorb_all.induct) auto

lemma absorb_all_idle: "absorb_all rs os = rs \<longleftrightarrow> set os \<subseteq> set rs"
proof (induction rs os rule: absorb_all.induct)
  case (2 rs r os)
  have "r \<notin> set rs \<Longrightarrow> absorb_all (rs @ [r]) os \<noteq> rs"
    using set_absorb_all [of "rs @ [r]" os] by (metis Un_iff in_set_conv_decomp)
  with 2 show ?case by auto
qed simp

lemma references_loop:
  "foldl (\<lambda>s r. fold_in (r \<notin> set (f_references (fst s))) (f_references_update (\<lambda>rs. rs @ [r])) s) s os
     = ((fst s)\<lparr>f_references := absorb_all (f_references (fst s)) os\<rparr>,
        snd s \<or> \<not> set os \<subseteq> set (f_references (fst s)))"
proof (induction os arbitrary: s)
  case (Cons r os)
  then show ?case by (cases "r \<in> set (f_references (fst s))") (auto simp: fold_in_def)
qed auto

section \<open>The fields after each step\<close>

lemma max_left: "max a b = a \<longleftrightarrow> b \<le> a" for a b :: "'a::linorder"
  by (auto simp: max_def)

lemma fold_correlation_fields [finding_fields]:
  fixes other :: "'b finding"
  defines "f \<equiv> \<lambda>s. fst (fold_correlation other s)"
  shows "f_detection (f s) = f_detection (fst s)" "f_title (f s) = f_title (fst s)"
    "f_severity (f s) = f_severity (fst s)" "f_confidence (f s) = f_confidence other"
    "f_class (f s) = f_class (fst s)" "f_excerpt (f s) = f_excerpt (fst s)"
    "f_references (f s) = f_references other" "f_remediation (f s) = f_remediation (fst s)"
    "f_cpes (f s) = f_cpes (fst s)" "f_subject (f s) = f_subject (fst s)" "f_build (f s) = f_build other"
    "f_group (f s) = f_group (fst s)" "f_advised_by (f s) = f_advised_by other"
    "f_exploitation (f s) = f_exploitation other"
    "snd (fold_correlation other s) \<longleftrightarrow> snd s \<or> f_confidence other \<noteq> f_confidence (fst s)
       \<or> f_references other \<noteq> f_references (fst s) \<or> f_build other \<noteq> f_build (fst s)
       \<or> f_advised_by other \<noteq> f_advised_by (fst s) \<or> f_exploitation other \<noteq> f_exploitation (fst s)"
  unfolding f_def fold_correlation_def Let_def by (auto simp: finding_fields)

lemma fold_observation_fields [finding_fields]:
  fixes other :: "'b finding"
  defines "f \<equiv> \<lambda>s. fst (fold_observation other s)"
  shows "f_detection (f s) = f_detection (fst s)" "f_title (f s) = f_title (fst s)"
    "f_severity (f s) = f_severity (fst s)"
    "f_confidence (f s) = max (f_confidence (fst s)) (f_confidence other)"
    "f_class (f s) = f_class (fst s)" "f_excerpt (f s) = f_excerpt (fst s)"
    "f_references (f s) = absorb_all (f_references (fst s)) (f_references other)"
    "f_remediation (f s) = f_remediation (fst s)"
    "f_cpes (f s) = f_cpes (fst s)" "f_subject (f s) = f_subject (fst s)"
    "f_build (f s) = (if f_build (fst s) = None then f_build other else f_build (fst s))"
    "f_group (f s) = f_group (fst s)"
    "f_advised_by (f s) = (if f_advised_by (fst s) = None then f_advised_by other else f_advised_by (fst s))"
    "f_exploitation (f s) = (if f_exploitation (fst s) = None then f_exploitation other else f_exploitation (fst s))"
    "snd (fold_observation other s) \<longleftrightarrow> snd s \<or> f_confidence (fst s) < f_confidence other
       \<or> \<not> set (f_references other) \<subseteq> set (f_references (fst s))
       \<or> f_build (fst s) = None \<and> f_build other \<noteq> None
       \<or> f_advised_by (fst s) = None \<and> f_advised_by other \<noteq> None
       \<or> f_exploitation (fst s) = None \<and> f_exploitation other \<noteq> None"
  unfolding f_def fold_observation_def Let_def references_loop
  by (simp_all add: finding_fields max_left) auto

lemma fold_verdict_fields [finding_fields]:
  fixes other :: "'b finding"
  defines "f \<equiv> \<lambda>s. fst (fold_verdict other s)"
  shows "f_detection (f s) = (if det_ver (f_detection (fst s)) < det_ver (f_detection other)
        then f_detection other else f_detection (fst s))"
    "f_title (f s) = f_title other" "f_severity (f s) = f_severity other"
    "f_confidence (f s) = f_confidence (fst s)" "f_class (f s) = f_class other"
    "f_excerpt (f s) = (if f_excerpt other = [] then f_excerpt (fst s) else f_excerpt other)"
    "f_references (f s) = f_references (fst s)"
    "f_remediation (f s) = (if f_remediation other = None then f_remediation (fst s) else f_remediation other)"
    "f_cpes (f s) = f_cpes (fst s)" "f_subject (f s) = f_subject (fst s)" "f_build (f s) = f_build (fst s)"
    "f_group (f s) = f_group (fst s)" "f_advised_by (f s) = f_advised_by (fst s)"
    "f_exploitation (f s) = f_exploitation (fst s)"
    "snd (fold_verdict other s) \<longleftrightarrow> snd s \<or> det_ver (f_detection (fst s)) < det_ver (f_detection other)
       \<or> f_severity other \<noteq> f_severity (fst s) \<or> f_title other \<noteq> f_title (fst s)
       \<or> f_class other \<noteq> f_class (fst s)
       \<or> f_excerpt other \<noteq> [] \<and> f_excerpt other \<noteq> f_excerpt (fst s)
       \<or> f_remediation other \<noteq> None \<and> f_remediation other \<noteq> f_remediation (fst s)"
  unfolding f_def fold_verdict_def Let_def by (auto simp: finding_fields)

lemma fold_superseded_fields [finding_fields]:
  fixes other :: "'b finding"
  defines "f \<equiv> \<lambda>s. fst (fold_superseded other s)"
  shows "f_detection (f s) = f_detection (fst s)" "f_title (f s) = f_title (fst s)"
    "f_severity (f s) = f_severity (fst s)" "f_confidence (f s) = f_confidence (fst s)"
    "f_class (f s) = f_class (fst s)"
    "f_excerpt (f s) = (if f_excerpt (fst s) = [] then f_excerpt other else f_excerpt (fst s))"
    "f_references (f s) = f_references (fst s)"
    "f_remediation (f s) = (if f_remediation (fst s) = None then f_remediation other else f_remediation (fst s))"
    "f_cpes (f s) = f_cpes (fst s)" "f_subject (f s) = f_subject (fst s)" "f_build (f s) = f_build (fst s)"
    "f_group (f s) = f_group (fst s)" "f_advised_by (f s) = f_advised_by (fst s)"
    "f_exploitation (f s) = f_exploitation (fst s)"
    "snd (fold_superseded other s) \<longleftrightarrow> snd s \<or> f_excerpt (fst s) = [] \<and> f_excerpt other \<noteq> []
       \<or> f_remediation (fst s) = None \<and> f_remediation other \<noteq> None"
  unfolding f_def fold_superseded_def Let_def by (auto simp: finding_fields)

text \<open>The fields of the result, by whether the claim is a correlation and which account is newer.\<close>

lemma corroborate_fields:
  fixes self other :: "'b finding"
  defines "r \<equiv> fst (corroborate self other)"
  defines "cor \<equiv> is_correlation self \<and> is_correlation other"
  defines "new \<equiv> det_ver (f_detection self) \<le> det_ver (f_detection other)"
  shows "f_detection r = (if det_ver (f_detection self) < det_ver (f_detection other)
        then f_detection other else f_detection self)"
    "f_title r = (if new then f_title other else f_title self)"
    "f_severity r = (if new then f_severity other else f_severity self)"
    "f_confidence r = (if cor then if new then f_confidence other else f_confidence self
        else max (f_confidence self) (f_confidence other))"
    "f_class r = (if new then f_class other else f_class self)"
    "f_excerpt r = (if f_excerpt other = [] \<or> \<not> new \<and> f_excerpt self \<noteq> [] then f_excerpt self else f_excerpt other)"
    "f_references r = (if cor then if new then f_references other else f_references self
        else absorb_all (f_references self) (f_references other))"
    "f_remediation r = (if f_remediation other = None \<or> \<not> new \<and> f_remediation self \<noteq> None
        then f_remediation self else f_remediation other)"
    "f_cpes r = f_cpes self \<union> f_cpes other"
    "f_subject r = (if f_subject self = None then f_subject other else f_subject self)"
    "f_build r = (if if cor then new else f_build self = None then f_build other else f_build self)"
    "f_group r = (if new \<and> f_group other \<noteq> None then f_group other else f_group self)"
    "f_advised_by r = (if if cor then new else f_advised_by self = None then f_advised_by other else f_advised_by self)"
    "f_exploitation r = (if if cor then new else f_exploitation self = None
        then f_exploitation other else f_exploitation self)"
  unfolding r_def corroborate_def Let_def cor_def [symmetric] new_def [symmetric]
  by (cases cor; cases new; auto simp: finding_fields new_def)+

lemma finding_eq_iff:
  "f = g \<longleftrightarrow> f_detection f = f_detection g \<and> f_title f = f_title g \<and> f_severity f = f_severity g
     \<and> f_confidence f = f_confidence g \<and> f_class f = f_class g \<and> f_excerpt f = f_excerpt g
     \<and> f_references f = f_references g \<and> f_remediation f = f_remediation g \<and> f_cpes f = f_cpes g
     \<and> f_subject f = f_subject g \<and> f_build f = f_build g \<and> f_group f = f_group g
     \<and> f_advised_by f = f_advised_by g \<and> f_exploitation f = f_exploitation g"
  for f g :: "'b finding"
  by (auto intro: finding.equality)

lemma corroborate_flag:
  fixes self other :: "'b finding"
  defines "cor \<equiv> is_correlation self \<and> is_correlation other"
  defines "new \<equiv> det_ver (f_detection self) \<le> det_ver (f_detection other)"
  shows "snd (corroborate self other) \<longleftrightarrow>
    (if cor
     then new \<and> (f_confidence other \<noteq> f_confidence self \<or> f_references other \<noteq> f_references self
       \<or> f_build other \<noteq> f_build self \<or> f_advised_by other \<noteq> f_advised_by self
       \<or> f_exploitation other \<noteq> f_exploitation self)
     else f_confidence self < f_confidence other \<or> \<not> set (f_references other) \<subseteq> set (f_references self)
       \<or> f_build self = None \<and> f_build other \<noteq> None
       \<or> f_advised_by self = None \<and> f_advised_by other \<noteq> None
       \<or> f_exploitation self = None \<and> f_exploitation other \<noteq> None)
    \<or> f_subject self = None \<and> f_subject other \<noteq> None
    \<or> new \<and> f_group other \<noteq> None \<and> f_group other \<noteq> f_group self
    \<or> (if new
       then det_ver (f_detection self) < det_ver (f_detection other) \<or> f_severity other \<noteq> f_severity self
         \<or> f_title other \<noteq> f_title self \<or> f_class other \<noteq> f_class self
         \<or> f_excerpt other \<noteq> [] \<and> f_excerpt other \<noteq> f_excerpt self
         \<or> f_remediation other \<noteq> None \<and> f_remediation other \<noteq> f_remediation self
       else f_excerpt self = [] \<and> f_excerpt other \<noteq> [] \<or> f_remediation self = None \<and> f_remediation other \<noteq> None)
    \<or> \<not> f_cpes other \<subseteq> f_cpes self"
  unfolding corroborate_def Let_def cor_def [symmetric] new_def [symmetric]
  by (cases cor; cases new; simp del: not_None_eq add: finding_fields; auto)

lemma absorb_all_differs: "absorb_all rs os \<noteq> rs \<longleftrightarrow> \<not> set os \<subseteq> set rs"
  by (simp only: absorb_all_idle)

lemma max_differs: "max a b \<noteq> a \<longleftrightarrow> a < b" for a b :: "'a::linorder"
  by (simp add: max_left not_le)

lemma differs_fields:
  fixes self other :: "'b finding"
  defines "r \<equiv> fst (corroborate self other)"
  defines "cor \<equiv> is_correlation self \<and> is_correlation other"
  defines "new \<equiv> det_ver (f_detection self) \<le> det_ver (f_detection other)"
  shows "f_detection r \<noteq> f_detection self \<longleftrightarrow> det_ver (f_detection self) < det_ver (f_detection other)"
    "f_title r \<noteq> f_title self \<longleftrightarrow> new \<and> f_title other \<noteq> f_title self"
    "f_severity r \<noteq> f_severity self \<longleftrightarrow> new \<and> f_severity other \<noteq> f_severity self"
    "f_confidence r \<noteq> f_confidence self \<longleftrightarrow>
       (if cor then new \<and> f_confidence other \<noteq> f_confidence self else f_confidence self < f_confidence other)"
    "f_class r \<noteq> f_class self \<longleftrightarrow> new \<and> f_class other \<noteq> f_class self"
    "f_excerpt r \<noteq> f_excerpt self \<longleftrightarrow> (if new then f_excerpt other \<noteq> [] \<and> f_excerpt other \<noteq> f_excerpt self
       else f_excerpt self = [] \<and> f_excerpt other \<noteq> [])"
    "f_references r \<noteq> f_references self \<longleftrightarrow> (if cor then new \<and> f_references other \<noteq> f_references self
       else \<not> set (f_references other) \<subseteq> set (f_references self))"
    "f_remediation r \<noteq> f_remediation self \<longleftrightarrow>
       (if new then f_remediation other \<noteq> None \<and> f_remediation other \<noteq> f_remediation self
        else f_remediation self = None \<and> f_remediation other \<noteq> None)"
    "f_cpes r \<noteq> f_cpes self \<longleftrightarrow> \<not> f_cpes other \<subseteq> f_cpes self"
    "f_subject r \<noteq> f_subject self \<longleftrightarrow> f_subject self = None \<and> f_subject other \<noteq> None"
    "f_build r \<noteq> f_build self \<longleftrightarrow>
       (if cor then new \<and> f_build other \<noteq> f_build self else f_build self = None \<and> f_build other \<noteq> None)"
    "f_group r \<noteq> f_group self \<longleftrightarrow> new \<and> f_group other \<noteq> None \<and> f_group other \<noteq> f_group self"
    "f_advised_by r \<noteq> f_advised_by self \<longleftrightarrow> (if cor then new \<and> f_advised_by other \<noteq> f_advised_by self
       else f_advised_by self = None \<and> f_advised_by other \<noteq> None)"
    "f_exploitation r \<noteq> f_exploitation self \<longleftrightarrow> (if cor then new \<and> f_exploitation other \<noteq> f_exploitation self
       else f_exploitation self = None \<and> f_exploitation other \<noteq> None)"
  unfolding r_def corroborate_fields cor_def [symmetric] new_def [symmetric]
  by (auto simp: absorb_all_differs max_differs split: if_splits)

lemma corroborate_changed: "snd (corroborate self other) \<longleftrightarrow> fst (corroborate self other) \<noteq> self"
proof -
  define cor where "cor \<longleftrightarrow> is_correlation self \<and> is_correlation other"
  define new where "new \<longleftrightarrow> det_ver (f_detection self) \<le> det_ver (f_detection other)"
  have older: "\<not> new \<Longrightarrow> \<not> det_ver (f_detection self) < det_ver (f_detection other)" by (simp add: new_def)
  show ?thesis
    unfolding finding_eq_iff [of _ self] de_Morgan_conj differs_fields corroborate_flag
      cor_def [symmetric] new_def [symmetric]
    using older by (cases cor; cases new) (simp_all only: if_True if_False simp_thms disj_ac)
qed

section \<open>The claim\<close>

lemma foldl_min: "foldl min x xs = Min (insert x (set xs))" for x :: "'a::linorder"
proof (induction xs arbitrary: x)
  case (Cons y ys)
  have "Min (insert (min x y) (set ys)) = Min (insert x (insert y (set ys)))"
    by (cases "ys = []") (simp_all add: Min_insert min.assoc)
  then show ?case using Cons by simp
qed simp

lemma iter_min_Some: "iter_min xs = Some m \<longleftrightarrow> xs \<noteq> [] \<and> m = Min (set xs)"
  by (cases xs) (auto simp: foldl_min)

lemma iter_min_None: "iter_min xs = None \<longleftrightarrow> xs = []"
  by (cases xs) auto

lemma set_cves_of: "set (cves_of rs) = {c. Cve c \<in> set rs}"
  by (induction rs rule: cves_of.induct) auto

text \<open>What a finding without a named subject is about, from its references and its title.\<close>

definition about :: "reference list \<Rightarrow> string \<Rightarrow> string" where
  "about rs title = (case iter_min (cves_of rs) of Some c \<Rightarrow> c | None \<Rightarrow> title)"

lemma about_cves: "about rs t = (if cves_of rs = [] then t else Min {c. Cve c \<in> set rs})"
  using iter_min_Some [of "cves_of rs"] iter_min_None [of "cves_of rs"]
  by (cases "iter_min (cves_of rs)") (auto simp: about_def set_cves_of)

lemma finite_cves: "finite {c. Cve c \<in> set rs}"
  by (simp flip: set_cves_of)

lemma about_union:
  assumes "about rs t = about os u" and "set qs = set rs \<union> set os"
  shows "about qs t = about rs t" "about qs u = about rs t"
proof -
  have split: "{c. Cve c \<in> set qs} = {c. Cve c \<in> set rs} \<union> {c. Cve c \<in> set os}" using assms(2) by auto
  have empty: "cves_of ps = [] \<longleftrightarrow> {c. Cve c \<in> set ps} = {}" for ps
    using set_cves_of [of ps] by auto
  show "about qs t = about rs t" "about qs u = about rs t"
    using assms(1) finite_cves [of rs] finite_cves [of os] unfolding about_cves empty split
    by (auto simp: Min_Un split: if_splits)
qed

lemma claim_id_about:
  "claim_id f = \<lparr>claim_detection = det_id (f_detection f),
     claim_subject = (case f_subject f of Some s \<Rightarrow> s | None \<Rightarrow> about (f_references f) (f_title f))\<rparr>"
  by (cases "f_subject f") (simp_all add: claim_id_def about_def)

section \<open>Properties\<close>

text \<open>
  C19. Folding in another account of a claim leaves the claim what it was, whichever account is
  newer and whether or not they are correlations, and the method reports a change exactly when the
  finding differs afterwards.
\<close>

theorem corroborate_keeps_claim:
  assumes "claim_id self = claim_id other"
  shows "claim_id (fst (corroborate self other)) = claim_id self
    \<and> (snd (corroborate self other) \<longleftrightarrow> fst (corroborate self other) \<noteq> self)"
proof
  define r where "r = fst (corroborate self other)"
  note fields = corroborate_fields [of self other, folded r_def]
  have det: "det_id (f_detection self) = det_id (f_detection other)"
    using assms by (simp add: claim_id_about)
  then have d: "det_id (f_detection r) = det_id (f_detection self)" by (simp add: fields)
  have subj: "claim_subject (claim_id self) = claim_subject (claim_id other)" using assms by simp
  have "claim_subject (claim_id r) = claim_subject (claim_id self)"
  proof (cases "f_subject self")
    case (Some s)
    then show ?thesis by (simp add: claim_id_about fields)
  next
    case None
    show ?thesis
    proof (cases "f_subject other")
      case (Some s)
      with None subj show ?thesis by (simp add: claim_id_about fields)
    next
      case none: None
      have same: "about (f_references self) (f_title self) = about (f_references other) (f_title other)"
        using subj None none by (simp add: claim_id_about)
      have "about (f_references r) (f_title r) = about (f_references self) (f_title self)"
        using same about_union [OF same set_absorb_all] by (simp add: fields)
      then show ?thesis using None none by (simp add: claim_id_about fields)
    qed
  qed
  then show "claim_id (fst (corroborate self other)) = claim_id self"
    using d by (simp add: claim_id_about flip: r_def)
qed (rule corroborate_changed)

definition sample_detection :: "u16 \<Rightarrow> detection_id" where
  "sample_detection n = \<lparr>det_id = ''redis-unauth'', det_ver = Det_version 1 n 0, content_hash = []\<rparr>"

definition sample_finding :: "u16 \<Rightarrow> severity \<Rightarrow> reference list \<Rightarrow> unit finding" where
  "sample_finding n sev refs =
     \<lparr>f_detection = sample_detection n, f_title = ''CVE-2022-0543'', f_severity = sev,
      f_confidence = Probable, f_class = ActiveBenign, f_excerpt = [], f_references = refs,
      f_remediation = None, f_cpes = {}, f_subject = None, f_build = None,
      f_group = None, f_advised_by = None, f_exploitation = None\<rparr>"

lemma sample_claims:
  "claim_id (sample_finding 0 Low []) = claim_id (sample_finding 1 High [Cwe 306, Cve ''CVE-2022-0543''])"
  by (simp add: claim_id_def sample_finding_def sample_detection_def)

theorem corroborate_keeps_claim_witness:
  "claim_subject (claim_id (fst (corroborate (sample_finding 0 Low [])
      (sample_finding 1 High [Cwe 306, Cve ''CVE-2022-0543''])))) = ''CVE-2022-0543''
   \<and> fst (corroborate (sample_finding 0 Low []) (sample_finding 1 High [Cwe 306, Cve ''CVE-2022-0543'']))
      \<noteq> sample_finding 0 Low []"
proof -
  have "snd (corroborate (sample_finding 0 Low []) (sample_finding 1 High [Cwe 306, Cve ''CVE-2022-0543'']))"
    by (simp add: corroborate_flag sample_finding_def sample_detection_def is_correlation_def
        less_eq_det_version_def)
  moreover have "claim_subject (claim_id (sample_finding 0 Low [])) = ''CVE-2022-0543''"
    by (simp add: claim_id_def sample_finding_def)
  ultimately show ?thesis using corroborate_keeps_claim [OF sample_claims] by simp
qed



end
