(* ===== verification/Exposure.thy ===== *)
theory Exposure
  imports Ip_Range
begin

text \<open>
  Who else can reach an address, after \<open>model/ip.rs\<close>: the exposure a severity is graded against,
  and the scope tests beside it.
\<close>

datatype exposure = Local | Internal | Internet

definition octet4 :: "nat \<Rightarrow> ipv4_addr \<Rightarrow> u8" where
  "octet4 i a = ucast (drop_bit (24 - 8 * i) a)"

definition octet6 :: "nat \<Rightarrow> ipv6_addr \<Rightarrow> u8" where
  "octet6 i a = ucast (drop_bit (120 - 8 * i) a)"

text \<open>\<open>Ipv4Addr::is_loopback\<close>, \<open>is_private\<close> and \<open>is_link_local\<close>.\<close>

definition v4_is_loopback :: "ipv4_addr \<Rightarrow> bool" where
  "v4_is_loopback a \<longleftrightarrow> octet4 0 a = 127"

definition v4_is_private :: "ipv4_addr \<Rightarrow> bool" where
  "v4_is_private a \<longleftrightarrow>
     octet4 0 a = 10 \<or> octet4 0 a = 172 \<and> 16 \<le> octet4 1 a \<and> octet4 1 a \<le> 31
     \<or> octet4 0 a = 192 \<and> octet4 1 a = 168"

definition v4_is_link_local :: "ipv4_addr \<Rightarrow> bool" where
  "v4_is_link_local a \<longleftrightarrow> octet4 0 a = 169 \<and> octet4 1 a = 254"

definition exposure_of_v4 :: "ipv4_addr \<Rightarrow> exposure" where
  "exposure_of_v4 a =
     (if v4_is_loopback a then Local
      else
        (let carrier_nat = (octet4 0 a = 100 \<and> 64 \<le> octet4 1 a \<and> octet4 1 a \<le> 127);
             this_network = (octet4 0 a = 0)
         in if v4_is_private a \<or> v4_is_link_local a \<or> carrier_nat \<or> this_network then Internal
            else Internet))"

definition is_unique_local :: "ipv6_addr \<Rightarrow> bool" where
  "is_unique_local a \<longleftrightarrow> and (octet6 0 a) 0xfe = 0xfc"

definition exposure_of_v6 :: "ipv6_addr \<Rightarrow> exposure" where
  "exposure_of_v6 a =
     (if a = 1 then Local
      else
        (let link_local = (octet6 0 a = 0xfe \<and> and (octet6 1 a) 0xc0 = 0x80)
         in if link_local \<or> is_unique_local a \<or> a = 0 then Internal else Internet))"

definition exposure_of :: "ip_addr \<Rightarrow> exposure" where
  "exposure_of addr =
     (case addr of
        V4 a \<Rightarrow> exposure_of_v4 a
      | V6 a \<Rightarrow>
          (case to_ipv4_mapped a of Some m \<Rightarrow> exposure_of_v4 m | None \<Rightarrow> exposure_of_v6 a))"

definition is_global_unicast :: "ipv6_addr \<Rightarrow> bool" where
  "is_global_unicast a \<longleftrightarrow> 0x20 \<le> octet6 0 a \<and> octet6 0 a \<le> 0x3f"

definition is_globally_scoped :: "ipv6_addr \<Rightarrow> bool" where
  "is_globally_scoped a \<longleftrightarrow> is_global_unicast a \<or> is_unique_local a"

end
