(* ===== verification/Flow.thy ===== *)
theory Flow
  imports Guard Finding Exposure
begin

text \<open>
  Detection flows, after \<open>detect/manifest.rs\<close>, \<open>detect/authoring.rs\<close>, \<open>detect/convert.rs\<close>,
  \<open>detect/flow/schema.rs\<close>, \<open>detect/flow/validate.rs\<close> and \<open>detect/flow/interp.rs\<close>: what an author
  writes, the checks a flow passes before it ships, and the interpreter that runs it.

  The regular-expression crate is the parameter \<open>engine\<close>; the socket a flow talks through, the
  \<open>Probe\<close> trait, is the parameter \<open>probe\<close>, three operations on a state.  A \<open>BTreeMap\<close> of bindings is
  the list of its entries in key order.
\<close>

section \<open>The manifest\<close>

datatype class_spec = C_Derived | C_Passive | C_ActiveBenign | C_ActiveMutating | C_Exploit | C_Dos

datatype speak_spec = Target

record group_spec =
  gs_id :: string
  gs_summary :: string

record rule =
  ru_service :: "string option"
  ru_services :: "string list"
  ru_port :: "u16 option"
  ru_ports :: "u16 list"
  ru_protocol :: "string option"
  ru_speaks :: "string option"

record capability_spec =
  ca_class :: class_spec
  ca_speak :: "speak_spec option"
  ca_resolve :: bool
  ca_max_bytes :: "u32 option"
  ca_max_millis :: "u32 option"
  ca_max_connections :: "u16 option"

record detection_manifest =
  dm_id :: string
  dm_version :: string
  dm_title :: string
  dm_group :: "group_spec option"
  dm_when :: rule
  dm_capabilities :: capability_spec

fun class_into_model :: "class_spec \<Rightarrow> detection_class" where
  "class_into_model C_Derived = Passive"
| "class_into_model C_Passive = Passive"
| "class_into_model C_ActiveBenign = ActiveBenign"
| "class_into_model C_ActiveMutating = ActiveMutating"
| "class_into_model C_Exploit = Exploit"
| "class_into_model C_Dos = Dos"

definition group_to_model :: "group_spec \<Rightarrow> finding_group option" where
  "group_to_model g = (case finding_group_new (gs_id g) (gs_summary g) of Inr m \<Rightarrow> Some m | Inl _ \<Rightarrow> None)"

section \<open>What an author says of a finding\<close>

datatype severity_word = W_Info | W_Low | W_Medium | W_High | W_Critical

fun severity_into_model :: "severity_word \<Rightarrow> severity" where
  "severity_into_model W_Info = Info"
| "severity_into_model W_Low = Low"
| "severity_into_model W_Medium = Medium"
| "severity_into_model W_High = High"
| "severity_into_model W_Critical = Critical"

record severity_by_exposure =
  sx_internet :: severity_word
  sx_internal :: "severity_word option"
  sx_local :: "severity_word option"

definition severity_internal :: "severity_by_exposure \<Rightarrow> severity_word" where
  "severity_internal t = (case sx_internal t of Some s \<Rightarrow> s | None \<Rightarrow> sx_internet t)"

definition severity_local :: "severity_by_exposure \<Rightarrow> severity_word" where
  "severity_local t = (case sx_local t of Some s \<Rightarrow> s | None \<Rightarrow> severity_internal t)"

datatype severity_spec = Flat severity_word | PerExposure severity_by_exposure

definition into_model_at :: "severity_spec \<Rightarrow> exposure \<Rightarrow> severity" where
  "into_model_at spec e =
     severity_into_model
       (case spec of
          Flat s \<Rightarrow> s
        | PerExposure t \<Rightarrow>
            (case e of Local \<Rightarrow> severity_local t | Internal \<Rightarrow> severity_internal t | Internet \<Rightarrow> sx_internet t))"

datatype reference_spec = S_Cve string | S_Cwe u32 | S_Url string

fun reference_to_model :: "reference_spec \<Rightarrow> reference option" where
  "reference_to_model (S_Cve c) = reference_cve c"
| "reference_to_model (S_Cwe n) = Some (Cwe n)"
| "reference_to_model (S_Url u) = Some (Url u)"

definition wire_confidence :: "string \<Rightarrow> confidence option" where
  "wire_confidence name =
     (if name = ''heuristic'' then Some Heuristic
      else if name = ''weak'' then Some Weak
      else if name = ''probable'' then Some Probable
      else if name = ''strong'' then Some Strong
      else if name = ''certain'' then Some Certain
      else None)"

section \<open>The flow as authored\<close>

definition MAX_FLOW_STEPS :: nat where "MAX_FLOW_STEPS = 16"

definition MAX_LOOP_ITEMS :: nat where "MAX_LOOP_ITEMS = 64"

definition SEED_VARS :: "string list" where "SEED_VARS = [''host'', ''port'']"

record match_detail =
  md_pattern :: string
  md_version_group :: "u8 option"
  md_product :: "string option"
  md_vendor :: "string option"

datatype match_spec = Pattern string | Rule match_detail

fun spec_pattern :: "match_spec \<Rightarrow> string" where
  "spec_pattern (Pattern p) = p"
| "spec_pattern (Rule r) = md_pattern r"

fun version_group :: "match_spec \<Rightarrow> u8 option" where
  "version_group (Pattern p) = None"
| "version_group (Rule r) = md_version_group r"

record for_each =
  fe_var :: string
  fe_items :: "string list"

datatype on_no_match = OnHalt | OnContinue

record finding_spec =
  fs_when :: "string option"
  fs_severity :: severity_spec
  fs_title :: "string option"
  fs_summary :: string
  fs_detail :: "string option"
  fs_confidence :: "string option"
  fs_references :: "reference_spec list"
  fs_remediation :: "string option"
  fs_excerpt_from :: "string option"

record step =
  st_when :: "string option"
  st_for_each :: "for_each option"
  st_send :: "string option"
  st_expect :: "match_spec list"
  st_until :: "string option"
  st_bind :: "(string \<times> match_spec) list"
  st_on_no_match :: on_no_match
  st_finding :: "finding_spec list"

record flow_detection =
  fl_detection :: detection_manifest
  fl_step :: "step list"

definition bind_keys :: "step \<Rightarrow> string set" where
  "bind_keys st = set (map fst (st_bind st))"

section \<open>Checking a flow\<close>

datatype validation_error =
    TooManySteps nat
  | EmptyLoop nat
  | LoopTooLong nat nat
  | LoopVarShadows nat string
  | UnknownProtocol string
  | PassiveDoes string
  | SendWithoutSpeak
  | UndefinedVariable nat string string
  | MatchedInStepGuard nat
  | MatchedWithoutExpect nat
  | GuardParseError nat string parse_error
  | NoFindings
  | MalformedVersion string
  | EmptyFlowId
  | EmptyFlowTitle
  | HalfGroup
  | ReservedId string
  | ExpectWithoutSend nat

text \<open>\<open>if cond { errors.push(error) }\<close>.\<close>

abbreviation push_if :: "bool \<Rightarrow> 'e \<Rightarrow> 'e list" where
  "push_if cond e \<equiv> (if cond then [e] else [])"

definition is_version_triple :: "string \<Rightarrow> bool" where
  "is_version_triple version \<longleftrightarrow>
     (let parts = split_on (CHR ''.'') version
      in length parts = 3 \<and> list_all (\<lambda>p. \<not> isl (parse_uint p :: int_error_kind + u16)) parts)"

definition check_identity :: "flow_detection \<Rightarrow> validation_error list" where
  "check_identity flow =
     (let d = fl_detection flow in
      (if trim (dm_id d) = [] then [EmptyFlowId]
       else push_if (take 5 (dm_id d) = ''zond:'') (ReservedId (dm_id d)))
      @ push_if (trim (dm_title d) = []) EmptyFlowTitle
      @ (case dm_group d of
           None \<Rightarrow> []
         | Some g \<Rightarrow> push_if (trim (gs_id g) = [] \<or> trim (gs_summary g) = []) HalfGroup)
      @ push_if (\<not> is_version_triple (dm_version d)) (MalformedVersion (dm_version d)))"

definition check_capabilities :: "flow_detection \<Rightarrow> validation_error list" where
  "check_capabilities flow =
     (let caps = dm_capabilities (fl_detection flow);
          has_send = list_ex (\<lambda>st. st_send st \<noteq> None) (fl_step flow);
          has_for_each = list_ex (\<lambda>st. st_for_each st \<noteq> None) (fl_step flow)
      in if ca_class caps = C_Passive then
           push_if (ca_speak caps \<noteq> None) (PassiveDoes ''speak'')
           @ push_if (ca_resolve caps) (PassiveDoes ''resolve'')
           @ push_if has_send (PassiveDoes ''a step that sends'')
           @ push_if has_for_each (PassiveDoes ''a for_each step'')
         else push_if (has_send \<and> ca_speak caps = None) SendWithoutSpeak)"

definition check_protocol :: "flow_detection \<Rightarrow> validation_error list" where
  "check_protocol flow =
     (case ru_protocol (dm_when (fl_detection flow)) of
        None \<Rightarrow> []
      | Some p \<Rightarrow> push_if (p \<noteq> ''tcp'' \<and> p \<noteq> ''udp'') (UnknownProtocol p))"

definition open_brace :: char where "open_brace = CHR 0x7B"

definition close_brace :: char where "close_brace = CHR 0x7D"

definition is_brace :: "char \<Rightarrow> bool" where
  "is_brace c \<longleftrightarrow> c = open_brace \<or> c = close_brace"

text \<open>What \<open>rest.find(['{', '}'])\<close> finds: the text before the brace, the brace and the text after.\<close>

definition find_brace :: "string \<Rightarrow> (string \<times> char \<times> string) option" where
  "find_brace s =
     (case dropWhile (\<lambda>c. \<not> is_brace c) s of
        [] \<Rightarrow> None
      | this # after \<Rightarrow> Some (takeWhile (\<lambda>c. \<not> is_brace c) s, this, after))"

lemma find_brace_split:
  "find_brace s = Some (pre, this, after) \<Longrightarrow>
     s = pre @ this # after \<and> is_brace this \<and> (\<forall>c \<in> set pre. \<not> is_brace c)"
proof -
  assume a: "find_brace s = Some (pre, this, after)"
  then have d: "dropWhile (\<lambda>c. \<not> is_brace c) s = this # after" and p: "pre = takeWhile (\<lambda>c. \<not> is_brace c) s"
    by (auto simp: find_brace_def split: list.splits)
  then have "is_brace this" using hd_dropWhile [of "\<lambda>c. \<not> is_brace c" s] by simp
  moreover have "s = pre @ this # after" using d p takeWhile_dropWhile_id [of "\<lambda>c. \<not> is_brace c" s] by simp
  moreover have "\<forall>c \<in> set pre. \<not> is_brace c" using p set_takeWhileD by fastforce
  ultimately show ?thesis by blast
qed

lemma find_brace_shorter: "find_brace s = Some (pre, this, after) \<Longrightarrow> length after < length s"
  by (auto dest: find_brace_split)

function template_vars :: "string \<Rightarrow> string list" where
  "template_vars rest =
     (case find_brace rest of
        None \<Rightarrow> []
      | Some (pre, this, after) \<Rightarrow>
          (if after \<noteq> [] \<and> hd after = this then template_vars (tl after)
           else if this = open_brace then
             (case split_once close_brace after of
                None \<Rightarrow> []
              | Some (name, rest') \<Rightarrow> name # template_vars rest')
           else template_vars after))"
  by pat_completeness auto
termination
  by (relation "measure length")
     (auto dest!: find_brace_shorter split_once_length)

declare template_vars.simps [simp del]

definition check_template :: "nat \<Rightarrow> string \<Rightarrow> string \<Rightarrow> string set \<Rightarrow> validation_error list" where
  "check_template index template place scope =
     map (\<lambda>v. UndefinedVariable index v place) (filter (\<lambda>v. v \<notin> scope) (template_vars template))"

definition check_names :: "nat \<Rightarrow> expr \<Rightarrow> string \<Rightarrow> string set \<Rightarrow> validation_error list" where
  "check_names index guard place scope =
     map (\<lambda>v. UndefinedVariable index v place)
       (filter (\<lambda>v. v \<notin> scope) (sorted_list_of_set (referenced_vars guard)))"

definition check_step_guard :: "nat \<Rightarrow> step \<Rightarrow> string set \<Rightarrow> validation_error list" where
  "check_step_guard index st scope =
     (case st_when st of
        None \<Rightarrow> []
      | Some src \<Rightarrow>
          (case parse src of
             Inl e \<Rightarrow> [GuardParseError index ''guard'' e]
           | Inr guard \<Rightarrow>
               push_if (uses_matched guard) (MatchedInStepGuard index)
               @ check_names index guard ''its guard'' scope))"

definition check_finding :: "nat \<Rightarrow> step \<Rightarrow> string set \<Rightarrow> finding_spec \<Rightarrow> validation_error list" where
  "check_finding index st scope f =
     (case fs_when f of
        None \<Rightarrow> []
      | Some src \<Rightarrow>
          (case parse src of
             Inl e \<Rightarrow> [GuardParseError index ''finding guard'' e]
           | Inr guard \<Rightarrow>
               push_if (uses_matched guard \<and> st_expect st = []) (MatchedWithoutExpect index)
               @ check_names index guard ''a finding guard'' scope))
     @ check_template index (fs_summary f) ''a finding summary'' scope
     @ (case fs_title f of None \<Rightarrow> [] | Some t \<Rightarrow> check_template index t ''a finding title'' scope)
     @ (case fs_detail f of None \<Rightarrow> [] | Some t \<Rightarrow> check_template index t ''a finding detail'' scope)
     @ (case fs_excerpt_from f of
          None \<Rightarrow> []
        | Some src \<Rightarrow>
            push_if (src \<noteq> ''$response'' \<and> src \<notin> scope)
              (UndefinedVariable index src ''a finding excerpt_from''))"

definition check_loop :: "nat \<Rightarrow> step \<Rightarrow> string set \<Rightarrow> validation_error list" where
  "check_loop index st persisted =
     (case st_for_each st of
        None \<Rightarrow> []
      | Some fe \<Rightarrow>
          push_if (fe_items fe = []) (EmptyLoop index)
          @ push_if (MAX_LOOP_ITEMS < length (fe_items fe)) (LoopTooLong index (length (fe_items fe)))
          @ push_if (fe_var fe \<in> persisted \<or> fe_var fe \<in> bind_keys st) (LoopVarShadows index (fe_var fe)))"

text \<open>What the guard and the send of a step see, what its findings see, and what later steps see.\<close>

definition gate_scope :: "string set \<Rightarrow> step \<Rightarrow> string set" where
  "gate_scope persisted st =
     persisted \<union> (case st_for_each st of None \<Rightarrow> {} | Some fe \<Rightarrow> {fe_var fe})"

definition finding_scope :: "string set \<Rightarrow> step \<Rightarrow> string set" where
  "finding_scope persisted st = gate_scope persisted st \<union> bind_keys st"

definition scope_after :: "string set \<Rightarrow> step \<Rightarrow> string set" where
  "scope_after persisted st = (if st_for_each st = None then persisted \<union> bind_keys st else persisted)"

definition check_step :: "nat \<Rightarrow> step \<Rightarrow> string set \<Rightarrow> validation_error list" where
  "check_step index st persisted =
     check_loop index st persisted
     @ check_step_guard index st (gate_scope persisted st)
     @ (case st_send st of None \<Rightarrow> [] | Some send \<Rightarrow> check_template index send ''a send'' (gate_scope persisted st))
     @ concat (map (check_finding index st (finding_scope persisted st)) (st_finding st))"

fun check_references :: "nat \<Rightarrow> step list \<Rightarrow> string set \<Rightarrow> validation_error list" where
  "check_references index [] persisted = []"
| "check_references index (st # sts) persisted =
     check_step index st persisted @ check_references (Suc index) sts (scope_after persisted st)"

definition check :: "flow_detection \<Rightarrow> validation_error list" where
  "check flow =
     check_identity flow @ check_capabilities flow @ check_protocol flow
     @ push_if (MAX_FLOW_STEPS < length (fl_step flow)) (TooManySteps (length (fl_step flow)))
     @ push_if (list_all (\<lambda>st. st_finding st = []) (fl_step flow)) NoFindings
     @ concat (map (\<lambda>(index, st). push_if (st_expect st \<noteq> [] \<and> st_send st = None) (ExpectWithoutSend index))
                   (enumerate 0 (fl_step flow)))
     @ check_references 0 (fl_step flow) (set SEED_VARS)"

end
