(* ===== verification/Flow_Run.thy ===== *)
theory Flow_Run
  imports Flow Mac
begin

text \<open>
  Running a flow, after \<open>detect/flow/interp.rs\<close>, with the payload decoder of
  \<open>fingerprint/signature.rs\<close> and the pattern queries of \<open>fingerprint/pattern.rs\<close>.
\<close>

section \<open>Payloads and replies\<close>

text \<open>The bytes of a character in UTF-8.\<close>

definition encode_utf8 :: "char \<Rightarrow> u8 list" where
  "encode_utf8 c =
     (let n = of_char c :: nat in
      if n < 128 then [of_nat n] else [of_nat (192 + n div 64), of_nat (128 + n mod 64)])"

definition backslash :: char where "backslash = CHR 0x5C"

text \<open>
  After \<open>\x\<close> two characters are taken, whether or not they are hexadecimal; \<open>next()\<close> at the end gives
  none.
\<close>

fun unescape :: "string \<Rightarrow> u8 list" where
  "unescape [] = []"
| "unescape [c] = (if c \<noteq> backslash then encode_utf8 c else [0x5C])"
| "unescape (c # e # rest) =
     (if c \<noteq> backslash then encode_utf8 c @ unescape (e # rest)
      else if e = CHR ''r'' then 13 # unescape rest
      else if e = CHR ''n'' then 10 # unescape rest
      else if e = CHR ''t'' then 9 # unescape rest
      else if e = CHR ''0'' then 0 # unescape rest
      else if e = backslash then 0x5C # unescape rest
      else if e = CHR ''x'' then
        (case rest of
           hi # lo # rest' \<Rightarrow>
             (case (hex_digit hi, hex_digit lo) of
                (Some h, Some l) \<Rightarrow> of_nat (h * 16 + l) # unescape rest'
              | _ \<Rightarrow> [0x5C, 0x78] @ unescape rest')
         | _ \<Rightarrow> [0x5C, 0x78])
      else 0x5C # encode_utf8 e @ unescape rest)"

definition latin1 :: "u8 list \<Rightarrow> string" where
  "latin1 bytes = map (\<lambda>b. char_of (unat b)) bytes"

section \<open>Templates\<close>

function interpolate :: "string \<Rightarrow> env \<Rightarrow> string option" where
  "interpolate rest env =
     (case find_brace rest of
        None \<Rightarrow> Some rest
      | Some (pre, this, after) \<Rightarrow>
          (if after \<noteq> [] \<and> hd after = this
           then map_option (\<lambda>out. pre @ this # out) (interpolate (tl after) env)
           else if this = open_brace then
             (case split_once close_brace after of
                None \<Rightarrow> None
              | Some (name, rest') \<Rightarrow>
                  (case env name of
                     None \<Rightarrow> None
                   | Some v \<Rightarrow> map_option (\<lambda>out. pre @ v @ out) (interpolate rest' env)))
           else map_option (\<lambda>out. pre @ close_brace # out) (interpolate after env)))"
  by pat_completeness auto
termination
  by (relation "measure (\<lambda>(rest, env). length rest)")
     (auto dest!: find_brace_shorter split_once_length)

declare interpolate.simps [simp del]

section \<open>Patterns\<close>

record captures =
  by_index :: "nat \<Rightarrow> string option"
  by_name :: "string \<Rightarrow> string option"

record 'r engine =
  compile :: "string \<Rightarrow> 'r option"
  captures :: "'r \<Rightarrow> string \<Rightarrow> captures option"

text \<open>The version of the match, where there is one.\<close>

definition identify :: "'r engine \<Rightarrow> 'r \<Rightarrow> string \<Rightarrow> u8 option \<Rightarrow> string option option" where
  "identify eng c text grp =
     map_option (\<lambda>caps. case grp of None \<Rightarrow> None | Some g \<Rightarrow> by_index caps (unat g)) (captures eng c text)"

definition capture_named :: "'r engine \<Rightarrow> 'r \<Rightarrow> string \<Rightarrow> string \<Rightarrow> string option" where
  "capture_named eng c text name =
     (case captures eng c text of None \<Rightarrow> None | Some caps \<Rightarrow> by_name caps name)"

definition matches_spec :: "'r engine \<Rightarrow> match_spec \<Rightarrow> string \<Rightarrow> bool" where
  "matches_spec eng spec text =
     (case compile eng (spec_pattern spec) of
        None \<Rightarrow> False
      | Some c \<Rightarrow> identify eng c text (version_group spec) \<noteq> None)"

definition capture :: "'r engine \<Rightarrow> match_spec \<Rightarrow> string \<Rightarrow> string \<Rightarrow> string option" where
  "capture eng spec text name =
     (case compile eng (spec_pattern spec) of
        None \<Rightarrow> None
      | Some c \<Rightarrow>
          (case capture_named eng c text name of
             Some v \<Rightarrow> Some v
           | None \<Rightarrow>
               (case version_group spec of
                  None \<Rightarrow> None
                | Some g \<Rightarrow> (case identify eng c text (Some g) of None \<Rightarrow> None | Some v \<Rightarrow> v))))"

section \<open>Running\<close>

record 'p probe =
  speak :: "u8 list \<Rightarrow> 'p \<Rightarrow> u8 list option \<times> 'p"
  reads_until :: "string option \<Rightarrow> 'p \<Rightarrow> 'p"
  plan :: "u32 \<Rightarrow> 'p \<Rightarrow> 'p"

datatype flow = Continue | Halt

record flow_seed =
  seed_host :: string
  seed_port :: u16
  seed_exposure :: exposure

definition seed_env :: "flow_seed \<Rightarrow> env" where
  "seed_env s = [''host'' \<mapsto> seed_host s, ''port'' \<mapsto> show_nat (unat (seed_port s))]"

text \<open>The number of exchanges a flow makes when every step runs.\<close>

definition exchanges :: "flow_detection \<Rightarrow> u32" where
  "exchanges fd =
     (let sends = sum_list (map (\<lambda>st. case st_for_each st of
                                       None \<Rightarrow> 1
                                     | Some fe \<Rightarrow> min (length (fe_items fe)) MAX_LOOP_ITEMS)
                     (filter (\<lambda>st. st_send st \<noteq> None) (take MAX_FLOW_STEPS (fl_step fd))))
      in if int sends < 2 ^ 32 then of_nat sends else - 1)"

definition after_no_match :: "step \<Rightarrow> flow" where
  "after_no_match st = (case st_on_no_match st of OnHalt \<Rightarrow> Halt | OnContinue \<Rightarrow> Continue)"

definition build_finding ::
  "flow_detection \<Rightarrow> string \<Rightarrow> flow_seed \<Rightarrow> finding_spec \<Rightarrow> env \<Rightarrow> string option \<Rightarrow> 'b finding option" where
  "build_finding fd hash seed spec env response =
     (let d = fl_detection fd;
          version = (case det_version_from_str (dm_version d) of Inr v \<Rightarrow> v | Inl _ \<Rightarrow> Det_version 0 0 0)
      in case detection_id_new (dm_id d) version hash of
           Inl _ \<Rightarrow> None
         | Inr detection \<Rightarrow>
             (case interpolate (case fs_title spec of Some t \<Rightarrow> t | None \<Rightarrow> fs_summary spec) env of
                None \<Rightarrow> None
              | Some title \<Rightarrow>
                  (let severity = into_model_at (fs_severity spec) (seed_exposure seed);
                       confidence =
                         (case fs_confidence spec of
                            None \<Rightarrow> Certain
                          | Some name \<Rightarrow> (case wire_confidence name of Some c \<Rightarrow> c | None \<Rightarrow> Certain));
                       cls = class_into_model (ca_class (dm_capabilities d))
                   in case finding_new detection title severity confidence cls of
                        Inl _ \<Rightarrow> None
                      | Inr f \<Rightarrow>
                          (let f = (case dm_group d of
                                      None \<Rightarrow> f
                                    | Some g \<Rightarrow> (case group_to_model g of None \<Rightarrow> f | Some m \<Rightarrow> with_group m f));
                               excerpt =
                                 (case fs_excerpt_from spec of
                                    Some source \<Rightarrow> if source = ''$response'' then response else env source
                                  | None \<Rightarrow>
                                      (case fs_detail spec of
                                         Some detail \<Rightarrow> interpolate detail env
                                       | None \<Rightarrow> response));
                               f = (case excerpt of None \<Rightarrow> f | Some e \<Rightarrow> with_excerpt (excerpt_new e) f);
                               f = foldl (\<lambda>f r. case reference_to_model r of None \<Rightarrow> f | Some m \<Rightarrow> with_reference m f)
                                     f (fs_references spec);
                               f = (case fs_remediation spec of None \<Rightarrow> f | Some r \<Rightarrow> with_remediation r f)
                           in Some f))))"

text \<open>The bindings a reply supplies, in the order of their names.\<close>

definition bind_reply :: "'r engine \<Rightarrow> (string \<times> match_spec) list \<Rightarrow> string \<Rightarrow> env \<Rightarrow> env" where
  "bind_reply eng binds response env =
     foldl (\<lambda>env (name, spec). case capture eng spec response name of
                                 Some v \<Rightarrow> env(name \<mapsto> v) | None \<Rightarrow> env) env binds"

definition emit_findings ::
  "flow_detection \<Rightarrow> string \<Rightarrow> flow_seed \<Rightarrow> step \<Rightarrow> env \<Rightarrow> bool \<Rightarrow> string option \<Rightarrow> 'b finding list \<Rightarrow> 'b finding list" where
  "emit_findings fd hash seed st env matched response findings =
     foldl (\<lambda>fs spec.
              if holds_guard (fs_when spec) env (Some matched) then
                (case build_finding fd hash seed spec env response of Some f \<Rightarrow> fs @ [f] | None \<Rightarrow> fs)
              else fs) findings (st_finding st)"

text \<open>What follows the exchange: binding, matching and the findings.\<close>

definition settle_step ::
  "'r engine \<Rightarrow> flow_detection \<Rightarrow> string \<Rightarrow> flow_seed \<Rightarrow> step \<Rightarrow> string option \<Rightarrow> env \<Rightarrow> 'b finding list
     \<Rightarrow> flow \<times> env \<times> 'b finding list" where
  "settle_step eng fd hash seed st response env findings =
     (let env' = (case response of None \<Rightarrow> env | Some r \<Rightarrow> bind_reply eng (st_bind st) r env);
          matched = (case response of
                       Some r \<Rightarrow> list_all (\<lambda>spec. matches_spec eng spec r) (st_expect st)
                     | None \<Rightarrow> st_expect st = [])
      in if \<not> matched \<and> st_on_no_match st = OnHalt then (Halt, env', findings)
         else (Continue, env', emit_findings fd hash seed st env' matched response findings))"

definition run_step ::
  "'r engine \<Rightarrow> 'p probe \<Rightarrow> flow_detection \<Rightarrow> string \<Rightarrow> flow_seed \<Rightarrow> step \<Rightarrow> env \<Rightarrow> 'p \<Rightarrow> 'b finding list
     \<Rightarrow> flow \<times> env \<times> 'p \<times> 'b finding list" where
  "run_step eng pr fd hash seed st env p findings =
     (if \<not> holds_guard (st_when st) env None then (Continue, env, p, findings)
      else case st_send st of
        None \<Rightarrow>
          (let (fl, env', fs) = settle_step eng fd hash seed st None env findings in (fl, env', p, fs))
      | Some send \<Rightarrow>
          (case interpolate send env of
             None \<Rightarrow> (after_no_match st, env, p, findings)
           | Some text \<Rightarrow>
               (let (reply, p') = speak pr (unescape text) (reads_until pr (st_until st) p);
                    (fl, env', fs) = settle_step eng fd hash seed st (map_option latin1 reply) env findings
                in (fl, env', p', fs))))"

text \<open>The loop over the items of a \<open>for_each\<close>, each in a copy of the environment.\<close>

fun run_items ::
  "'r engine \<Rightarrow> 'p probe \<Rightarrow> flow_detection \<Rightarrow> string \<Rightarrow> flow_seed \<Rightarrow> step \<Rightarrow> string \<Rightarrow> string list \<Rightarrow> env \<Rightarrow> 'p
     \<Rightarrow> 'b finding list \<Rightarrow> flow \<times> 'p \<times> 'b finding list" where
  "run_items eng pr fd hash seed st var [] env p findings = (Continue, p, findings)"
| "run_items eng pr fd hash seed st var (item # items) env p findings =
     (case run_step eng pr fd hash seed st (env(var \<mapsto> item)) p findings of
        (Halt, local, p', fs) \<Rightarrow> (Halt, p', fs)
      | (Continue, local, p', fs) \<Rightarrow> run_items eng pr fd hash seed st var items env p' fs)"

fun run_steps ::
  "'r engine \<Rightarrow> 'p probe \<Rightarrow> flow_detection \<Rightarrow> string \<Rightarrow> flow_seed \<Rightarrow> step list \<Rightarrow> env \<Rightarrow> 'p
     \<Rightarrow> 'b finding list \<Rightarrow> 'p \<times> 'b finding list" where
  "run_steps eng pr fd hash seed [] env p findings = (p, findings)"
| "run_steps eng pr fd hash seed (st # sts) env p findings =
     (case st_for_each st of
        Some fe \<Rightarrow>
          (case run_items eng pr fd hash seed st (fe_var fe) (take MAX_LOOP_ITEMS (fe_items fe)) env p findings of
             (Halt, p', fs) \<Rightarrow> (p', fs)
           | (Continue, p', fs) \<Rightarrow> run_steps eng pr fd hash seed sts env p' fs)
      | None \<Rightarrow>
          (case run_step eng pr fd hash seed st env p findings of
             (Halt, env', p', fs) \<Rightarrow> (p', fs)
           | (Continue, env', p', fs) \<Rightarrow> run_steps eng pr fd hash seed sts env' p' fs))"

definition run :: "'r engine \<Rightarrow> 'p probe \<Rightarrow> flow_detection \<Rightarrow> string \<Rightarrow> flow_seed \<Rightarrow> 'p \<Rightarrow> 'p \<times> 'b finding list" where
  "run eng pr fd hash seed p =
     run_steps eng pr fd hash seed (take MAX_FLOW_STEPS (fl_step fd)) (seed_env seed)
       (plan pr (exchanges fd) p) []"

end
