(* ===== verification/Flow_Correct.thy ===== *)
theory Flow_Correct
  imports Flow_Run Guard_Correct
begin

text \<open>
  What checking a flow guarantees about running it: every name read is in scope, a flow that may not
  speak sends nothing, and no flow sends more than it planned.  Templates are read alike by the
  checker and the interpreter, up to a brace that is never closed.
\<close>

section \<open>Templates\<close>

lemma find_brace_Nil [simp]: "find_brace [] = None"
  by (simp add: find_brace_def)

lemma find_brace_plain:
  "\<not> is_brace c \<Longrightarrow> find_brace (c # s) =
     map_option (\<lambda>(pre, this, after). (c # pre, this, after)) (find_brace s)"
  by (simp add: find_brace_def del: dropWhile_eq_Nil_conv split: list.split)

lemma find_brace_here: "is_brace c \<Longrightarrow> find_brace (c # s) = Some ([], c, s)"
  by (simp add: find_brace_def)

text \<open>Every brace that opens a name is closed.\<close>

function closed_template :: "string \<Rightarrow> bool" where
  "closed_template rest =
     (case find_brace rest of
        None \<Rightarrow> True
      | Some (pre, this, after) \<Rightarrow>
          (if after \<noteq> [] \<and> hd after = this then closed_template (tl after)
           else if this = open_brace then
             (case split_once close_brace after of
                None \<Rightarrow> False
              | Some (name, rest') \<Rightarrow> closed_template rest')
           else closed_template after))"
  by pat_completeness auto
termination
  by (relation "measure length")
     (auto dest!: find_brace_shorter split_once_length)

declare closed_template.simps [simp del]

lemma interpolate_iff:
  "interpolate t env \<noteq> None \<longleftrightarrow> closed_template t \<and> set (template_vars t) \<subseteq> dom env"
proof (induction t rule: template_vars.induct)
  case (1 t)
  show ?case
  proof (cases "find_brace t")
    case None
    then show ?thesis
      by (simp add: interpolate.simps [of t] closed_template.simps [of t] template_vars.simps [of t])
  next
    case (Some b)
    obtain pre this after where b: "b = (pre, this, after)" by (cases b)
    note steps = interpolate.simps [of t] closed_template.simps [of t] template_vars.simps [of t] Some b
    note IH = 1 [OF Some b [symmetric] refl]
    consider "after \<noteq> [] \<and> hd after = this" | "\<not> (after \<noteq> [] \<and> hd after = this)" "this = open_brace"
      | "\<not> (after \<noteq> [] \<and> hd after = this)" "this \<noteq> open_brace" by blast
    then show ?thesis
    proof cases
      case 1
      then show ?thesis using IH(1) by (simp add: steps)
    next
      case 2
      show ?thesis
      proof (cases "split_once close_brace after")
        case None
        with 2 show ?thesis by (auto simp: steps)
      next
        case (Some nr)
        obtain name rest' where nr: "nr = (name, rest')" by (cases nr)
        show ?thesis using IH(2) [OF 2 Some nr [symmetric]] 2 Some nr
          by (cases "env name") (auto simp: steps)
      qed
    next
      case 3
      then show ?thesis using IH(3) by (auto simp: steps)
    qed
  qed
qed

definition escape_braces :: "string \<Rightarrow> string" where
  "escape_braces s = concat (map (\<lambda>c. if is_brace c then [c, c] else [c]) s)"

lemma interpolate_plain:
  assumes "\<not> is_brace c"
  shows "interpolate (c # s) env = map_option ((#) c) (interpolate s env)"
proof (cases "find_brace s")
  case None
  with assms show ?thesis
    by (simp add: interpolate.simps [of "c # s"] interpolate.simps [of s] find_brace_plain)
next
  case (Some b)
  obtain pre this after where "b = (pre, this, after)" by (cases b)
  with Some assms show ?thesis
    by (simp add: interpolate.simps [of "c # s"] interpolate.simps [of s] find_brace_plain
        option.map_comp comp_def split: option.split prod.split)
qed

lemma interpolate_doubled: "is_brace c \<Longrightarrow> interpolate (c # c # s) env = map_option ((#) c) (interpolate s env)"
  by (simp add: interpolate.simps [of "c # c # s"] find_brace_here)

lemma interpolate_escaped: "interpolate (escape_braces s) env = Some s"
proof (induction s)
  case (Cons c s)
  then show ?case
    by (cases "is_brace c") (simp_all add: escape_braces_def interpolate_plain interpolate_doubled)
qed (simp add: escape_braces_def interpolate.simps)

section \<open>How often a flow speaks\<close>

text \<open>A probe that counts the exchanges of another.\<close>

definition counting :: "'p probe \<Rightarrow> (nat \<times> 'p) probe" where
  "counting pr =
     \<lparr>speak = \<lambda>bytes (n, p). let (reply, p') = speak pr bytes p in (reply, (Suc n, p')),
      reads_until = \<lambda>u (n, p). (n, reads_until pr u p),
      plan = \<lambda>k (n, p). (n, plan pr k p)\<rparr>"

definition step_cost :: "step \<Rightarrow> nat" where
  "step_cost st =
     (if st_send st = None then 0
      else case st_for_each st of None \<Rightarrow> 1 | Some fe \<Rightarrow> min (length (fe_items fe)) MAX_LOOP_ITEMS)"

abbreviation send_cost :: "step \<Rightarrow> nat" where
  "send_cost st \<equiv> (if st_send st = None then 0 else 1)"

lemma run_step_counting:
  "\<exists>k \<le> send_cost st. run_step eng (counting pr) fd hash seed st env (n, p) fs =
     (case run_step eng pr fd hash seed st env p fs of (fl, env', p', fs') \<Rightarrow> (fl, env', (n + k, p'), fs'))"
proof (cases "holds_guard (st_when st) env None \<and> (\<exists>send text. st_send st = Some send \<and> interpolate send env = Some text)")
  case True
  then show ?thesis
    by (intro exI [of _ 1]) (auto simp: run_step_def counting_def split: prod.split)
next
  case False
  then show ?thesis
    by (intro exI [of _ 0]) (auto simp: run_step_def split: option.split prod.split)
qed

lemma run_items_counting:
  "\<exists>k \<le> send_cost st * length items. run_items eng (counting pr) fd hash seed st var items env (n, p) fs =
     (case run_items eng pr fd hash seed st var items env p fs of (fl, p', fs') \<Rightarrow> (fl, (n + k, p'), fs'))"
proof (induction items arbitrary: n p fs)
  case (Cons item items)
  obtain k where k: "k \<le> send_cost st"
    "run_step eng (counting pr) fd hash seed st (env(var \<mapsto> item)) (n, p) fs =
     (case run_step eng pr fd hash seed st (env(var \<mapsto> item)) p fs of (fl, env', p', fs') \<Rightarrow> (fl, env', (n + k, p'), fs'))"
    using run_step_counting [of st eng pr fd hash seed "env(var \<mapsto> item)" n p fs] by blast
  obtain fl env' p' fs' where r: "run_step eng pr fd hash seed st (env(var \<mapsto> item)) p fs = (fl, env', p', fs')"
    by (metis prod_cases4)
  show ?case
  proof (cases fl)
    case Halt
    then show ?thesis using k r by (intro exI [of _ k]) auto
  next
    case Continue
    obtain j where "j \<le> send_cost st * length items"
      "run_items eng (counting pr) fd hash seed st var items env (n + k, p') fs' =
       (case run_items eng pr fd hash seed st var items env p' fs' of (fl, p', fs') \<Rightarrow> (fl, (n + k + j, p'), fs'))"
      using Cons [of "n + k" p' fs'] by blast
    then show ?thesis using k r Continue by (intro exI [of _ "k + j"]) (auto simp: add.assoc)
  qed
qed simp

lemma run_steps_counting:
  "\<exists>k \<le> sum_list (map step_cost sts). run_steps eng (counting pr) fd hash seed sts env (n, p) fs =
     (case run_steps eng pr fd hash seed sts env p fs of (p', fs') \<Rightarrow> ((n + k, p'), fs'))"
proof (induction sts arbitrary: env n p fs)
  case (Cons st sts)
  show ?case
  proof (cases "st_for_each st")
    case None
    obtain k where k: "k \<le> send_cost st"
      "run_step eng (counting pr) fd hash seed st env (n, p) fs =
       (case run_step eng pr fd hash seed st env p fs of (fl, env', p', fs') \<Rightarrow> (fl, env', (n + k, p'), fs'))"
      using run_step_counting [of st eng pr fd hash seed env n p fs] by blast
    obtain fl env' p' fs' where r: "run_step eng pr fd hash seed st env p fs = (fl, env', p', fs')"
      by (metis prod_cases4)
    have cost: "k \<le> step_cost st" using k(1) None by (auto simp: step_cost_def split: if_splits)
    show ?thesis
    proof (cases fl)
      case Halt
      then show ?thesis using k r None cost by (intro exI [of _ k]) auto
    next
      case Continue
      obtain j where "j \<le> sum_list (map step_cost sts)"
        "run_steps eng (counting pr) fd hash seed sts env' (n + k, p') fs' =
         (case run_steps eng pr fd hash seed sts env' p' fs' of (p', fs') \<Rightarrow> ((n + k + j, p'), fs'))"
        using Cons [of env' "n + k" p' fs'] by blast
      then show ?thesis using k r None cost Continue by (intro exI [of _ "k + j"]) (auto simp: add.assoc)
    qed
  next
    case (Some fe)
    define items where "items = take MAX_LOOP_ITEMS (fe_items fe)"
    obtain k where k: "k \<le> send_cost st * length items"
      "run_items eng (counting pr) fd hash seed st (fe_var fe) items env (n, p) fs =
       (case run_items eng pr fd hash seed st (fe_var fe) items env p fs of (fl, p', fs') \<Rightarrow> (fl, (n + k, p'), fs'))"
      using run_items_counting [of st items eng pr fd hash seed "fe_var fe" env n p fs] by blast
    obtain fl p' fs' where r: "run_items eng pr fd hash seed st (fe_var fe) items env p fs = (fl, p', fs')"
      by (metis prod_cases3)
    have cost: "k \<le> step_cost st" using k(1) Some by (auto simp: step_cost_def items_def split: if_splits)
    show ?thesis
    proof (cases fl)
      case Halt
      then show ?thesis using k r Some cost by (intro exI [of _ k]) (auto simp flip: items_def)
    next
      case Continue
      obtain j where "j \<le> sum_list (map step_cost sts)"
        "run_steps eng (counting pr) fd hash seed sts env (n + k, p') fs' =
         (case run_steps eng pr fd hash seed sts env p' fs' of (p', fs') \<Rightarrow> ((n + k + j, p'), fs'))"
        using Cons [of env "n + k" p' fs'] by blast
      then show ?thesis using k r Some cost Continue
        by (intro exI [of _ "k + j"]) (auto simp: add.assoc simp flip: items_def)
    qed
  qed
qed simp

lemma exchanges_cost:
  "unat (exchanges fd) = sum_list (map step_cost (take MAX_FLOW_STEPS (fl_step fd)))
   \<and> sum_list (map step_cost (take MAX_FLOW_STEPS (fl_step fd))) \<le> 1024"
proof -
  have filt: "sum_list (map step_cost sts) = sum_list (map (\<lambda>st. case st_for_each st of
      None \<Rightarrow> 1 | Some fe \<Rightarrow> min (length (fe_items fe)) MAX_LOOP_ITEMS) (filter (\<lambda>st. st_send st \<noteq> None) sts))" for sts
    by (induction sts) (auto simp: step_cost_def)
  have "step_cost st \<le> 64" for st
    by (simp add: step_cost_def MAX_LOOP_ITEMS_def split: option.split)
  then have "sum_list (map step_cost sts) \<le> 64 * length sts" for sts
  proof (induction sts)
    case (Cons st sts)
    then show ?case using add_mono [OF Cons.prems [of st] Cons.IH] by simp
  qed simp
  from this [of "take MAX_FLOW_STEPS (fl_step fd)"]
  have bound: "sum_list (map step_cost (take MAX_FLOW_STEPS (fl_step fd))) \<le> 1024"
    by (simp add: MAX_FLOW_STEPS_def min_def split: if_splits)
  then have "int (sum_list (map step_cost (take MAX_FLOW_STEPS (fl_step fd)))) < 2 ^ 32" by simp
  moreover have "unat (of_nat m :: u32) = m" if "m \<le> 1024" for m
    using that by (intro unat_of_nat_lt) simp
  ultimately show ?thesis using bound unfolding exchanges_def Let_def filt [symmetric] by simp
qed

section \<open>Scopes\<close>

text \<open>A guard that parses and reads only names of the scope, and \<open>matched\<close> only where allowed.\<close>

definition guard_ok :: "string option \<Rightarrow> string set \<Rightarrow> bool \<Rightarrow> bool" where
  "guard_ok guard scope allowed \<longleftrightarrow>
     (\<forall>src. guard = Some src \<longrightarrow>
        (\<exists>e. parse src = Inr e \<and> referenced_vars e \<subseteq> scope \<and> (uses_matched e \<longrightarrow> allowed)))"

definition template_ok :: "string option \<Rightarrow> string set \<Rightarrow> bool" where
  "template_ok template scope \<longleftrightarrow> (\<forall>t. template = Some t \<longrightarrow> set (template_vars t) \<subseteq> scope)"

definition finding_ok :: "finding_spec \<Rightarrow> string set \<Rightarrow> bool \<Rightarrow> bool" where
  "finding_ok f scope allowed \<longleftrightarrow>
     guard_ok (fs_when f) scope allowed \<and> template_ok (Some (fs_summary f)) scope
     \<and> template_ok (fs_title f) scope \<and> template_ok (fs_detail f) scope
     \<and> (\<forall>src. fs_excerpt_from f = Some src \<longrightarrow> src = ''$response'' \<or> src \<in> scope)"

definition loop_ok :: "step \<Rightarrow> string set \<Rightarrow> bool" where
  "loop_ok st scope \<longleftrightarrow>
     (\<forall>fe. st_for_each st = Some fe \<longrightarrow>
        fe_items fe \<noteq> [] \<and> length (fe_items fe) \<le> MAX_LOOP_ITEMS \<and> fe_var fe \<notin> scope \<and> fe_var fe \<notin> bind_keys st)"

definition step_ok :: "string set \<Rightarrow> step \<Rightarrow> bool" where
  "step_ok scope st \<longleftrightarrow>
     loop_ok st scope \<and> guard_ok (st_when st) (gate_scope scope st) False
     \<and> template_ok (st_send st) (gate_scope scope st)
     \<and> (\<forall>f \<in> set (st_finding st). finding_ok f (finding_scope scope st) (st_expect st \<noteq> []))"

text \<open>The judgement: a list of steps is well scoped in the names bound before it.\<close>

inductive well_scoped :: "string set \<Rightarrow> step list \<Rightarrow> bool" where
  scoped_done: "well_scoped scope []"
| scoped_step: "step_ok scope st \<Longrightarrow> well_scoped (scope_after scope st) sts \<Longrightarrow> well_scoped scope (st # sts)"

inductive_simps well_scoped_simps: "well_scoped scope []" "well_scoped scope (st # sts)"

lemma finite_operand_vars: "finite (operand_vars x)"
  by (cases x) auto

lemma finite_referenced_vars: "finite (referenced_vars e)"
  by (induction e) (auto simp: finite_operand_vars)

lemma push_if_Nil: "push_if c e = [] \<longleftrightarrow> \<not> c"
  by simp

lemma check_names_Nil: "check_names i e place scope = [] \<longleftrightarrow> referenced_vars e \<subseteq> scope"
  by (auto simp: check_names_def filter_empty_conv finite_referenced_vars)

lemma check_template_Nil: "check_template i t place scope = [] \<longleftrightarrow> set (template_vars t) \<subseteq> scope"
  by (auto simp: check_template_def filter_empty_conv)

lemma check_step_guard_Nil: "check_step_guard i st scope = [] \<longleftrightarrow> guard_ok (st_when st) scope False"
  by (auto simp: check_step_guard_def guard_ok_def check_names_Nil split: option.splits sum.splits)

lemma check_finding_Nil:
  "check_finding i st scope f = [] \<longleftrightarrow> finding_ok f scope (st_expect st \<noteq> [])"
  by (auto simp: check_finding_def finding_ok_def guard_ok_def template_ok_def check_names_Nil check_template_Nil
      split: option.splits sum.splits)

lemma check_loop_Nil: "check_loop i st scope = [] \<longleftrightarrow> loop_ok st scope"
  by (auto simp: check_loop_def loop_ok_def not_less split: option.splits)

lemma check_step_Nil: "check_step i st scope = [] \<longleftrightarrow> step_ok scope st"
  by (auto simp: check_step_def step_ok_def check_loop_Nil check_step_guard_Nil check_finding_Nil
      template_ok_def check_template_Nil split: option.split)

lemma check_references_Nil: "check_references i sts scope = [] \<longleftrightarrow> well_scoped scope sts"
  by (induction i sts scope rule: check_references.induct) (auto simp: check_step_Nil well_scoped_simps)

lemma check_Nil:
  assumes "check fd = []"
  shows "well_scoped (set SEED_VARS) (fl_step fd)" "length (fl_step fd) \<le> MAX_FLOW_STEPS"
    "check_capabilities fd = []"
  using assms by (auto simp: check_def check_references_Nil not_less split: if_splits)

section \<open>The steps of a run\<close>

lemma bind_reply_Cons:
  "bind_reply eng ((name, spec) # binds) r env =
     bind_reply eng binds r (case capture eng spec r name of Some v \<Rightarrow> env(name \<mapsto> v) | None \<Rightarrow> env)"
  by (simp add: bind_reply_def)

lemma bind_reply_dom:
  "dom env \<subseteq> dom (bind_reply eng binds r env)
   \<and> dom (bind_reply eng binds r env) \<subseteq> dom env \<union> set (map fst binds)"
proof (induction binds arbitrary: env)
  case (Cons b binds)
  obtain name spec where b: "b = (name, spec)" by (cases b)
  define env' where "env' = (case capture eng spec r name of Some v \<Rightarrow> env(name \<mapsto> v) | None \<Rightarrow> env)"
  have "dom env \<subseteq> dom env'" "dom env' \<subseteq> insert name (dom env)"
    by (auto simp: env'_def split: option.split)
  with Cons [of env'] show ?case unfolding b bind_reply_Cons env'_def [symmetric]
    by (simp only: list.map fst_conv list.set(2)) blast
qed (simp add: bind_reply_def)

lemma settle_step_env:
  "fst (snd (settle_step eng fd hash seed st response env fs)) =
     (case response of None \<Rightarrow> env | Some r \<Rightarrow> bind_reply eng (st_bind st) r env)"
  by (simp add: settle_step_def Let_def)

lemma run_step_env:
  assumes "run_step eng pr fd hash seed st env p fs = (fl, env', p', fs')"
  shows "env' = env \<or> (\<exists>r. env' = bind_reply eng (st_bind st) r env)"
proof -
  have settled: "e = env \<or> (\<exists>r. e = bind_reply eng (st_bind st) r env)"
    if "settle_step eng fd hash seed st response env fs = (l, e, f)" for response l e f
    using settle_step_env [of eng fd hash seed st response env fs] that by (cases response) auto
  show ?thesis
    using assms settled by (auto simp: run_step_def split: if_splits option.splits prod.splits)
qed

lemma run_step_dom:
  assumes "run_step eng pr fd hash seed st env p fs = (fl, env', p', fs')"
  shows "dom env \<subseteq> dom env' \<and> dom env' \<subseteq> dom env \<union> bind_keys st"
  using run_step_env [OF assms] bind_reply_dom [of env eng "st_bind st"] unfolding bind_keys_def by blast

text \<open>
  The run as a transition system: what is left to do, the environment, the probe and the findings.
  A step that halts leaves nothing to do.
\<close>

type_synonym ('p, 'b) config = "step list \<times> env \<times> 'p \<times> 'b finding list"

inductive flow_step ::
  "'r engine \<Rightarrow> 'p probe \<Rightarrow> flow_detection \<Rightarrow> string \<Rightarrow> flow_seed \<Rightarrow> ('p, 'b) config \<Rightarrow> ('p, 'b) config \<Rightarrow> bool"
  for eng pr fd hash seed where
  plain: "st_for_each st = None \<Longrightarrow> run_step eng pr fd hash seed st env p fs = (fl, env', p', fs') \<Longrightarrow>
    flow_step eng pr fd hash seed (st # sts, env, p, fs) (if fl = Halt then [] else sts, env', p', fs')"
| each: "st_for_each st = Some fe \<Longrightarrow>
    run_items eng pr fd hash seed st (fe_var fe) (take MAX_LOOP_ITEMS (fe_items fe)) env p fs = (fl, p', fs') \<Longrightarrow>
    flow_step eng pr fd hash seed (st # sts, env, p, fs) (if fl = Halt then [] else sts, env, p', fs')"

inductive_cases flow_stepE: "flow_step eng pr fd hash seed (st # sts, env, p, fs) c"

definition start :: "'p probe \<Rightarrow> flow_detection \<Rightarrow> flow_seed \<Rightarrow> 'p \<Rightarrow> ('p, 'b) config" where
  "start pr fd seed p =
     (take MAX_FLOW_STEPS (fl_step fd), seed_env seed, plan pr (exchanges fd) p, [])"



section \<open>Invariants of a run\<close>

abbreviation scope_before :: "step list \<Rightarrow> string set" where
  "scope_before sts \<equiv> foldl scope_after (set SEED_VARS) sts"

definition config_ok :: "flow_detection \<Rightarrow> ('p, 'b) config \<Rightarrow> bool" where
  "config_ok fd c \<longleftrightarrow>
     (case c of (sts, env, p, fs) \<Rightarrow>
        set SEED_VARS \<subseteq> dom env \<and>
        (sts \<noteq> [] \<longrightarrow> (\<exists>before. fl_step fd = before @ sts \<and> well_scoped (scope_before before) sts
           \<and> dom env \<subseteq> scope_before before)))"

lemma config_ok_step:
  assumes "flow_step eng pr fd hash seed c d" and "config_ok fd c"
  shows "config_ok fd d"
  using assms
proof cases
  case (plain st env p fs fl env' p' fs' sts)
  have mono: "dom env \<subseteq> dom env'" "dom env' \<subseteq> dom env \<union> bind_keys st" using run_step_dom [OF plain(4)] by auto
  obtain before where b: "fl_step fd = before @ st # sts" "well_scoped (scope_before before) (st # sts)"
    "dom env \<subseteq> scope_before before" "set SEED_VARS \<subseteq> dom env"
    using assms(2) plain(1) by (auto simp: config_ok_def)
  have "dom env' \<subseteq> scope_before (before @ [st])" using mono(2) b(3) plain(3) by (auto simp: scope_after_def)
  moreover have "well_scoped (scope_before (before @ [st])) sts" using b(2) by (simp add: well_scoped_simps)
  moreover have "fl_step fd = (before @ [st]) @ sts" using b(1) by simp
  ultimately show ?thesis using b(4) mono(1) unfolding plain(2) config_ok_def by auto
next
  case (each st fe env p fs fl p' fs' sts)
  obtain before where b: "fl_step fd = before @ st # sts" "well_scoped (scope_before before) (st # sts)"
    "dom env \<subseteq> scope_before before" "set SEED_VARS \<subseteq> dom env"
    using assms(2) each(1) by (auto simp: config_ok_def)
  have "dom env \<subseteq> scope_before (before @ [st])" using b(3) by (auto simp: scope_after_def)
  moreover have "well_scoped (scope_before (before @ [st])) sts" using b(2) by (simp add: well_scoped_simps)
  moreover have "fl_step fd = (before @ [st]) @ sts" using b(1) by simp
  ultimately show ?thesis using b(4) unfolding each(2) config_ok_def by auto
qed

lemma config_ok_reached:
  assumes "check fd = []" and "(flow_step eng pr fd hash seed)\<^sup>*\<^sup>* (start pr fd seed p) c"
  shows "config_ok fd c"
  using assms(2)
proof (induction rule: rtranclp_induct)
  case base
  have "set SEED_VARS \<subseteq> dom (seed_env seed)" "dom (seed_env seed) \<subseteq> set SEED_VARS"
    by (auto simp: SEED_VARS_def seed_env_def)
  then show ?case
    using check_Nil [OF assms(1)] by (auto simp: config_ok_def start_def intro: exI [of _ "[]"])
next
  case (step c d)
  then show ?case using config_ok_step by blast
qed

lemma guard_scope_free:
  assumes "guard_ok guard scope False"
  shows "holds_guard guard env m = holds_guard guard env None"
proof (cases guard)
  case (Some src)
  then obtain e where e: "parse src = Inr e" "\<not> uses_matched e" using assms by (auto simp: guard_ok_def)
  have "eval e env m = eval e env None" using e(2) by (induction e) auto
  then show ?thesis using Some e(1) by (simp add: holds_guard_def)
qed (simp add: holds_guard_def)

lemma silent_step:
  assumes "st_send st = None"
  shows "fst (snd (snd (run_step eng pr fd hash seed st env p fs))) = p"
  using assms by (simp add: run_step_def split: prod.split)

lemma silent_items:
  assumes "st_send st = None"
  shows "fst (snd (run_items eng pr fd hash seed st var items env p fs)) = p"
proof (induction items arbitrary: p fs)
  case (Cons item items)
  obtain fl env' p' fs' where r: "run_step eng pr fd hash seed st (env(var \<mapsto> item)) p fs = (fl, env', p', fs')"
    by (metis prod_cases4)
  then have "p' = p" using silent_step [OF assms, of eng pr fd hash seed "env(var \<mapsto> item)" p fs] by simp
  with Cons r show ?case by (cases fl) simp_all
qed simp

lemma silent_steps:
  "\<forall>st \<in> set sts. st_send st = None \<Longrightarrow> fst (run_steps eng pr fd hash seed sts env p fs) = p"
proof (induction sts arbitrary: env p fs)
  case (Cons st sts)
  show ?case
  proof (cases "st_for_each st")
    case None
    obtain fl env' p' fs' where r: "run_step eng pr fd hash seed st env p fs = (fl, env', p', fs')"
      by (metis prod_cases4)
    then have "p' = p" using silent_step [of st eng pr fd hash seed env p fs] Cons.prems by simp
    with Cons r None show ?thesis by (cases fl) simp_all
  next
    case (Some fe)
    define items where "items = take MAX_LOOP_ITEMS (fe_items fe)"
    obtain fl p' fs' where r: "run_items eng pr fd hash seed st (fe_var fe) items env p fs = (fl, p', fs')"
      by (metis prod_cases3)
    then have "p' = p" using silent_items [of st eng pr fd hash seed "fe_var fe" items env p fs] Cons.prems by simp
    with Cons r Some show ?thesis by (cases fl) (simp_all flip: items_def)
  qed
qed simp

lemma unspoken_sends:
  assumes "check_capabilities fd = []" and "ca_speak (dm_capabilities (fl_detection fd)) = None"
  shows "\<forall>st \<in> set (fl_step fd). st_send st = None"
  using assms by (auto simp: check_capabilities_def Let_def list_ex_iff split: if_splits)

lemma scope_before_binds: "scope_before sts \<subseteq> set SEED_VARS \<union> (\<Union>st \<in> set sts. bind_keys st)"
proof (induction sts rule: rev_induct)
  case (snoc st sts)
  then show ?case by (auto simp: scope_after_def)
qed simp


section \<open>Examples\<close>

definition sample_engine :: "string engine" where
  "sample_engine =
     \<lparr>compile = Some,
      captures = \<lambda>_ text. Some \<lparr>by_index = \<lambda>_. Some text, by_name = \<lambda>_. Some text\<rparr>\<rparr>"

definition sample_probe :: "nat probe" where
  "sample_probe = \<lparr>speak = \<lambda>_ n. (Some [52, 50], Suc n), reads_until = \<lambda>_ n. n, plan = \<lambda>_ n. n\<rparr>"

definition sample_manifest :: "class_spec \<Rightarrow> speak_spec option \<Rightarrow> detection_manifest" where
  "sample_manifest cls speaks =
     \<lparr>dm_id = ''example'', dm_version = ''1.0.0'', dm_title = ''Example'', dm_group = None,
      dm_when = \<lparr>ru_service = None, ru_services = [], ru_port = None, ru_ports = [],
                 ru_protocol = Some ''tcp'', ru_speaks = None\<rparr>,
      dm_capabilities = \<lparr>ca_class = cls, ca_speak = speaks, ca_resolve = False, ca_max_bytes = None,
                         ca_max_millis = None, ca_max_connections = None\<rparr>\<rparr>"

definition sample_spec :: "string option \<Rightarrow> string \<Rightarrow> finding_spec" where
  "sample_spec guard summary =
     \<lparr>fs_when = guard, fs_severity = Flat W_High, fs_title = None, fs_summary = summary,
      fs_detail = None, fs_confidence = None, fs_references = [S_Cwe 306], fs_remediation = None,
      fs_excerpt_from = None\<rparr>"

definition sample_step :: "string option \<Rightarrow> string option \<Rightarrow> match_spec list \<Rightarrow> finding_spec list \<Rightarrow> step" where
  "sample_step guard send expect found =
     \<lparr>st_when = guard, st_for_each = None, st_send = send, st_expect = expect, st_until = None,
      st_bind = [(''build'', Pattern ''build'')], st_on_no_match = OnHalt, st_finding = found\<rparr>"

definition sample_flow :: flow_detection where
  "sample_flow =
     \<lparr>fl_detection = sample_manifest C_ActiveBenign (Some Target),
      fl_step = [sample_step None (Some (''GET '' @ [open_brace] @ ''host'' @ [close_brace])) [Pattern ''ok''] [],
                 sample_step (Some ''bound(build)'') None []
                   [sample_spec None (''build '' @ [open_brace] @ ''build'' @ [close_brace])]]\<rparr>"

definition silent_flow :: flow_detection where
  "silent_flow =
     \<lparr>fl_detection = sample_manifest C_Passive None,
      fl_step = [sample_step None None [] [sample_spec None ''quiet'']]\<rparr>"

definition sample_seed :: flow_seed where
  "sample_seed = \<lparr>seed_host = ''192.0.2.10'', seed_port = 80, seed_exposure = Internet\<rparr>"

lemma sample_checked: "check sample_flow = []" "check silent_flow = []"
  by code_simp+

section \<open>Properties\<close>

text \<open>
  C8. In a flow the checker passes, whatever the service answers, a step is reached with the seed
  variables bound and no variable bound that is not in scope; its guard cannot tell what matched;
  and a send that closes its braces can fail to fill in only a variable that an earlier step binds
  and that no reply supplied.
\<close>

theorem checked_flow_scopes:
  fixes p :: 'p and fs :: "'b finding list"
  assumes "check fd = []"
    and "(flow_step eng pr fd hash seed)\<^sup>*\<^sup>* (start pr fd seed p) (st # sts, env, q, fs)"
  shows "\<exists>before. fl_step fd = before @ st # sts
    \<and> set SEED_VARS \<subseteq> dom env \<and> dom env \<subseteq> scope_before before \<and> step_ok (scope_before before) st
    \<and> (\<forall>m. holds_guard (st_when st) env m = holds_guard (st_when st) env None)
    \<and> (\<forall>send. st_send st = Some send \<longrightarrow> st_for_each st = None \<longrightarrow> closed_template send \<longrightarrow>
         interpolate send env = None \<longrightarrow>
         (\<exists>v \<in> set (template_vars send). v \<notin> dom env \<and> (\<exists>b \<in> set before. v \<in> bind_keys b)))"
proof -
  obtain before where b: "fl_step fd = before @ st # sts" "set SEED_VARS \<subseteq> dom env"
    "dom env \<subseteq> scope_before before" "step_ok (scope_before before) st"
    using config_ok_reached [OF assms] by (auto simp: config_ok_def well_scoped_simps)
  have guard: "guard_ok (st_when st) (gate_scope (scope_before before) st) False"
    and sends: "template_ok (st_send st) (gate_scope (scope_before before) st)"
    using b(4) by (auto simp: step_ok_def)
  have "\<exists>v \<in> set (template_vars send). v \<notin> dom env \<and> (\<exists>b \<in> set before. v \<in> bind_keys b)"
    if given: "st_send st = Some send" "st_for_each st = None" "closed_template send" "interpolate send env = None" for send
  proof -
    obtain v where v: "v \<in> set (template_vars send)" "v \<notin> dom env"
      using interpolate_iff [of send env] given(3,4) by auto
    then have "v \<in> scope_before before"
      using sends given(1,2) by (auto simp: template_ok_def gate_scope_def)
    then show ?thesis using v b(2) scope_before_binds [of before] by blast
  qed
  then show ?thesis using b guard_scope_free [OF guard] by blast
qed

theorem checked_flow_scopes_witness:
  "dom (seed_env sample_seed) = {''host'', ''port''} \<and> interpolate (''GET '' @ [open_brace] @ ''host'' @ [close_brace])
     (seed_env sample_seed) \<noteq> None"
proof -
  obtain st sts where f: "fl_step sample_flow = st # sts" and s: "st_for_each st = None"
    "st_send st = Some (''GET '' @ [open_brace] @ ''host'' @ [close_brace])"
    by (simp add: sample_flow_def sample_step_def)
  then have "start sample_probe sample_flow sample_seed 0 = (take MAX_FLOW_STEPS (fl_step sample_flow),
      seed_env sample_seed, plan sample_probe (exchanges sample_flow) 0, [] :: unit finding list)"
    by (simp only: start_def)
  moreover have "take MAX_FLOW_STEPS (fl_step sample_flow) = st # sts"
    using f check_Nil(2) [OF sample_checked(1)] by simp
  ultimately have "(flow_step sample_engine sample_probe sample_flow [] sample_seed)\<^sup>*\<^sup>*
      (start sample_probe sample_flow sample_seed 0)
      (st # sts, seed_env sample_seed, plan sample_probe (exchanges sample_flow) 0, [] :: unit finding list)"
    by simp
  from checked_flow_scopes [OF sample_checked(1) this] f
  obtain before where b: "fl_step sample_flow = before @ st # sts" "set SEED_VARS \<subseteq> dom (seed_env sample_seed)"
    "dom (seed_env sample_seed) \<subseteq> scope_before before"
    and fills: "closed_template (''GET '' @ [open_brace] @ ''host'' @ [close_brace]) \<longrightarrow>
      interpolate (''GET '' @ [open_brace] @ ''host'' @ [close_brace]) (seed_env sample_seed) = None \<longrightarrow>
      (\<exists>v \<in> set (template_vars (''GET '' @ [open_brace] @ ''host'' @ [close_brace])).
         v \<notin> dom (seed_env sample_seed) \<and> (\<exists>b \<in> set before. v \<in> bind_keys b))"
    using s by auto
  have "before = []" using b(1) f by simp
  moreover have "closed_template (''GET '' @ [open_brace] @ ''host'' @ [close_brace])" by code_simp
  ultimately show ?thesis using b fills by (auto simp: SEED_VARS_def)
qed


text \<open>
  C5. A flow the checker passes that was granted no speech, as every passive one, exchanges
  nothing: the probe is only told that no exchange is planned.
\<close>

theorem unspoken_flow_silent:
  assumes "check fd = []"
    and "ca_speak (dm_capabilities (fl_detection fd)) = None \<or> ca_class (dm_capabilities (fl_detection fd)) = C_Passive"
  shows "fst (run eng pr fd hash seed p) = plan pr 0 p"
proof -
  note caps = check_Nil(3) [OF assms(1)]
  have "ca_speak (dm_capabilities (fl_detection fd)) = None"
    using assms(2) caps by (auto simp: check_capabilities_def Let_def split: if_splits)
  note none = unspoken_sends [OF caps this]
  then have "\<forall>st \<in> set (take MAX_FLOW_STEPS (fl_step fd)). st_send st = None" using in_set_takeD by fast
  moreover from this have "sum_list (map step_cost (take MAX_FLOW_STEPS (fl_step fd))) = 0"
    by (simp add: step_cost_def)
  then have "unat (exchanges fd) = 0" using exchanges_cost [of fd] by presburger
  then have "exchanges fd = 0" by (simp add: unat_eq_zero)
  ultimately show ?thesis using silent_steps unfolding run_def by metis
qed

theorem unspoken_flow_silent_witness:
  "fst (run sample_engine sample_probe silent_flow [] sample_seed 0) = 0"
  using unspoken_flow_silent [OF sample_checked(2), of sample_engine sample_probe "[]" sample_seed 0]
  by (simp add: silent_flow_def sample_manifest_def sample_probe_def)

text \<open>
  C32. Checked or not, a flow makes no more exchanges than it tells its probe to plan for, which
  is at most 1024; counting them does not change what the run does.
\<close>

theorem exchanges_bound:
  fixes p :: 'p
  shows "\<exists>k. run eng (counting pr) fd hash seed (0, p)
      = (case run eng pr fd hash seed p :: 'p \<times> 'b finding list of (q, fs) \<Rightarrow> ((k, q), fs))
    \<and> k \<le> unat (exchanges fd) \<and> unat (exchanges fd) \<le> MAX_FLOW_STEPS * MAX_LOOP_ITEMS"
proof -
  have plan: "plan (counting pr) (exchanges fd) (0, p) = (0, plan pr (exchanges fd) p)"
    by (simp add: counting_def)
  obtain k where "k \<le> sum_list (map step_cost (take MAX_FLOW_STEPS (fl_step fd)))"
    "run eng (counting pr) fd hash seed (0, p) =
       (case run eng pr fd hash seed p :: 'p \<times> 'b finding list of (p', fs') \<Rightarrow> ((0 + k, p'), fs'))"
    using run_steps_counting [of "take MAX_FLOW_STEPS (fl_step fd)" eng pr fd hash seed "seed_env seed" 0
        "plan pr (exchanges fd) p" "[] :: 'b finding list"]
    unfolding run_def plan by blast
  then show ?thesis
    using exchanges_cost [of fd] by (intro exI [of _ k]) (simp add: MAX_FLOW_STEPS_def MAX_LOOP_ITEMS_def)
qed

text \<open>
  C33. The interpreter fills a template in exactly when every name the checker reads in it has a
  value and every opening brace is closed; doubling the braces of a text makes a template for it.
\<close>

theorem templates_agree:
  "(interpolate t env \<noteq> None \<longleftrightarrow> closed_template t \<and> set (template_vars t) \<subseteq> dom env)
   \<and> interpolate (escape_braces s) env = Some s"
  by (intro conjI interpolate_iff interpolate_escaped)

text \<open>
  A brace left open is not an error to the checker: such a flow passes, and its send never happens.
\<close>

definition unclosed_flow :: flow_detection where
  "unclosed_flow = sample_flow\<lparr>fl_step :=
     [sample_step None (Some (''GET '' @ [open_brace])) [Pattern ''ok''] [sample_spec None ''found'']]\<rparr>"

lemma unclosed_flow_passes: "check unclosed_flow = []"
  by code_simp

lemma unclosed_template: "\<not> closed_template (''GET '' @ [open_brace])"
  by code_simp

lemma unclosed_flow_mute:
  "run eng pr unclosed_flow hash seed p = (plan pr 1 p, [])"
proof -
  have "interpolate (''GET '' @ [open_brace]) env = None" for env
    using interpolate_iff [of "''GET '' @ [open_brace]" env] unclosed_template by simp
  moreover have "exchanges unclosed_flow = 1" by code_simp
  ultimately show ?thesis
    by (simp add: run_def unclosed_flow_def sample_step_def MAX_FLOW_STEPS_def run_step_def holds_guard_def
        after_no_match_def)
qed

end
