(* ===== verification/Spec2Isabelle.thy ===== *)
theory Spec2Isabelle
  imports Resume_Correct Settle_Correct Exclusion_Correct Congestion_Correct Retry_Run Deadline_Correct Telemetry_Correct
    Version_Correct Guard_Correct Finding_Correct Flow_Correct
begin

text \<open>
  \<^bold>\<open>Zond Engine: targets, order, resumption, exclusions, pacing and detection flows.\<close>

  The engine takes a set of addresses and ports, leaves out what a policy excludes and what no socket
  can reach, numbers the targets that remain, asks them in a keyed pseudo-random order, records which
  are settled so that an interrupted scan resumes where it stopped, paces its probes and asks again where
  none answers, and runs detections against what does, each giving findings that later scans corroborate.
  This development models that path, from the text of a port specification to the findings, and proves
  that no target is lost, asked twice or asked against the policy on the way.

  \<^bold>\<open>Conventions.\<close>  An unsigned integer is a word of its width, so that wrapping, saturating and
  checked arithmetic are those of the source; \<open>usize\<close>, which only indexes vectors here, is \<open>nat\<close>; an
  \<open>i64\<close> literal is an \<open>int\<close> kept in range by the lexer.  A \<open>Vec\<close> is a list, a \<open>Result\<close> a sum with
  the error on the left, a panic \<open>None\<close>.  A method that mutates its receiver returns the new value.
  Text is a \<open>string\<close> of code points below 256; where the source reads bytes, the model is for ASCII.
  Code outside the sources is a parameter: the regular-expression engine (\<open>engine\<close>), the socket behind
  \<open>Probe\<close> (\<open>probe\<close>), the interface table and the limit on a walk (\<open>take_unprobeable\<close>), the entry a heap
  yields among equals (\<open>peek\<close>) and the platform's \<open>f64::powi\<close> (\<open>powi64\<close>).  The clock is an argument.

  \<^bold>\<open>Foundations.\<close>
  \<^item> \<open>Rust_Std\<close>: the machine arithmetic, \<open>Ordering\<close>, binary search and ranges of the standard library.
  \<^item> \<open>Float64\<close>: \<open>f64\<close> arithmetic as rationals rounded to the nearest of 53 bits, ties to even, with the
    infinities and NaN; rounding is monotone and fixes what is representable.
  \<^item> \<open>Rust_Text\<close>: the string operations used, with decimal numbers read and printed.
  \<^item> \<open>Intervals\<close>: canonical lists of intervals of natural numbers, and the locale \<open>lane\<close>, the merging
    of a list of ranges proved once; IPv4 ranges, IPv6 ranges (one stretch per interface) and port
    ranges interpret it.

  \<^bold>\<open>Addresses and ports\<close> (\<open>model/ip/range.rs\<close>, \<open>model/ip/set.rs\<close>, \<open>model/port/set.rs\<close>).
  \<^item> \<open>Ip_Range\<close>, \<open>Ip_Set\<close>: ranges, sets, merging, subtraction, queries.  \<open>Ip_Lanes\<close> and \<open>Ip_Subtract\<close>
    read a set as its addresses on their interfaces (\<open>scoped_addrs\<close>); \<open>Ip_Set_Correct\<close> shows that
    merging keeps them, membership answers for them, subtraction leaves exactly the difference and
    equality is equality of them, under the invariant \<open>ip_set_inv\<close> that every operation keeps.
  \<^item> \<open>Positions\<close>, \<open>Positions_Correct\<close>: numbering the addresses of a set; looking up by position and by
    address are inverse to the enumeration.
  \<^item> \<open>Port_Set\<close>, \<open>Port_Set_Correct\<close>: the port specification, read and rendered, and set arithmetic.
  \<^item> \<open>Scoped\<close> (\<open>model/ip/scoped.rs\<close>), \<open>Exposure\<close> (\<open>model/ip.rs\<close>), \<open>Mac\<close> (\<open>model/mac.rs\<close>): zones, who can
    reach an address, hardware addresses and their text form.

  \<^bold>\<open>Targets, order and resumption\<close> (\<open>model/target.rs\<close>, \<open>model/order.rs\<close>, \<open>journal/cursor.rs\<close>,
  \<open>journal/settle.rs\<close>).
  \<^item> \<open>Target\<close>, \<open>Target_Index\<close>, \<open>Target_Correct\<close>: maps of addresses and ports; the index agrees with the
    enumeration, hosts partition the positions, and what is taken out is accounted for.
  \<^item> \<open>Order\<close>: the Feistel network with cycle walking, whose loop is a \<open>partial_function\<close>; it is shown to
    return and to visit every position once.
  \<^item> \<open>Cursor\<close>, \<open>Cursor_Correct\<close>, \<open>Resume_Correct\<close>: the watermark with its exceptions, the checkpoint,
    and what a resumed scan asks: exactly what is not settled.
  \<^item> \<open>Settle\<close>, \<open>Settle_Correct\<close>: the record threads share.  A call is a sequence of atomic actions and
    an interleaving is a run of the relation \<open>sched\<close>; every interleaving ends, with the same record.
  \<^item> \<open>Exclusion\<close>, \<open>Exclusion_Correct\<close> (\<open>model/exclusion.rs\<close>): the policy in both spellings of an
    address; withholding leaves exactly the targets it does not name, in order.

  \<^bold>\<open>Pacing\<close> (\<open>scanner/pacing/\<close>).
  \<^item> \<open>Durations\<close>: \<open>Duration\<close> and \<open>Instant\<close>, and what the pacing code shares.
  \<^item> \<open>Telemetry\<close>, \<open>Telemetry_Correct\<close> (\<open>model/host/telemetry.rs\<close>): the round trips kept of a host; the newest
    survive a merge, and the summaries lie between the least and the greatest.
  \<^item> \<open>Deadline\<close>, \<open>Deadline_Correct\<close> (\<open>rtt_window.rs\<close>, \<open>timer.rs\<close>, \<open>deadline.rs\<close>): when a scan stops.  Its
    tolerance of silence never panics and keeps its bounds, a late start loses no time, and overlapping
    holds are credited once.
  \<^item> \<open>Congestion\<close>, \<open>Congestion_Correct\<close> (\<open>congestion.rs\<close>): the window a scan keeps in flight; any sequence of
    signals (the relation \<open>paced\<close>) keeps it between its bounds, and a burst of losses is one reduction.
  \<^item> \<open>Retry\<close>, \<open>Retry_Correct\<close>, \<open>Retry_Run\<close> (\<open>retry.rs\<close>): the ledger of outstanding probes.  Under the
    invariant \<open>ledger_inv\<close>, kept by every operation, no undeferred probe is without its timer; over the
    runs \<open>ledger_run\<close> every probe ends exactly once and within its attempts; a reply is numbered and timed
    by the attempt it answers; the estimate stays in the range of what was measured, and a seed leaves no
    trace once a round trip is.

  \<^bold>\<open>Detections\<close> (\<open>version.rs\<close>, \<open>model/finding.rs\<close>, \<open>detect/\<close>).
  \<^item> \<open>Version\<close>, \<open>Version_Correct\<close>: the two orders on versions, built from comparators in the locale
    \<open>comparator\<close>; both are total preorders, the lax one where digit runs fit 64 bits.
  \<^item> \<open>Guard\<close>, \<open>Guard_Correct\<close>: the guard language; the parser accepts exactly its grammar, given as
    inductive predicates, and a guard reads only what it is reported to read.
  \<^item> \<open>Finding\<close>, \<open>Finding_Correct\<close>: findings and \<open>corroborate\<close>, which keeps the claim and never weakens.
  \<^item> \<open>Flow\<close>, \<open>Flow_Run\<close>, \<open>Flow_Correct\<close>: what an author writes, its checks and the interpreter.  A flow
    that passes is well scoped (the judgement \<open>well_scoped\<close>), a flow not allowed to speak sends
    nothing, a run sends no more than it announced, and the interpreter computes the complete runs of
    the transition system \<open>flow_step\<close>.

  \<^bold>\<open>Bounds and loops.\<close>  The only fuel is the nesting limit of the source itself (\<open>MAX_GUARD_DEPTH\<close>,
  64 levels).  Every other loop is a terminating function -- draining
  the timers ends because each turn drops a timer or charges an attempt -- apart from cycle walking, which is shown to
  return for every permutation built by \<open>permutation_new\<close>.

  \<^bold>\<open>Not modelled.\<close>  Sockets, capture, kernel tables, name resolution, downloads, files, locks and
  logging are I/O.  The scanner's strategies and session are asynchronous tasks over those; the
  decisions they take over targets, order, cursor, settlements, exclusions, windows and retries are modelled
  here.  Report
  formats go through serde and format writers; the packet codecs are laid over the views of a
  third-party package; the fingerprint database and the prevalence catalogues are data; compute
  detections run in a third-party interpreter.
\<close>

end
